(* ===== verification/Kernel_Prelude.thy ===== *)
theory Kernel_Prelude
  imports Main "HOL-Library.Word"
begin

text \<open>
  What every component theory shares: the machine-integer types of the Rust code, the outcome
  of a piece of kernel code, the sequencing operator of outcomes, the loop forms \<open>for x in xs\<close>
  and \<open>map(..).collect()\<close>, and the word lemmas about pages (4096 bytes) and the 512 u64 slots
  of a page.

  The kernel is built with \<open>cargo build --release\<close> (xtask/src/main.rs), so integer overflow
  wraps: a u64 and a usize (riscv64) are \<open>64 word\<close>, whose operations wrap as well.

  Outcomes. A call returns a value, stops the kernel with a fault, or never returns. The panic
  handler of main.rs prints and loops for ever and so does \<open>trap_handler\<close> after a page fault in
  the kernel, so a fault is final and carries no state.
\<close>

unbundle bit_operations_syntax

type_synonym u8 = "8 word"
type_synonym u16 = "16 word"
type_synonym u32 = "32 word"
type_synonym u64 = "64 word"
type_synonym usize = "64 word"

section \<open>Outcomes\<close>

datatype fault =
    PageFault u64              \<comment> \<open>load or store of an address that is not mapped\<close>
  | OutOfBounds nat nat        \<comment> \<open>slice index and length\<close>
  | DivideByZero
  | UnwrapNone
  | UnwrapErr string
  | AssertFailed
  | Panic string               \<comment> \<open>an explicit panic of the source, with its first words\<close>

text \<open>\<open>None\<close> is a call that does not return (an endless loop, a lock its holder takes again).\<close>

type_synonym 'a result = "(fault + 'a) option"

abbreviation ok :: "'a \<Rightarrow> 'a result" where
  "ok x \<equiv> Some (Inr x)"

abbreviation fail :: "fault \<Rightarrow> 'a result" where
  "fail e \<equiv> Some (Inl e)"

abbreviation hang :: "'a result" where
  "hang \<equiv> None"

definition rbind :: "'a result \<Rightarrow> ('a \<Rightarrow> 'b result) \<Rightarrow> 'b result" where
  "rbind m f = (case m of None \<Rightarrow> None | Some (Inl e) \<Rightarrow> Some (Inl e) | Some (Inr x) \<Rightarrow> f x)"

lemma rbind_simps [simp]:
  "rbind (ok x) f = f x"
  "rbind (fail e) f = fail e"
  "rbind hang f = hang"
  by (simp_all add: rbind_def)

lemma rbind_assoc [simp]: "rbind (rbind m f) g = rbind m (\<lambda>x. rbind (f x) g)"
  by (simp add: rbind_def split: option.splits sum.splits)

lemma rbind_eq_ok: "rbind m f = ok y \<longleftrightarrow> (\<exists>x. m = ok x \<and> f x = ok y)"
  by (auto simp: rbind_def split: option.splits sum.splits)

lemma rbind_cong [fundef_cong]:
  "m = n \<Longrightarrow> (\<And>x. n = ok x \<Longrightarrow> f x = g x) \<Longrightarrow> rbind m f = rbind n g"
  by (auto simp: rbind_def split: option.splits sum.splits)

lemma rbind_if: "rbind (if b then m else n) f = (if b then rbind m f else rbind n f)"
  by simp

lemma rbind_mono [partial_function_mono]:
  assumes B: "mono_option B" and C: "\<And>y. mono_option (\<lambda>f. C y f)"
  shows "mono_option (\<lambda>f. rbind (B f) (\<lambda>y. C y f))"
  using B C by (fastforce simp: monotone_def rbind_def flat_ord_def split: option.splits sum.splits)

text \<open>\<open>Option::unwrap\<close>, \<open>Result::unwrap\<close>, \<open>assert!\<close> and the bounds check of an index.\<close>

definition unwrap_opt :: "'a option \<Rightarrow> 'a result" where
  "unwrap_opt x = (case x of None \<Rightarrow> fail UnwrapNone | Some v \<Rightarrow> ok v)"

definition unwrap_res :: "string + 'a \<Rightarrow> 'a result" where
  "unwrap_res x = (case x of Inl e \<Rightarrow> fail (UnwrapErr e) | Inr v \<Rightarrow> ok v)"

definition assert_that :: "bool \<Rightarrow> unit result" where
  "assert_that b = (if b then ok () else fail AssertFailed)"

definition index_at :: "'a list \<Rightarrow> nat \<Rightarrow> 'a result" where
  "index_at xs i = (if i < length xs then ok (xs ! i) else fail (OutOfBounds i (length xs)))"

definition checked_div :: "'a::len word \<Rightarrow> 'a word \<Rightarrow> 'a word result" where
  "checked_div a b = (if b = 0 then fail DivideByZero else ok (a div b))"

lemma unwrap_simps [simp]:
  "unwrap_opt None = fail UnwrapNone" "unwrap_opt (Some v) = ok v"
  "unwrap_res (Inl e) = fail (UnwrapErr e)" "unwrap_res (Inr v) = ok v"
  "assert_that True = ok ()" "assert_that False = fail AssertFailed"
  by (simp_all add: unwrap_opt_def unwrap_res_def assert_that_def)

lemma index_at_lt [simp]: "i < length xs \<Longrightarrow> index_at xs i = ok (xs ! i)"
  by (simp add: index_at_def)

section \<open>Printing\<close>

text \<open>Numbers print in decimal.\<close>

fun show_nat :: "nat \<Rightarrow> string" where
  "show_nat n = (if n < 10 then [''0123456789'' ! n] else show_nat (n div 10) @ [''0123456789'' ! (n mod 10)])"

section \<open>Loops\<close>

text \<open>\<open>for x in xs { body }\<close> over a state, and a fallible \<open>map\<close> in order.\<close>

fun rfold :: "('a \<Rightarrow> 's \<Rightarrow> 's result) \<Rightarrow> 'a list \<Rightarrow> 's \<Rightarrow> 's result" where
  "rfold f [] s = ok s"
| "rfold f (x # xs) s = rbind (f x s) (rfold f xs)"

fun rmap :: "('a \<Rightarrow> 'b result) \<Rightarrow> 'a list \<Rightarrow> 'b list result" where
  "rmap f [] = ok []"
| "rmap f (x # xs) = rbind (f x) (\<lambda>y. rbind (rmap f xs) (\<lambda>ys. ok (y # ys)))"

lemma rfold_append: "rfold f (xs @ ys) s = rbind (rfold f xs s) (rfold f ys)"
  by (induction xs arbitrary: s) (auto intro!: rbind_cong)

lemma rmap_ok: "(\<And>x. x \<in> set xs \<Longrightarrow> f x = ok (g x)) \<Longrightarrow> rmap f xs = ok (map g xs)"
  by (induction xs) simp_all

lemma rfold_pure: "(\<And>x t. x \<in> set xs \<Longrightarrow> f x t = ok (g x t)) \<Longrightarrow> rfold f xs s = ok (fold g xs s)"
  by (induction xs arbitrary: s) simp_all

lemma rfold_invariant:
  assumes "rfold f xs s = ok t" and "P s"
    and "\<And>x u v. x \<in> set xs \<Longrightarrow> P u \<Longrightarrow> f x u = ok v \<Longrightarrow> P v"
  shows "P t"
  using assms
proof (induction xs arbitrary: s)
  case Nil
  then show ?case by simp
next
  case (Cons x xs)
  from Cons.prems(1) obtain u where u: "f x s = ok u" "rfold f xs u = ok t"
    by (auto simp: rbind_eq_ok)
  from Cons.prems(3)[of x s u] Cons.prems(2) u(1) have "P u" by simp
  with u(2) show ?case using Cons.prems(3) by (intro Cons.IH[of u]) auto
qed

section \<open>Words\<close>

lemma of_nat_of_unat: "unat w = n \<Longrightarrow> of_nat n = w"
  by auto

lemma unat_of_nat_less: "n < 2 ^ LENGTH('a) \<Longrightarrow> unat (of_nat n :: 'a::len word) = n"
  by (simp add: unat_of_nat)

end
