(* ===== verification/Machine.thy ===== *)
theory Machine
  imports Kernel_Prelude
begin

text \<open>
  The machine as the memory code of LSD sees it. Physical memory is reached through the higher
  half direct map: the address of a cell is its physical address plus \<open>HHDM_OFFSET\<close>. Page
  tables and free-list entries are read and written as aligned u64 cells, so memory is a partial
  map from addresses to u64 cells; an address outside its domain is not mapped and an access to
  it faults. The record also holds the globals of memory/ (the free list of \<open>REGION_LIST\<close>, the
  atomics \<open>HHDM_OFFSET\<close> and \<open>LEVELS\<close>), the CSR satp and the sequence of executed fences.
\<close>

section \<open>State\<close>

text \<open>One \<open>sfence.vma\<close> with its optional operands (\<open>None\<close> is the register \<open>zero\<close>).\<close>

type_synonym fence = "u64 option \<times> u16 option"

record machine =
  mem :: "u64 \<rightharpoonup> u64"
  hhdm :: u64              \<comment> \<open>HHDM_OFFSET\<close>
  fl_head :: u64           \<comment> \<open>REGION_LIST.head\<close>
  fl_tail :: u64           \<comment> \<open>REGION_LIST.tail\<close>
  fl_len :: usize          \<comment> \<open>REGION_LIST.len\<close>
  levels :: u8             \<comment> \<open>LEVELS\<close>
  satp :: u64
  fences :: "fence list"   \<comment> \<open>executed fences, the latest first\<close>

definition rd :: "machine \<Rightarrow> u64 \<Rightarrow> u64 result" where
  "rd s a = (case mem s a of None \<Rightarrow> fail (PageFault a) | Some v \<Rightarrow> ok v)"

definition wr :: "machine \<Rightarrow> u64 \<Rightarrow> u64 \<Rightarrow> machine result" where
  "wr s a v = (if mem s a = None then fail (PageFault a) else ok (s\<lparr>mem := (mem s)(a \<mapsto> v)\<rparr>))"

lemma rd_Some [simp]: "mem s a = Some v \<Longrightarrow> rd s a = ok v"
  by (simp add: rd_def)

lemma rd_None [simp]: "mem s a = None \<Longrightarrow> rd s a = fail (PageFault a)"
  by (simp add: rd_def)

lemma wr_Some [simp]: "mem s a = Some w \<Longrightarrow> wr s a v = ok (s\<lparr>mem := (mem s)(a \<mapsto> v)\<rparr>)"
  by (simp add: wr_def)

lemma wr_None [simp]: "mem s a = None \<Longrightarrow> wr s a v = fail (PageFault a)"
  by (simp add: wr_def)

section \<open>Pages and their slots\<close>

text \<open>A page starts at a multiple of 4096; slot \<open>i\<close> is its \<open>i\<close>-th u64.\<close>

definition page_aligned :: "u64 \<Rightarrow> bool" where
  "page_aligned p \<longleftrightarrow> p AND 0xfff = 0"

definition slot :: "u64 \<Rightarrow> nat \<Rightarrow> u64" where
  "slot p i = p + 8 * of_nat i"

lemma slot_0: "slot p 0 = p"
  by (simp add: slot_def)

lemma page_aligned_mod: "page_aligned p \<longleftrightarrow> unat p mod 4096 = 0"
proof -
  have "p AND 0xfff = 0 \<longleftrightarrow> p AND mask 12 = 0" by (simp add: mask_eq_exp_minus_1)
  also have "\<dots> \<longleftrightarrow> 2 ^ 12 dvd unat p" by (simp only: and_mask_dvd_nat)
  finally show ?thesis by (simp add: page_aligned_def dvd_eq_mod_eq_0)
qed

lemma page_aligned_0 [simp]: "page_aligned 0"
  by (simp add: page_aligned_def)

lemma page_room: "page_aligned p \<Longrightarrow> unat p + 4096 \<le> 2 ^ 64"
proof -
  assume "page_aligned p"
  then have "4096 dvd unat p" by (simp add: page_aligned_mod dvd_eq_mod_eq_0)
  then obtain k where k: "unat p = 4096 * k" by (auto elim: dvdE)
  moreover have "unat p < 2 ^ 64" using unsigned_less [of p] by simp
  ultimately have "k < 2 ^ 52" by simp
  with k show ?thesis by simp
qed

lemma unat_slot:
  assumes "page_aligned p" and "i < 512"
  shows "unat (slot p i) = unat p + 8 * i"
proof -
  have i: "unat (8 * of_nat i :: u64) = 8 * i"
    using assms(2) by (simp add: unat_word_ariths unat_of_nat)
  have "unat p + 8 * i < 2 ^ 64" using page_room [OF assms(1)] assms(2) by simp
  then have "unat (p + 8 * of_nat i) = unat p + unat (8 * of_nat i :: u64)"
    using i by (subst unat_add_lem [THEN iffD1]) simp_all
  then show ?thesis by (simp add: slot_def i)
qed

lemma slot_inj:
  assumes "page_aligned p" "page_aligned q" "i < 512" "j < 512"
  shows "slot p i = slot q j \<longleftrightarrow> p = q \<and> i = j"
proof
  assume eq: "slot p i = slot q j"
  have eq: "unat p + 8 * i = unat q + 8 * j"
    by (simp only: eq flip: unat_slot [OF assms(1,3)] unat_slot [OF assms(2,4)])
  have mods: "unat p mod 4096 = 0" "unat q mod 4096 = 0"
    using assms by (simp_all only: page_aligned_mod)
  have "(unat p + 8 * i) mod 4096 = 8 * i" "(unat q + 8 * j) mod 4096 = 8 * j"
    using mods assms(3,4) by (simp_all add: mod_add_left_eq [symmetric])
  with eq have "unat p = unat q" "i = j" by simp_all
  then show "p = q \<and> i = j" by (simp add: unsigned_word_eqI)
qed simp

definition page_cells :: "u64 \<Rightarrow> u64 set" where
  "page_cells p = slot p ` {..<512}"

definition page_mapped :: "(u64 \<rightharpoonup> u64) \<Rightarrow> u64 \<Rightarrow> bool" where
  "page_mapped m p \<longleftrightarrow> (\<forall>i \<in> {0..<512}. m (slot p i) \<noteq> None)"

lemma page_mappedD: "page_mapped m p \<Longrightarrow> i < 512 \<Longrightarrow> \<exists>v. m (slot p i) = Some v"
  by (force simp: page_mapped_def)

lemma page_mapped_upd [simp]: "page_mapped m p \<Longrightarrow> page_mapped (m(a \<mapsto> v)) p"
  by (simp add: page_mapped_def)

lemma slot_in_page [simp, intro]: "i < 512 \<Longrightarrow> slot p i \<in> page_cells p"
  by (simp add: page_cells_def)

lemma page_cells_disjoint:
  "page_aligned p \<Longrightarrow> page_aligned q \<Longrightarrow> p \<noteq> q \<Longrightarrow> page_cells p \<inter> page_cells q = {}"
  by (auto simp: page_cells_def slot_inj)

lemma slot_not_in_page:
  "page_aligned p \<Longrightarrow> page_aligned q \<Longrightarrow> i < 512 \<Longrightarrow> slot p i \<in> page_cells q \<longleftrightarrow> p = q"
  by (auto simp: page_cells_def slot_inj)

lemma page_mapped_cong:
  "(\<And>a. a \<in> page_cells p \<Longrightarrow> m a = m' a) \<Longrightarrow> page_mapped m p = page_mapped m' p"
  by (simp add: page_mapped_def page_cells_def)

section \<open>Whole-page accesses\<close>

text \<open>
  \<open>ptr.read_volatile()\<close> and \<open>ptr.write_volatile(copy)\<close> of a \<open>PageTable\<close> (512 entries), and the
  loop that zeroes one: \<open>for entry in (*table).0.iter_mut() { entry.0 = 0 }\<close>.
\<close>

definition read_table :: "machine \<Rightarrow> u64 \<Rightarrow> u64 list result" where
  "read_table s t = rmap (\<lambda>i. rd s (slot t i)) [0..<512]"

definition write_table :: "machine \<Rightarrow> u64 \<Rightarrow> u64 list \<Rightarrow> machine result" where
  "write_table s t xs = rfold (\<lambda>i u. wr u (slot t i) (xs ! i)) [0..<512] s"

definition zero_table :: "machine \<Rightarrow> u64 \<Rightarrow> machine result" where
  "zero_table s t = rfold (\<lambda>i u. wr u (slot t i) 0) [0..<512] s"

text \<open>What they do to a mapped page, as one update of memory.\<close>

definition table_of :: "(u64 \<rightharpoonup> u64) \<Rightarrow> u64 \<Rightarrow> u64 list" where
  "table_of m t = map (\<lambda>i. the (m (slot t i))) [0..<512]"

definition fill :: "(u64 \<rightharpoonup> u64) \<Rightarrow> u64 \<Rightarrow> (nat \<Rightarrow> u64) \<Rightarrow> (u64 \<rightharpoonup> u64)" where
  "fill m t f = fold (\<lambda>i m. m(slot t i \<mapsto> f i)) [0..<512] m"

lemma length_table_of [simp]: "length (table_of m t) = 512"
  by (simp add: table_of_def)

lemma nth_table_of [simp]: "i < 512 \<Longrightarrow> table_of m t ! i = the (m (slot t i))"
  by (simp add: table_of_def del: upt_conv_Cons upt.simps)

lemma read_table_mapped: "page_mapped (mem s) t \<Longrightarrow> read_table s t = ok (table_of (mem s) t)"
  unfolding read_table_def table_of_def
  by (rule rmap_ok) (auto simp: page_mapped_def rd_def split: option.splits)

lemma rfold_wr_mapped:
  assumes "\<forall>i \<in> set is. mem s (slot t i) \<noteq> None"
  shows "rfold (\<lambda>i u. wr u (slot t i) (f i)) is s
         = ok (s\<lparr>mem := fold (\<lambda>i m. m(slot t i \<mapsto> f i)) is (mem s)\<rparr>)"
  using assms
proof (induction "is" arbitrary: s)
  case (Cons i "is")
  let ?u = "s\<lparr>mem := (mem s)(slot t i \<mapsto> f i)\<rparr>"
  have "wr s (slot t i) (f i) = ok ?u" using Cons.prems by (simp add: wr_def)
  moreover have "\<forall>j \<in> set is. mem ?u (slot t j) \<noteq> None" using Cons.prems by simp
  ultimately show ?case using Cons.IH [of ?u] by simp
qed simp

lemma write_table_mapped:
  "page_mapped (mem s) t \<Longrightarrow> write_table s t xs = ok (s\<lparr>mem := fill (mem s) t (\<lambda>i. xs ! i)\<rparr>)"
  unfolding write_table_def fill_def by (rule rfold_wr_mapped) (simp add: page_mapped_def)

lemma zero_table_mapped:
  "page_mapped (mem s) t \<Longrightarrow> zero_table s t = ok (s\<lparr>mem := fill (mem s) t (\<lambda>_. 0)\<rparr>)"
  unfolding zero_table_def fill_def by (rule rfold_wr_mapped) (simp add: page_mapped_def)

lemma fold_upd_other:
  "a \<notin> slot t ` set is \<Longrightarrow> fold (\<lambda>i m. m(slot t i \<mapsto> f i)) is m a = m a"
  by (induction "is" arbitrary: m) auto

lemma fold_upd_same:
  assumes "page_aligned t" "set is \<subseteq> {..<512}" "distinct is" "i \<in> set is"
  shows "fold (\<lambda>i m. m(slot t i \<mapsto> f i)) is m (slot t i) = Some (f i)"
  using assms
proof (induction "is" arbitrary: m)
  case (Cons j "is")
  show ?case
  proof (cases "i = j")
    case True
    have "slot t i \<notin> slot t ` set is" using Cons.prems True by (auto simp: slot_inj)
    with True show ?thesis by (simp add: fold_upd_other del: fun_upd_apply) simp
  next
    case False
    with Cons show ?thesis by simp
  qed
qed simp

lemma fill_other: "a \<notin> page_cells t \<Longrightarrow> fill m t f a = m a"
  unfolding fill_def by (rule fold_upd_other) (auto simp: page_cells_def lessThan_atLeast0)

lemma fill_slot: "page_aligned t \<Longrightarrow> i < 512 \<Longrightarrow> fill m t f (slot t i) = Some (f i)"
  unfolding fill_def by (rule fold_upd_same) auto

text \<open>Read the table, change one entry of the copy, write the copy back: one cell changes.\<close>

lemma fill_update:
  assumes "page_aligned t" "page_mapped m t" "i < 512"
  shows "fill m t (\<lambda>j. (table_of m t)[i := v] ! j) = m(slot t i \<mapsto> v)"
proof
  fix a
  show "fill m t (\<lambda>j. (table_of m t)[i := v] ! j) a = (m(slot t i \<mapsto> v)) a"
  proof (cases "a \<in> page_cells t")
    case True
    then obtain j where j: "a = slot t j" "j < 512" by (auto simp: page_cells_def)
    then show ?thesis using assms page_mappedD [OF assms(2) j(2)]
      by (auto simp: fill_slot slot_inj nth_list_update)
  next
    case False
    then show ?thesis using assms(3) by (auto simp: fill_other)
  qed
qed

lemma page_mapped_fill [simp]:
  "page_aligned t \<Longrightarrow> page_aligned p \<Longrightarrow> page_mapped m p \<Longrightarrow> page_mapped (fill m t f) p"
  by (cases "p = t") (auto simp: page_mapped_def fill_slot fill_other slot_not_in_page)

end
