(* ===== verification/Pmm.thy ===== *)
theory Pmm
  imports Machine
begin

text \<open>
  The physical memory manager, LSD/src/memory/pmm.rs: a free list threaded through the free
  frames themselves. A free frame holds a \<open>FreeListEntry\<close>, its \<open>prev\<close> pointer in the first and
  its \<open>next\<close> pointer in the second u64. The operations below are those of \<open>impl FreeList\<close>, each
  load and store in the order of the source. \<open>fl_inv s xs\<close> says that the machine's list is the
  doubly linked list of the frames \<open>xs\<close>; the lemmas show what each operation does to \<open>xs\<close>.
\<close>

section \<open>Operations\<close>

abbreviation prev_of :: "u64 \<Rightarrow> u64" where
  "prev_of e \<equiv> slot e 0"

abbreviation next_of :: "u64 \<Rightarrow> u64" where
  "next_of e \<equiv> slot e 1"

definition fl_init :: "machine \<Rightarrow> u64 \<Rightarrow> machine result" where
  "fl_init s new =
     rbind (wr s (prev_of new) 0) (\<lambda>s.
     rbind (wr s (next_of new) 0) (\<lambda>s.
     ok (s\<lparr>fl_head := new, fl_tail := new, fl_len := 1\<rparr>)))"

definition fl_push :: "machine \<Rightarrow> u64 \<Rightarrow> machine result" where
  "fl_push s new =
     (if new < hhdm s then fail (Panic ''Attempt to push entry below HHDM'')
      else if \<not> page_aligned new then fail (Panic ''Bad alignment for entry'')
      else
        rbind (wr s (next_of new) 0) (\<lambda>s.
        rbind (wr s (prev_of new) (fl_tail s)) (\<lambda>s.
        rbind (wr s (next_of (fl_tail s)) new) (\<lambda>s.
        ok (s\<lparr>fl_tail := new, fl_len := fl_len s + 1\<rparr>)))))"

definition fl_pull :: "machine \<Rightarrow> u64 \<Rightarrow> machine result" where
  "fl_pull s new =
     (if new < hhdm s then fail (Panic ''Attempt to pull entry below HHDM'')
      else if \<not> page_aligned new then fail (Panic ''Bad alignment for entry'')
      else
        rbind (wr s (prev_of new) 0) (\<lambda>s.
        rbind (wr s (next_of new) (fl_head s)) (\<lambda>s.
        rbind (wr s (prev_of (fl_head s)) new) (\<lambda>s.
        ok (s\<lparr>fl_head := new, fl_len := fl_len s + 1\<rparr>)))))"

definition fl_claim :: "machine \<Rightarrow> (u64 \<times> machine) result" where
  "fl_claim s =
     (let og_head = fl_head s in
      rbind (rd s (next_of og_head)) (\<lambda>next_entry.
      rbind (if next_entry < hhdm s
             then rbind (wr s (next_of og_head) (og_head + 0x1000)) (\<lambda>s.
                  rbind (rd s (next_of og_head)) (\<lambda>next_entry. ok (next_entry, s)))
             else ok (next_entry, s)) (\<lambda>(next_entry, s).
      rbind (wr s (prev_of next_entry) 0) (\<lambda>s.
      ok (og_head, s\<lparr>fl_head := next_entry, fl_len := fl_len s - 1\<rparr>)))))"

text \<open>
  The loop \<open>for _ in 0..self.len\<close> of \<open>claim_continuous\<close> and of \<open>claim_aligned\<close>. The two loops
  differ in one conjunct, \<open>masked_addr == 0\<close>; \<open>align_mask = 0\<close> makes it true and gives the loop of
  \<open>claim_continuous\<close>. \<open>fl_take_run\<close> is the branch that unlinks the run found.
\<close>

definition fl_take_run :: "machine \<Rightarrow> usize \<Rightarrow> u64 \<Rightarrow> u64 \<Rightarrow> (u64 \<times> machine) result" where
  "fl_take_run s frames base_entry current_entry =
     rbind (rd s (prev_of base_entry)) (\<lambda>previous.
     rbind (rd s (next_of current_entry)) (\<lambda>next_entry.
     rbind (if previous = 0
            then rbind (rd s (next_of current_entry)) (\<lambda>h.
                 wr (s\<lparr>fl_head := h\<rparr>) (prev_of next_entry) 0)
            else rbind (wr s (next_of previous) next_entry) (\<lambda>s.
                 wr s (prev_of next_entry) previous)) (\<lambda>s.
     ok (base_entry, s\<lparr>fl_len := fl_len s - frames\<rparr>))))"

fun fl_scan :: "nat \<Rightarrow> usize \<Rightarrow> usize \<Rightarrow> u64 \<Rightarrow> u64 \<Rightarrow> usize \<Rightarrow> machine
                \<Rightarrow> (string + u64 \<times> machine) result" where
  "fl_scan 0 frames align_mask base_entry current_entry contiguous_frames s =
     ok (Inl ''Couldnt find contiguous frames'')"
| "fl_scan (Suc n) frames align_mask base_entry current_entry contiguous_frames s =
     (if contiguous_frames = frames
      then rbind (fl_take_run s frames base_entry current_entry) (\<lambda>r. ok (Inr r))
      else
        rbind (rd s (next_of current_entry)) (\<lambda>next_entry.
        if current_entry + 0x1000 = next_entry \<and> base_entry AND align_mask = 0
        then fl_scan n frames align_mask base_entry next_entry (contiguous_frames + 1) s
        else fl_scan n frames align_mask next_entry next_entry 1 s))"

definition claim_continuous :: "machine \<Rightarrow> usize \<Rightarrow> (string + u64 \<times> machine) result" where
  "claim_continuous s frames =
     (if frames = 1 then rbind (fl_claim s) (\<lambda>r. ok (Inr r))
      else fl_scan (unat (fl_len s)) frames 0 (fl_head s) (fl_head s) 1 s)"

definition claim_aligned :: "machine \<Rightarrow> usize \<Rightarrow> usize \<Rightarrow> (string + u64 \<times> machine) result" where
  "claim_aligned s frames align =
     (if frames = 1 then rbind (fl_claim s) (\<lambda>r. ok (Inr r))
      else fl_scan (unat (fl_len s)) frames (align - 1) (fl_head s) (fl_head s) 1 s)"

text \<open>
  \<open>pmm::init\<close>: one frame after the other of every usable entry of the memory map. An entry of
  limine's map is its kind, its (physical) base and its size.
\<close>

datatype memory_kind = Usable | OtherKind

record memory_entry =
  e_kind :: memory_kind
  e_base :: usize
  e_size :: usize

definition page_offsets :: "usize \<Rightarrow> usize list" where
  "page_offsets sz = map (\<lambda>k. 0x1000 * of_nat k) [0 ..< (unat sz + 0xfff) div 0x1000]"

fun pmm_add_frames :: "u64 list \<Rightarrow> bool \<times> machine \<Rightarrow> (bool \<times> machine) result" where
  "pmm_add_frames [] (uninit, s) = ok (uninit, s)"
| "pmm_add_frames (new # rest) (uninit, s) =
     (if uninit then rbind (fl_init s new) (\<lambda>s. pmm_add_frames rest (False, s))
      else rbind (fl_push s new) (\<lambda>s. pmm_add_frames rest (uninit, s)))"

definition entry_frames :: "machine \<Rightarrow> memory_entry \<Rightarrow> u64 list" where
  "entry_frames s e =
     (if e_kind e = Usable then map (\<lambda>offset. e_base e + hhdm s + offset) (page_offsets (e_size e))
      else [])"

definition pmm_init :: "machine \<Rightarrow> memory_entry list \<Rightarrow> machine result" where
  "pmm_init s entries =
     rbind (rfold (\<lambda>e (uninit, t). pmm_add_frames (entry_frames t e) (uninit, t))
              entries (True, s))
       (\<lambda>(uninit, t). ok t)"

section \<open>The list a machine holds\<close>

text \<open>Links of a segment \<open>xs\<close> between a predecessor \<open>p\<close> and a successor \<open>q\<close> (0 is null).\<close>

definition first_or :: "u64 list \<Rightarrow> u64 \<Rightarrow> u64" where
  "first_or xs q = (case xs of [] \<Rightarrow> q | x # _ \<Rightarrow> x)"

definition last_or :: "u64 list \<Rightarrow> u64 \<Rightarrow> u64" where
  "last_or xs p = (if xs = [] then p else last xs)"

fun dseg :: "(u64 \<rightharpoonup> u64) \<Rightarrow> u64 \<Rightarrow> u64 list \<Rightarrow> u64 \<Rightarrow> bool" where
  "dseg m p [] q \<longleftrightarrow> True"
| "dseg m p (x # xs) q \<longleftrightarrow>
     m (prev_of x) = Some p \<and> m (next_of x) = Some (first_or xs q) \<and> dseg m x xs q"

text \<open>A frame of RAM: above the direct map's base, aligned, mapped, with a physical address a
  page-table entry can hold.\<close>

definition frame_ok :: "machine \<Rightarrow> u64 \<Rightarrow> bool" where
  "frame_ok s x \<longleftrightarrow> hhdm s \<le> x \<and> page_aligned x \<and> page_mapped (mem s) x \<and> x - hhdm s < 2 ^ 56"

definition fl_inv :: "machine \<Rightarrow> u64 list \<Rightarrow> bool" where
  "fl_inv s xs \<longleftrightarrow>
     0 < hhdm s \<and> xs \<noteq> [] \<and> distinct xs \<and> (\<forall>x \<in> set xs. frame_ok s x)
     \<and> dseg (mem s) 0 xs 0
     \<and> fl_head s = hd xs \<and> fl_tail s = last xs
     \<and> unat (fl_len s) = length xs"

text \<open>What an operation leaves alone: every cell outside the frames \<open>F\<close>, what is mapped, and
  every field that is not the free list's.\<close>

definition mem_only :: "u64 set \<Rightarrow> (u64 \<rightharpoonup> u64) \<Rightarrow> (u64 \<rightharpoonup> u64) \<Rightarrow> bool" where
  "mem_only F m m' \<longleftrightarrow> (\<forall>a. a \<notin> \<Union> (page_cells ` F) \<longrightarrow> m' a = m a) \<and> dom m' = dom m"

definition changes_only :: "u64 set \<Rightarrow> machine \<Rightarrow> machine \<Rightarrow> bool" where
  "changes_only F s t \<longleftrightarrow>
     mem_only F (mem s) (mem t)
     \<and> hhdm t = hhdm s \<and> levels t = levels s \<and> satp t = satp s \<and> fences t = fences s"

section \<open>Segments\<close>

lemma first_or_simps [simp]: "first_or [] q = q" "first_or (x # xs) q = x"
  by (simp_all add: first_or_def)

lemma last_or_simps [simp]:
  "last_or [] p = p" "last_or (xs @ [x]) p = x" "last_or (x # xs) p = last_or xs x"
  "xs \<noteq> [] \<Longrightarrow> last_or xs p = last xs"
  by (simp_all add: last_or_def)

lemma first_or_append [simp]: "first_or (xs @ ys) q = first_or xs (first_or ys q)"
  by (cases xs) simp_all

lemma dseg_append [simp]:
  "dseg m p (xs @ ys) q \<longleftrightarrow> dseg m p xs (first_or ys q) \<and> dseg m (last_or xs p) ys q"
  by (induction xs arbitrary: p) (auto simp: last_or_def)

lemma dseg_cong:
  "(\<And>x. x \<in> set xs \<Longrightarrow> m (prev_of x) = m' (prev_of x) \<and> m (next_of x) = m' (next_of x))
    \<Longrightarrow> dseg m p xs q = dseg m' p xs q"
  by (induction xs arbitrary: p) auto

lemma mem_only_refl [simp, intro]: "mem_only F m m"
  by (simp add: mem_only_def)

lemma mem_only_upd:
  "mem_only F m m' \<Longrightarrow> x \<in> F \<Longrightarrow> i < 512 \<Longrightarrow> page_mapped m x \<Longrightarrow> mem_only F m (m'(slot x i \<mapsto> v))"
  using page_mappedD [of m x i] by (auto simp: mem_only_def insert_absorb domIff)

lemma changes_only_refl [simp, intro]: "changes_only F s s"
  by (simp add: changes_only_def)

lemma changes_only_trans: "changes_only F s t \<Longrightarrow> changes_only F t u \<Longrightarrow> changes_only F s u"
  by (simp add: changes_only_def mem_only_def)

lemma changes_only_mono: "changes_only F s t \<Longrightarrow> F \<subseteq> G \<Longrightarrow> changes_only G s t"
  by (fastforce simp: changes_only_def mem_only_def)

lemma changes_only_frame_ok: "changes_only F s t \<Longrightarrow> frame_ok t x \<longleftrightarrow> frame_ok s x"
  unfolding changes_only_def mem_only_def frame_ok_def page_mapped_def by (metis domIff)

lemma frame_ok_aligned [simp, dest]: "frame_ok s x \<Longrightarrow> page_aligned x"
  by (simp add: frame_ok_def)

lemma frame_ok_mapped: "frame_ok s x \<Longrightarrow> i < 512 \<Longrightarrow> \<exists>v. mem s (slot x i) = Some v"
  by (simp add: frame_ok_def page_mappedD)

lemma frame_ok_ge: "frame_ok s x \<Longrightarrow> 0 < hhdm s \<Longrightarrow> hhdm s \<le> x \<and> x \<noteq> 0"
  by (auto simp: frame_ok_def)

section \<open>Single-frame operations\<close>

lemma fl_inv_frame_ok: "fl_inv s xs \<Longrightarrow> x \<in> set xs \<Longrightarrow> frame_ok s x"
  by (simp add: fl_inv_def)

lemma fl_inv_length: "fl_inv s xs \<Longrightarrow> 0 < length xs \<and> length xs < 2 ^ 64"
  using unsigned_less [of "fl_len s", where ?'a = nat] by (auto simp: fl_inv_def)

text \<open>The two words of a frame are no word of another frame.\<close>

lemma entry_words_differ:
  "frame_ok s x \<Longrightarrow> frame_ok s y \<Longrightarrow> i < 512 \<Longrightarrow> j < 512 \<Longrightarrow> slot x i = slot y j \<longleftrightarrow> x = y \<and> i = j"
  by (simp add: slot_inj)

lemma frame_ok_page_mapped [dest]: "frame_ok s x \<Longrightarrow> page_mapped (mem s) x"
  by (simp add: frame_ok_def)

lemma fl_init_inv:
  assumes "frame_ok s new" "0 < hhdm s"
  shows "\<exists>t. fl_init s new = ok t \<and> fl_inv t [new] \<and> changes_only {new} s t"
proof -
  obtain v w where m: "mem s (prev_of new) = Some v" "mem s (next_of new) = Some w"
    using frame_ok_mapped [OF assms(1), of 0] frame_ok_mapped [OF assms(1), of 1] by auto
  have ne: "prev_of new \<noteq> next_of new"
    using entry_words_differ [OF assms(1,1)] by simp
  let ?t = "s\<lparr>mem := (mem s)(prev_of new \<mapsto> 0, next_of new \<mapsto> 0),
             fl_head := new, fl_tail := new, fl_len := 1\<rparr>"
  have run: "fl_init s new = ok ?t"
    using m ne by (simp add: fl_init_def)
  have ch: "changes_only {new} s ?t"
    using assms by (auto simp: changes_only_def intro!: mem_only_upd)
  then have "frame_ok ?t new" using assms(1) by (simp only: changes_only_frame_ok)
  then have "fl_inv ?t [new]"
    using assms ne by (simp add: fl_inv_def)
  with run ch show ?thesis by blast
qed

lemma fl_push_inv:
  assumes inv: "fl_inv s xs" and new: "frame_ok s new" "new \<notin> set xs" and len: "length xs + 1 < 2 ^ 64"
  shows "\<exists>t. fl_push s new = ok t \<and> fl_inv t (xs @ [new]) \<and> changes_only (set (new # xs)) s t"
proof -
  obtain ys l where xs: "xs = ys @ [l]" using inv by (cases xs rule: rev_cases) (auto simp: fl_inv_def)
  note ok = fl_inv_frame_ok [OF inv]
  have l: "frame_ok s l" "l \<noteq> new" "l \<notin> set ys" using ok new inv by (auto simp: xs fl_inv_def)
  let ?m = "(mem s)(next_of new \<mapsto> 0, prev_of new \<mapsto> l, next_of l \<mapsto> new)"
  let ?t = "s\<lparr>mem := ?m, fl_tail := new, fl_len := fl_len s + 1\<rparr>"
  have tail: "fl_tail s = l" and h: "\<not> new < hhdm s" and al: "page_aligned new"
    using inv new by (auto simp: fl_inv_def xs frame_ok_def)
  note differ = entry_words_differ [OF new(1) l(1)] entry_words_differ [OF l(1) new(1)]
    entry_words_differ [OF new(1) new(1)] entry_words_differ [OF l(1) l(1)]
  have run: "fl_push s new = ok ?t"
    using frame_ok_mapped [OF new(1), of 0] frame_ok_mapped [OF new(1), of 1]
      frame_ok_mapped [OF l(1), of 1] h al differ l
    by (auto simp: fl_push_def tail)
  have ch: "changes_only (set (new # xs)) s ?t"
    using l(1) new(1) by (auto simp: changes_only_def xs intro!: mem_only_upd)
  have "dseg ?m 0 (ys @ [l, new]) 0"
  proof -
    have "?m (prev_of y) = mem s (prev_of y) \<and> ?m (next_of y) = mem s (next_of y)" if "y \<in> set ys" for y
    proof -
      have y: "frame_ok s y" "y \<noteq> l" "y \<noteq> new" using ok that l new by (auto simp: xs)
      then show ?thesis using entry_words_differ [OF y(1) l(1)] entry_words_differ [OF y(1) new(1)] by simp
    qed
    then have "dseg ?m 0 ys l = dseg (mem s) 0 ys l" by (intro dseg_cong) blast
    moreover have "dseg (mem s) 0 ys l" "mem s (prev_of l) = Some (last_or ys 0)"
      using inv by (auto simp: fl_inv_def xs)
    ultimately show ?thesis using differ l by simp
  qed
  moreover have "unat (fl_len s + 1) = length xs + 1"
    using inv len by (simp add: fl_inv_def unat_word_ariths)
  moreover have "\<forall>x \<in> set (xs @ [new]). frame_ok ?t x"
    using ok new by (auto simp only: changes_only_frame_ok [OF ch] set_append list.set)
  moreover have "hd (ys @ [l, new]) = hd (ys @ [l])" by (cases ys) simp_all
  ultimately have "fl_inv ?t (xs @ [new])"
    using inv new xs l(2) by (simp add: fl_inv_def)
  with run ch show ?thesis by blast
qed

lemma fl_pull_inv:
  assumes inv: "fl_inv s xs" and new: "frame_ok s new" "new \<notin> set xs" and len: "length xs + 1 < 2 ^ 64"
  shows "\<exists>t. fl_pull s new = ok t \<and> fl_inv t (new # xs) \<and> changes_only (set (new # xs)) s t"
proof -
  obtain h ys where xs: "xs = h # ys" using inv by (cases xs) (auto simp: fl_inv_def)
  note ok = fl_inv_frame_ok [OF inv]
  have h: "frame_ok s h" "h \<noteq> new" "h \<notin> set ys" using ok new inv by (auto simp: xs fl_inv_def)
  let ?m = "(mem s)(prev_of new \<mapsto> 0, next_of new \<mapsto> h, prev_of h \<mapsto> new)"
  let ?t = "s\<lparr>mem := ?m, fl_head := new, fl_len := fl_len s + 1\<rparr>"
  have hd: "fl_head s = h" and ge: "\<not> new < hhdm s" and al: "page_aligned new"
    using inv new by (auto simp: fl_inv_def xs frame_ok_def)
  note differ = entry_words_differ [OF new(1) h(1)] entry_words_differ [OF h(1) new(1)]
    entry_words_differ [OF new(1) new(1)] entry_words_differ [OF h(1) h(1)]
  have run: "fl_pull s new = ok ?t"
    using frame_ok_mapped [OF new(1), of 0] frame_ok_mapped [OF new(1), of 1]
      frame_ok_mapped [OF h(1), of 0] ge al differ h
    by (auto simp: fl_pull_def hd)
  have ch: "changes_only (set (new # xs)) s ?t"
    using h(1) new(1) by (auto simp: changes_only_def xs intro!: mem_only_upd)
  have "dseg ?m 0 (new # h # ys) 0"
  proof -
    have "?m (prev_of y) = mem s (prev_of y) \<and> ?m (next_of y) = mem s (next_of y)" if "y \<in> set ys" for y
    proof -
      have y: "frame_ok s y" "y \<noteq> h" "y \<noteq> new" using ok that h new by (auto simp: xs)
      then show ?thesis using entry_words_differ [OF y(1) h(1)] entry_words_differ [OF y(1) new(1)] by simp
    qed
    then have "dseg ?m h ys 0 = dseg (mem s) h ys 0" by (intro dseg_cong) blast
    moreover have "dseg (mem s) h ys 0" "mem s (next_of h) = Some (first_or ys 0)"
      using inv by (auto simp: fl_inv_def xs)
    ultimately show ?thesis using differ h by simp
  qed
  moreover have "unat (fl_len s + 1) = length xs + 1"
    using inv len by (simp add: fl_inv_def unat_word_ariths)
  moreover have "\<forall>x \<in> set (new # xs). frame_ok ?t x"
    using ok new by (auto simp only: changes_only_frame_ok [OF ch] list.set)
  ultimately have "fl_inv ?t (new # xs)"
    using inv new xs by (simp add: fl_inv_def)
  with run ch show ?thesis by blast
qed


text \<open>\<open>claim\<close> with at least two free frames hands out the first one.\<close>

lemma fl_claim_inv:
  assumes inv: "fl_inv s (x # y # ys)"
  shows "\<exists>t. fl_claim s = ok (x, t) \<and> fl_inv t (y # ys) \<and> changes_only {y} s t"
proof -
  note ok = fl_inv_frame_ok [OF inv]
  have xy: "frame_ok s x" "frame_ok s y" "x \<noteq> y" "y \<notin> set ys" "x \<notin> set ys"
    using ok inv by (auto simp: fl_inv_def)
  let ?t = "s\<lparr>mem := (mem s)(prev_of y \<mapsto> 0), fl_head := y, fl_len := fl_len s - 1\<rparr>"
  have hd: "fl_head s = x" "mem s (next_of x) = Some y" and ge: "\<not> y < hhdm s"
    using inv xy by (auto simp: fl_inv_def frame_ok_def)
  have run: "fl_claim s = ok (x, ?t)"
    using hd ge frame_ok_mapped [OF xy(2), of 0] by (auto simp: fl_claim_def)
  have ch: "changes_only {y} s ?t"
    using xy(2) by (auto simp: changes_only_def intro!: mem_only_upd)
  have "dseg ((mem s)(prev_of y \<mapsto> 0)) 0 (y # ys) 0"
  proof -
    have "slot z i \<noteq> prev_of y" if "z \<in> set ys" "i < 512" for z i
    proof -
      have "frame_ok s z" "z \<noteq> y" using ok that xy by auto
      then show ?thesis using entry_words_differ [of s z y i 0] xy that by auto
    qed
    then have "dseg ((mem s)(prev_of y \<mapsto> 0)) y ys 0 = dseg (mem s) y ys 0"
      by (intro dseg_cong) auto
    then show ?thesis using inv entry_words_differ [OF xy(2,2)] by (simp add: fl_inv_def)
  qed
  moreover have "unat (fl_len s - 1) = length (y # ys)"
    using inv by (subst unat_minus_one) (auto simp: fl_inv_def)
  moreover have "\<forall>x \<in> set (y # ys). frame_ok ?t x"
    using ok by (auto simp only: changes_only_frame_ok [OF ch] list.set)
  ultimately have "fl_inv ?t (y # ys)"
    using inv by (simp add: fl_inv_def)
  with run ch show ?thesis by blast
qed

text \<open>
  With one free frame left, the FIXME branch of \<open>claim\<close> makes the next page the head of the list
  although nothing ever pushed it; when that page is not mapped the call faults.
\<close>

lemma fl_claim_last:
  assumes inv: "fl_inv s [x]" and next_page: "mem s (prev_of (x + 0x1000)) \<noteq> None"
  shows "\<exists>t. fl_claim s = ok (x, t) \<and> fl_head t = x + 0x1000 \<and> fl_tail t = x \<and> fl_len t = 0"
proof -
  have x: "frame_ok s x" "0 < hhdm s" "fl_head s = x" "mem s (next_of x) = Some 0" "fl_tail s = x"
    and len: "unat (fl_len s) = 1"
    using inv by (auto simp: fl_inv_def)
  have "fl_len s = 1" using len by (metis unat_1 unsigned_word_eqI)
  then show ?thesis using x next_page by (auto simp: fl_claim_def wr_def)
qed

end
