(* ===== verification/Bit_Fields.thy ===== *)
theory Bit_Fields
  imports Kernel_Prelude
begin

text \<open>
  The accessors that a \<open>bitfield!\<close> declaration of the source stands for. A line such as
  \<open>get_ppn, set_ppn: 53, 10;\<close> declares a getter and a setter of the bits 53 down to 10: the
  getter reads them as a number, the setter stores the low bits of its argument there and keeps
  the other bits. \<open>bf_get msb lsb\<close> and \<open>bf_set msb lsb\<close> are these two, and \<open>bf_flag\<close> and
  \<open>bf_set_flag\<close> those of a one-bit field, which is a bool.

  The two locales give the laws of a field and of two disjoint fields of a word once; they are
  interpreted for the fields of the kernel's registers and page-table entries where these are
  declared.
\<close>

definition bf_get :: "nat \<Rightarrow> nat \<Rightarrow> 'a::len word \<Rightarrow> 'a word" where
  "bf_get msb lsb w = take_bit (msb - lsb + 1) (drop_bit lsb w)"

definition bf_set :: "nat \<Rightarrow> nat \<Rightarrow> 'a::len word \<Rightarrow> 'a word \<Rightarrow> 'a word" where
  "bf_set msb lsb v w =
     (w AND NOT (push_bit lsb (mask (msb - lsb + 1)))) OR push_bit lsb (take_bit (msb - lsb + 1) v)"

definition bf_flag :: "nat \<Rightarrow> 'a::len word \<Rightarrow> bool" where
  "bf_flag i w \<longleftrightarrow> bf_get i i w = 1"

definition bf_set_flag :: "nat \<Rightarrow> bool \<Rightarrow> 'a::len word \<Rightarrow> 'a word" where
  "bf_set_flag i b w = bf_set i i (of_bool b) w"

lemma bit_bf_get:
  "bit (bf_get msb lsb w) n \<longleftrightarrow> n < msb - lsb + 1 \<and> bit w (lsb + n)"
  by (simp add: bf_get_def bit_take_bit_iff bit_drop_bit_eq)

lemma bit_bf_set:
  fixes w v :: "'a::len word"
  shows "bit (bf_set msb lsb v w) n \<longleftrightarrow>
    n < LENGTH('a) \<and> (if lsb \<le> n \<and> n \<le> lsb + (msb - lsb) then bit v (n - lsb) else bit w n)"
  by (auto simp: bf_set_def bit_simps dest: bit_imp_le_length)

lemma bf_flag_bit: "bf_flag i w \<longleftrightarrow> bit w i"
proof -
  have "bf_get i i w = of_bool (bit w i)"
    by (rule bit_word_eqI) (auto simp: bit_bf_get bit_1_iff)
  then show ?thesis by (simp add: bf_flag_def)
qed

lemma bit_bf_set_flag:
  fixes w :: "'a::len word"
  shows "bit (bf_set_flag i b w) n \<longleftrightarrow> n < LENGTH('a) \<and> (if n = i then b else bit w n)"
  by (auto simp: bf_set_flag_def bit_bf_set bit_1_iff)

section \<open>One field\<close>

locale bit_field =
  fixes msb lsb :: nat
  assumes ordered: "lsb \<le> msb" and fits: "msb < 64"
begin

lemma get_set: "bf_get msb lsb (bf_set msb lsb v w) = take_bit (msb - lsb + 1) (v :: u64)"
  using ordered fits by (intro bit_word_eqI) (auto simp: bit_bf_get bit_bf_set bit_take_bit_iff)

lemma get_set_fits: "v < 2 ^ (msb - lsb + 1) \<Longrightarrow> bf_get msb lsb (bf_set msb lsb v w) = (v :: u64)"
  using get_set [of v w] by (simp add: take_bit_eq_mask less_mask_eq)

lemma set_get: "bf_set msb lsb (bf_get msb lsb w) w = (w :: u64)"
  using ordered fits by (intro bit_word_eqI) (auto simp: bit_bf_get bit_bf_set)

lemma set_set: "bf_set msb lsb v (bf_set msb lsb u w) = bf_set msb lsb v (w :: u64)"
  by (intro bit_word_eqI) (auto simp: bit_bf_set)

lemma get_less: "unat (bf_get msb lsb (w :: u64)) < 2 ^ (msb - lsb + 1)"
  unfolding bf_get_def unsigned_take_bit_eq by (rule take_bit_nat_less_exp)

end

section \<open>Two disjoint fields\<close>

locale bit_fields = low: bit_field msb1 lsb1 + high: bit_field msb2 lsb2
  for msb1 lsb1 msb2 lsb2 :: nat +
  assumes disjoint: "msb1 < lsb2"
begin

lemma get_low_set_high: "bf_get msb1 lsb1 (bf_set msb2 lsb2 v w) = bf_get msb1 lsb1 (w :: u64)"
  using disjoint low.ordered high.ordered high.fits
  by (intro bit_word_eqI) (auto simp: bit_bf_get bit_bf_set)

lemma get_high_set_low: "bf_get msb2 lsb2 (bf_set msb1 lsb1 v w) = bf_get msb2 lsb2 (w :: u64)"
  using disjoint low.ordered high.ordered high.fits
  by (intro bit_word_eqI) (auto simp: bit_bf_get bit_bf_set)

lemma sets_commute:
  "bf_set msb1 lsb1 u (bf_set msb2 lsb2 v w) = bf_set msb2 lsb2 v (bf_set msb1 lsb1 u (w :: u64))"
  using disjoint low.ordered high.ordered by (intro bit_word_eqI) (auto simp: bit_bf_set)

end

end
