(* ===== verification/Addresses.thy ===== *)
theory Addresses
  imports Bit_Fields Machine
begin

text \<open>
  Physical and virtual addresses, LSD/src/memory/mod.rs, and the page-table levels of
  LSD/src/memory/vmm.rs that select the fields of a virtual address.
\<close>

section \<open>Page levels\<close>

datatype page_level = Level5 | Level4 | Level3 | Level2 | Level1 | PageOffset

definition level_from_usize :: "usize \<Rightarrow> page_level" where
  "level_from_usize val =
     (if val = 1 then Level1 else if val = 2 then Level2 else if val = 3 then Level3
      else if val = 4 then Level4 else if val = 5 then Level5 else PageOffset)"

fun level_as_usize :: "page_level \<Rightarrow> usize" where
  "level_as_usize Level1 = 1"
| "level_as_usize Level2 = 2"
| "level_as_usize Level3 = 3"
| "level_as_usize Level4 = 4"
| "level_as_usize Level5 = 5"
| "level_as_usize PageOffset = 0"

text \<open>\<open>impl ops::Sub<usize> for PageLevel\<close>; the subtraction wraps below zero.\<close>

definition level_sub :: "page_level \<Rightarrow> usize \<Rightarrow> page_level" where
  "level_sub l rhs = level_from_usize (level_as_usize l - rhs)"

text \<open>\<open>impl ops::Add<usize> for PageLevel\<close>, which reads \<open>LEVELS\<close>.\<close>

definition level_add :: "u8 \<Rightarrow> page_level \<Rightarrow> usize \<Rightarrow> page_level" where
  "level_add load l rhs =
     (if level_as_usize l + 1 < ucast load then level_from_usize (level_as_usize l + rhs)
      else PageOffset)"

text \<open>\<open>#[derive(PartialOrd, Ord)]\<close>: the order of the constructors in the source.\<close>

fun level_rank :: "page_level \<Rightarrow> nat" where
  "level_rank Level5 = 0"
| "level_rank Level4 = 1"
| "level_rank Level3 = 2"
| "level_rank Level2 = 3"
| "level_rank Level1 = 4"
| "level_rank PageOffset = 5"

instantiation page_level :: linorder
begin

definition less_eq_page_level :: "page_level \<Rightarrow> page_level \<Rightarrow> bool" where
  "l \<le> m \<longleftrightarrow> level_rank l \<le> level_rank m"

definition less_page_level :: "page_level \<Rightarrow> page_level \<Rightarrow> bool" where
  "l < m \<longleftrightarrow> level_rank l < level_rank m"

instance
proof
  fix x y z :: page_level
  show "x < y \<longleftrightarrow> x \<le> y \<and> \<not> y \<le> x" by (auto simp: less_eq_page_level_def less_page_level_def)
  show "x \<le> x" by (simp add: less_eq_page_level_def)
  show "x \<le> y \<Longrightarrow> y \<le> z \<Longrightarrow> x \<le> z" by (simp add: less_eq_page_level_def)
  show "x \<le> y \<Longrightarrow> y \<le> x \<Longrightarrow> x = y" by (cases x; cases y) (simp_all add: less_eq_page_level_def)
  show "x \<le> y \<or> y \<le> x" by (auto simp: less_eq_page_level_def)
qed

end

text \<open>\<open>PageSize\<close> (its u64 discriminants) and \<open>PageType\<close>.\<close>

datatype page_size = SizeNone | Small | Medium | Large | Huge | Colossal

fun page_size_bytes :: "page_size \<Rightarrow> u64" where
  "page_size_bytes SizeNone = 0x0"
| "page_size_bytes Small = 0x1000"
| "page_size_bytes Medium = 0x200000"
| "page_size_bytes Large = 0x40000000"
| "page_size_bytes Huge = 0x8000000000"
| "page_size_bytes Colossal = 0x1000000000000"

fun page_size_from_level :: "page_level \<Rightarrow> page_size" where
  "page_size_from_level Level1 = Small"
| "page_size_from_level Level2 = Medium"
| "page_size_from_level Level3 = Large"
| "page_size_from_level Level4 = Huge"
| "page_size_from_level Level5 = Colossal"
| "page_size_from_level PageOffset = SizeNone"

fun level_as_page_size :: "page_level \<Rightarrow> page_size" where
  "level_as_page_size Level1 = Small"
| "level_as_page_size Level2 = Medium"
| "level_as_page_size Level3 = Large"
| "level_as_page_size Level4 = Huge"
| "level_as_page_size Level5 = Colossal"
| "level_as_page_size PageOffset = SizeNone"

datatype page_type = Bare | Sv39 | Sv48 | Sv57

fun page_type_mode :: "page_type \<Rightarrow> u64" where
  "page_type_mode Bare = 0"
| "page_type_mode Sv39 = 8"
| "page_type_mode Sv48 = 9"
| "page_type_mode Sv57 = 10"

fun hhdm_offset :: "page_type \<Rightarrow> usize" where
  "hhdm_offset Bare = 0x00"
| "hhdm_offset Sv39 = 0xffffffc000000000"
| "hhdm_offset Sv48 = 0xffff800000000000"
| "hhdm_offset Sv57 = 0xff00000000000000"

fun page_type_from_levels :: "page_level \<Rightarrow> page_type" where
  "page_type_from_levels Level3 = Sv39"
| "page_type_from_levels Level4 = Sv48"
| "page_type_from_levels Level5 = Sv57"
| "page_type_from_levels _ = Bare"

section \<open>Physical addresses\<close>

definition pa_get_ppn :: "u64 \<Rightarrow> u64" where
  "pa_get_ppn = bf_get 55 12"

definition pa_as_ptr :: "machine \<Rightarrow> u64 \<Rightarrow> u64" where
  "pa_as_ptr s p = p + hhdm s"

definition pa_from_ptr :: "machine \<Rightarrow> u64 \<Rightarrow> u64" where
  "pa_from_ptr s ptr = ptr - hhdm s"

definition hhdm_virt_to_phys :: "machine \<Rightarrow> u64 \<Rightarrow> u64" where
  "hhdm_virt_to_phys s virt = virt - hhdm s"

definition hhdm_phys_to_virt :: "machine \<Rightarrow> u64 \<Rightarrow> u64" where
  "hhdm_phys_to_virt s phys = phys + hhdm s"

section \<open>Virtual addresses\<close>

definition no_offset :: "u64 \<Rightarrow> u64" where
  "no_offset v = v AND NOT 0xfff"

definition can_branch :: "u64 \<Rightarrow> u64" where
  "can_branch v = v AND NOT 0x1fffff"

fun lowest_level :: "u64 \<Rightarrow> page_level \<Rightarrow> u64" where
  "lowest_level v Level1 = v AND NOT 0xfff"
| "lowest_level v Level2 = v AND NOT 0x1fffff"
| "lowest_level v Level3 = v AND NOT 0x3fffffff"
| "lowest_level v Level4 = v AND NOT 0x7fffffffff"
| "lowest_level v Level5 = v AND NOT 0xffffffffffff"
| "lowest_level v PageOffset = v"

fun va_index :: "u64 \<Rightarrow> page_level \<Rightarrow> u64" where
  "va_index v Level1 = bf_get 20 12 v"
| "va_index v Level2 = bf_get 29 21 v"
| "va_index v Level3 = bf_get 38 30 v"
| "va_index v Level4 = bf_get 47 39 v"
| "va_index v Level5 = bf_get 56 48 v"
| "va_index v PageOffset = bf_get 11 0 v"

fun va_set_index :: "page_level \<Rightarrow> u64 \<Rightarrow> u64 \<Rightarrow> u64" where
  "va_set_index Level1 val v = bf_set 20 12 val v"
| "va_set_index Level2 val v = bf_set 29 21 val v"
| "va_set_index Level3 val v = bf_set 38 30 val v"
| "va_set_index Level4 val v = bf_set 47 39 val v"
| "va_set_index Level5 val v = bf_set 56 48 val v"
| "va_set_index PageOffset val v = bf_set 11 0 val v"

section \<open>Sizes in pages\<close>

text \<open>\<open>align_up\<close> and the macro \<open>pages_for!\<close>; both sums wrap.\<close>

definition align_up :: "usize \<Rightarrow> usize \<Rightarrow> usize" where
  "align_up addr align = (addr + align - 1) AND NOT (align - 1)"

definition pages_for :: "usize \<Rightarrow> usize \<Rightarrow> usize result" where
  "pages_for n psize = checked_div (n + (psize - 1)) psize"

section \<open>Laws\<close>

text \<open>Low bit and width of the field of a level.\<close>

fun level_lsb :: "page_level \<Rightarrow> nat" where
  "level_lsb Level1 = 12"
| "level_lsb Level2 = 21"
| "level_lsb Level3 = 30"
| "level_lsb Level4 = 39"
| "level_lsb Level5 = 48"
| "level_lsb PageOffset = 0"

fun level_bits :: "page_level \<Rightarrow> nat" where
  "level_bits PageOffset = 12"
| "level_bits _ = 9"

lemma va_index_bf: "va_index v l = bf_get (level_lsb l + level_bits l - 1) (level_lsb l) v"
  by (cases l) simp_all

lemma va_set_index_bf:
  "va_set_index l val v = bf_set (level_lsb l + level_bits l - 1) (level_lsb l) val v"
  by (cases l) simp_all

interpretation va_field: bit_field "level_lsb l + level_bits l - 1" "level_lsb l" for l
  by unfold_locales (cases l; simp)+

lemma bit_va_index: "bit (va_index v l) n \<longleftrightarrow> n < level_bits l \<and> bit v (level_lsb l + n)"
  by (cases l) (auto simp: bit_bf_get)

lemma va_index_less: "unat (va_index v l) < 2 ^ level_bits l"
  using va_field.get_less [where l = l and w = v] by (cases l) simp_all

lemma va_index_512: "l \<noteq> PageOffset \<Longrightarrow> unat (va_index v l) < 512"
  using va_index_less [of v l] by (cases l) simp_all

lemma lowest_level_mask: "lowest_level v l = v AND NOT (mask (level_lsb l))"
  by (cases l) (simp_all add: mask_eq_exp_minus_1)

lemma bit_lowest_level: "bit (lowest_level v l) n \<longleftrightarrow> level_lsb l \<le> n \<and> bit v n"
  by (auto simp: lowest_level_mask bit_simps dest: bit_imp_le_length)

lemma level_roundtrip: "level_from_usize (level_as_usize l) = l"
  by (cases l) (simp_all add: level_from_usize_def)

end
