(* ===== verification/Vmm.thy ===== *)
theory Vmm
  imports Pmm Addresses
begin

text \<open>
  The virtual memory manager, LSD/src/memory/vmm.rs: page-table entries, the walks \<open>map\<close>,
  \<open>unmap\<close> and \<open>virt_to_phys\<close>, the copy of a table, the register satp, and the allocator \<open>Vmm\<close>
  over a \<open>vmem\<close> arena. Every walk is the loop of the source, from the level it is given down;
  a walk need not end (below \<open>Level1\<close> the level stays \<open>PageOffset\<close>), so the walks are partial
  functions. A page table is the 512 u64 slots of its page.
\<close>

section \<open>Page-table entries\<close>

definition pte_valid :: "u64 \<Rightarrow> bool" where "pte_valid = bf_flag 0"
definition pte_read :: "u64 \<Rightarrow> bool" where "pte_read = bf_flag 1"
definition pte_write :: "u64 \<Rightarrow> bool" where "pte_write = bf_flag 2"
definition pte_exec :: "u64 \<Rightarrow> bool" where "pte_exec = bf_flag 3"
definition pte_user :: "u64 \<Rightarrow> bool" where "pte_user = bf_flag 4"
definition pte_accessed :: "u64 \<Rightarrow> bool" where "pte_accessed = bf_flag 6"
definition pte_dirty :: "u64 \<Rightarrow> bool" where "pte_dirty = bf_flag 7"
definition pte_get_ppn :: "u64 \<Rightarrow> u64" where "pte_get_ppn = bf_get 53 10"
definition pte_set_ppn :: "u64 \<Rightarrow> u64 \<Rightarrow> u64" where "pte_set_ppn = bf_set 53 10"
definition pte_set_valid :: "bool \<Rightarrow> u64 \<Rightarrow> u64" where "pte_set_valid = bf_set_flag 0"

text \<open>\<open>PageFlags\<close>.\<close>

definition flag_READ :: u64 where "flag_READ = 0b000010"
definition flag_WRITE :: u64 where "flag_WRITE = 0b000100"
definition flag_EXECUTE :: u64 where "flag_EXECUTE = 0b001000"
definition flag_USER :: u64 where "flag_USER = 0b010000"
definition flag_GLOBAL :: u64 where "flag_GLOBAL = 0b100000"
definition flag_NC :: u64 where "flag_NC = push_bit 61 0b01"
definition flag_IO :: u64 where "flag_IO = push_bit 61 0b10"

definition is_branch :: "u64 \<Rightarrow> bool" where
  "is_branch e \<longleftrightarrow> pte_valid e \<and>
     (\<not> pte_read e \<and> \<not> pte_write e \<and> \<not> pte_exec e \<and> \<not> pte_user e
      \<and> \<not> pte_accessed e \<and> \<not> pte_dirty e)"

definition is_leaf :: "u64 \<Rightarrow> bool" where
  "is_leaf e \<longleftrightarrow> pte_valid e \<and> (pte_read e \<or> pte_write e \<or> pte_exec e)"

definition entry_table :: "machine \<Rightarrow> u64 \<Rightarrow> u64" where
  "entry_table s e = push_bit 12 (pte_get_ppn e) + hhdm s"

section \<open>satp and fences\<close>

definition satp_get_ppn :: "u64 \<Rightarrow> u64" where "satp_get_ppn = bf_get 43 0"
definition satp_set_ppn :: "u64 \<Rightarrow> u64 \<Rightarrow> u64" where "satp_set_ppn = bf_set 43 0"
definition satp_set_asid :: "u64 \<Rightarrow> u64 \<Rightarrow> u64" where "satp_set_asid = bf_set 59 44"
definition satp_set_mode :: "u64 \<Rightarrow> u64 \<Rightarrow> u64" where "satp_set_mode = bf_set 63 60"

definition flush_tlb :: "u64 option \<Rightarrow> u16 option \<Rightarrow> machine \<Rightarrow> machine" where
  "flush_tlb vaddr asid s = s\<lparr>fences := (vaddr, asid) # fences s\<rparr>"

definition satp_csrw :: "u64 \<Rightarrow> machine \<Rightarrow> machine" where
  "satp_csrw new_satp s = flush_tlb None None (s\<lparr>satp := new_satp\<rparr>)"

definition current_table :: "machine \<Rightarrow> u64" where
  "current_table s = push_bit 12 (satp_get_ppn (satp s)) + hhdm s"

definition load_level :: "machine \<Rightarrow> page_level" where
  "load_level s = level_from_usize (ucast (levels s))"

section \<open>map, unmap and virt_to_phys\<close>

definition leaf_entry :: "u64 \<Rightarrow> u64 \<Rightarrow> u64" where
  "leaf_entry phys flags = pte_set_valid True (pte_set_ppn (pa_get_ppn phys) 0 OR flags)"

definition branch_entry :: "machine \<Rightarrow> u64 \<Rightarrow> u64 \<Rightarrow> u64" where
  "branch_entry s new_table e =
     pte_set_valid True (pte_set_ppn (drop_bit 12 (new_table - hhdm s)) e)"

partial_function (option) vmm_map ::
  "machine \<Rightarrow> u64 \<Rightarrow> u64 \<Rightarrow> u64 \<Rightarrow> page_level \<Rightarrow> page_level \<Rightarrow> u64 \<Rightarrow> machine result" where
  "vmm_map s table virt phys level target_level flags =
     (let table_index = unat (va_index virt level) in
      if level = target_level then
        rbind (read_table s table) (\<lambda>table_copy.
        rbind (index_at table_copy table_index) (\<lambda>_.
        write_table s table (table_copy[table_index := leaf_entry phys flags])))
      else
        rbind (read_table s table) (\<lambda>table_copy.
        rbind (index_at table_copy table_index) (\<lambda>entry.
        if is_branch entry then
          vmm_map s (entry_table s entry) virt phys (level_sub level 1) target_level flags
        else if is_leaf entry then fail (Panic ''Didnt expect leaf'')
        else if \<not> pte_valid entry then
          rbind (fl_claim s) (\<lambda>(new_table, s).
          rbind (zero_table s new_table) (\<lambda>s.
          rbind (write_table s table (table_copy[table_index := branch_entry s new_table entry])) (\<lambda>s.
          vmm_map s new_table virt phys (level_sub level 1) target_level flags)))
        else vmm_map s table virt phys (level_sub level 1) target_level flags)))"

partial_function (option) vmm_unmap ::
  "machine \<Rightarrow> u64 \<Rightarrow> u64 \<Rightarrow> page_level \<Rightarrow> page_level \<Rightarrow> (u64 \<times> machine) result" where
  "vmm_unmap s table virt level target_level =
     (let table_index = unat (va_index virt level) in
      rbind (read_table s table) (\<lambda>table_copy.
      rbind (index_at table_copy table_index) (\<lambda>entry.
      if level = target_level then
        if \<not> is_leaf entry then fail (Panic ''No leaf found while unmapping'')
        else
          rbind (write_table s table (table_copy[table_index := 0])) (\<lambda>s.
          ok (push_bit 12 (pte_get_ppn entry), s))
      else if is_leaf entry then fail (Panic ''Unexpected entry'')
      else if is_branch entry then
        vmm_unmap s (entry_table s entry) virt (level_sub level 1) target_level
      else fail (Panic ''No entry found for virt''))))"

fun level_mask :: "page_level \<Rightarrow> u64" where
  "level_mask Level1 = 0xfff"
| "level_mask Level2 = 0x1fffff"
| "level_mask Level3 = 0x3fffffff"
| "level_mask Level4 = 0x7fffffffff"
| "level_mask Level5 = 0xffffffffffff"
| "level_mask PageOffset = 0"

partial_function (option) walk_virt ::
  "machine \<Rightarrow> u64 \<Rightarrow> u64 \<Rightarrow> page_level \<Rightarrow> (string + u64) result" where
  "walk_virt s table virt level =
     (let i = unat (va_index virt level) in
      if 512 \<le> i then fail (OutOfBounds i 512)
      else
        rbind (rd s (slot table i)) (\<lambda>entry.
        if is_leaf entry then
          ok (Inr ((push_bit 12 (pte_get_ppn entry) AND NOT (level_mask level))
                   OR (virt AND level_mask level)))
        else if is_branch entry then walk_virt s (entry_table s entry) virt (level_sub level 1)
        else ok (Inl ''Table not found'')))"

definition virt_to_phys :: "machine \<Rightarrow> u64 \<Rightarrow> (string + u64) result" where
  "virt_to_phys s virt = walk_virt s (current_table s) virt (load_level s)"

section \<open>Copying tables\<close>

partial_function (option) clone_table_range ::
  "machine \<Rightarrow> u64 \<Rightarrow> u64 \<Rightarrow> nat \<Rightarrow> nat \<Rightarrow> machine result" where
  "clone_table_range s src dest index range_end =
     (if index < range_end then
        rbind (rd s (slot src index)) (\<lambda>src_entry.
        rbind (if is_branch src_entry then
                 rbind (wr s (slot dest index) src_entry) (\<lambda>s.
                 rbind (fl_claim s) (\<lambda>(new_table_alloc, s).
                 rbind (rd s (slot dest index)) (\<lambda>dest_entry.
                 rbind (wr s (slot dest index)
                          (pte_set_ppn (drop_bit 12 (new_table_alloc - hhdm s)) dest_entry)) (\<lambda>s.
                 rbind (rd s (slot src index)) (\<lambda>src_entry.
                 clone_table_range s (entry_table s src_entry) new_table_alloc 0 512)))))
               else if is_leaf src_entry then wr s (slot dest index) src_entry
               else wr s (slot dest index) 0) (\<lambda>s.
        clone_table_range s src dest (index + 1) range_end))
      else ok s)"

definition new_with_upperhalf :: "machine \<Rightarrow> (u64 \<times> machine) result" where
  "new_with_upperhalf s =
     rbind (fl_claim s) (\<lambda>(new_table, s).
     rbind (clone_table_range s (current_table s) new_table 256 512) (\<lambda>s.
     ok (new_table, s)))"

section \<open>The allocator Vmm\<close>

text \<open>
  \<open>vmem::Vmem\<close> is a third-party arena. Its calls appear as the parameters \<open>vmem_alloc\<close> (what
  \<open>self.0.alloc(size, strategy)\<close> or \<open>self.0.alloc_constrained(layout, strategy)\<close> returns: an
  error or the base of the segment); the kernel sees nothing else of it.
\<close>

definition frames_for :: "usize \<Rightarrow> usize" where
  "frames_for sz = sz div 4096 + (if sz mod 4096 \<noteq> 0 then 1 else 0)"

type_synonym 'e vmm_result = "('e + (usize \<times> u64 option) \<times> machine) result"

text \<open>One iteration of the loop \<open>for offset in (0..size).step_by(4096)\<close> of \<open>Vmm::alloc\<close>: the
  frame is mapped, then the next one of a contiguous claim becomes current.\<close>

definition claim_one :: "bool \<Rightarrow> u64 \<Rightarrow> machine \<Rightarrow> (u64 \<times> machine) result" where
  "claim_one physically_contiguous claim_phys s =
     (if \<not> physically_contiguous
      then rbind (fl_claim s) (\<lambda>(claim, s). ok (claim - hhdm s, s))
      else ok (claim_phys, s))"

definition map_page :: "u64 \<Rightarrow> u64 \<Rightarrow> u64 \<Rightarrow> machine \<Rightarrow> machine result" where
  "map_page virt claim_phys flags s =
     rbind (vmm_map s (current_table s) virt claim_phys (load_level s) Level1 flags) (\<lambda>s.
     ok (flush_tlb (Some virt) None s))"

definition alloc_page :: "usize \<Rightarrow> bool \<Rightarrow> u64 \<Rightarrow> usize \<Rightarrow> u64 \<times> machine \<Rightarrow> (u64 \<times> machine) result" where
  "alloc_page section_data physically_contiguous flags offset = (\<lambda>(claim_phys, s).
     rbind (claim_one physically_contiguous claim_phys s) (\<lambda>(claim_phys, s).
     rbind (map_page (section_data + offset) claim_phys flags s) (\<lambda>s.
     ok (if physically_contiguous then claim_phys + 4096 else claim_phys, s))))"

definition claim_base ::
  "bool \<Rightarrow> usize \<Rightarrow> machine \<Rightarrow> (u64 \<times> u64 option \<times> machine) result" where
  "claim_base physically_contiguous frames s =
     (if physically_contiguous then
        rbind (claim_continuous s frames) (\<lambda>claim.
        rbind (unwrap_res claim) (\<lambda>(c, s).
        ok (c - hhdm s, Some (c - hhdm s), s)))
      else ok (0, None, s))"

definition vmm_alloc ::
  "(usize \<Rightarrow> 'e + usize) \<Rightarrow> machine \<Rightarrow> usize \<Rightarrow> bool \<Rightarrow> u64 \<Rightarrow> 'e vmm_result" where
  "vmm_alloc vmem_alloc s sz physically_contiguous flags =
     (case vmem_alloc sz of
        Inl e \<Rightarrow> ok (Inl e)
      | Inr sect \<Rightarrow>
          (let frames = frames_for sz; sz = frames * 4096 in
           rbind (claim_base physically_contiguous frames s) (\<lambda>(claim_phys, phys, s).
           rbind (rfold (alloc_page sect physically_contiguous flags) (page_offsets sz)
                    (claim_phys, s)) (\<lambda>(_, s).
           ok (Inr ((sect, phys), s))))))"

text \<open>\<open>alloc_constrained\<close> steps to the next frame of a contiguous claim \<^emph>\<open>before\<close> it maps one.\<close>

definition alloc_page_constrained ::
  "usize \<Rightarrow> bool \<Rightarrow> u64 \<Rightarrow> usize \<Rightarrow> u64 \<times> machine \<Rightarrow> (u64 \<times> machine) result" where
  "alloc_page_constrained section_data physically_contiguous flags offset = (\<lambda>(claim_phys, s).
     rbind (if \<not> physically_contiguous then claim_one physically_contiguous claim_phys s
            else ok (claim_phys + 4096, s)) (\<lambda>(claim_phys, s).
     rbind (map_page (section_data + offset) claim_phys flags s) (\<lambda>s.
     ok (claim_phys, s))))"

definition vmm_alloc_constrained ::
  "(usize \<Rightarrow> 'e + usize) \<Rightarrow> machine \<Rightarrow> usize \<Rightarrow> bool \<Rightarrow> u64 \<Rightarrow> 'e vmm_result" where
  "vmm_alloc_constrained vmem_alloc s sz physically_contiguous flags =
     (case vmem_alloc sz of
        Inl e \<Rightarrow> ok (Inl e)
      | Inr sect \<Rightarrow>
          rbind (claim_base physically_contiguous (frames_for sz) s) (\<lambda>(claim_phys, phys, s).
          rbind (rfold (alloc_page_constrained sect physically_contiguous flags) (page_offsets sz)
                   (claim_phys, s)) (\<lambda>(_, s).
          ok (Inr ((sect, phys), s)))))"

text \<open>\<open>free\<close> and \<open>free_constrained\<close>, whose bodies are the same.\<close>

definition free_page :: "usize \<Rightarrow> usize \<Rightarrow> machine \<Rightarrow> machine result" where
  "free_page base_addr offset s =
     rbind (vmm_unmap s (current_table s) (base_addr + offset) (load_level s) Level1) (\<lambda>(phys, s).
     rbind (fl_pull s (phys + hhdm s)) (\<lambda>s.
     ok (flush_tlb (Some (base_addr + offset)) None s)))"

definition vmm_free :: "machine \<Rightarrow> usize \<Rightarrow> usize \<Rightarrow> machine result" where
  "vmm_free s base_addr sz = rfold (free_page base_addr) (page_offsets sz) s"

section \<open>Bring-up\<close>

text \<open>
  \<open>vmm::init\<close> after it has read the device tree: \<open>mmu_type\<close> is the property \<open>mmu-type\<close> of the cpu
  node and \<open>svpbmt\<close> whether the ISA string has that extension.
\<close>

definition mmu_of :: "string \<Rightarrow> (u8 \<times> page_type) result" where
  "mmu_of mmu_type =
     (if mmu_type = ''riscv,sv39'' then ok (3, Sv39)
      else if mmu_type = ''riscv,sv48'' then ok (4, Sv48)
      else if mmu_type = ''riscv,sv57'' then ok (5, Sv57)
      else fail (Panic ''unreachable''))"

definition io_flags :: "bool \<Rightarrow> u64" where
  "io_flags svpbmt =
     (if svpbmt then flag_GLOBAL OR flag_READ OR flag_WRITE OR flag_IO
      else flag_GLOBAL OR flag_READ OR flag_WRITE)"

definition vmm_init :: "string \<Rightarrow> bool \<Rightarrow> machine \<Rightarrow> machine result" where
  "vmm_init mmu_type svpbmt s =
     rbind (mmu_of mmu_type) (\<lambda>(lv, pt).
     let s = s\<lparr>levels := lv\<rparr> in
     rbind (fl_claim s) (\<lambda>(root, s).
     rbind (zero_table s root) (\<lambda>s.
     rbind (clone_table_range s (current_table s) root 256 512) (\<lambda>s.
     rbind (rfold (\<lambda>i s. vmm_map s root (0xffffffff80000000 + i) (0x00 + i) (load_level s)
                            Level3 (io_flags svpbmt))
              [0, 0x40000000] s) (\<lambda>s.
     let s = s\<lparr>hhdm := hhdm_offset pt\<rparr>;
         new_satp = satp_set_mode (page_type_mode pt)
                      (satp_set_ppn (drop_bit 12 (root - hhdm s)) 0)
     in ok (satp_csrw new_satp s))))))"

end
