(* ===== verification/Page_Tables.thy ===== *)
theory Page_Tables
  imports Vmm
begin

text \<open>
  What the walks of LSD/src/memory/vmm.rs mean. \<open>pt_inv s L T xs\<close> says that the page tables in
  memory form a tree of \<open>L\<close> levels: \<open>T\<close> maps the index path of a table to its page, the tables
  are distinct pages that are not on the free list \<open>xs\<close>, and an entry is the branch to the table
  below it, a leaf, or zero. \<open>leaves s T\<close> is the address space the tree denotes, a map from index
  paths to leaf entries, and \<open>xlate\<close> translates an address in such a map. The lemmas show that
  \<open>vmm_map\<close> updates that map at one path, \<open>vmm_unmap\<close> removes one path, and \<open>walk_virt\<close> is \<open>xlate\<close>.
\<close>

section \<open>Entries\<close>

lemmas pte_defs = pte_valid_def pte_read_def pte_write_def pte_exec_def pte_user_def
  pte_accessed_def pte_dirty_def bf_flag_bit

interpretation pte_ppn: bit_field 53 10
  by unfold_locales simp_all

interpretation satp_fields: bit_fields 43 0 63 60
  by unfold_locales simp_all

interpretation satp_asid: bit_fields 43 0 59 44
  by unfold_locales simp_all

interpretation pte_valid_ppn: bit_fields 0 0 53 10
  by unfold_locales simp_all

lemma page_aligned_bits: "page_aligned p \<longleftrightarrow> take_bit 12 p = 0"
  by (simp add: page_aligned_def take_bit_eq_mask mask_eq_exp_minus_1)

lemma page_shift: "page_aligned d \<Longrightarrow> push_bit 12 (drop_bit 12 d) = (d :: u64)"
  using bits_ident [of 12 d] by (simp add: page_aligned_bits)

lemma page_aligned_diff:
  assumes "page_aligned x" "page_aligned h" "h \<le> x"
  shows "page_aligned (x - h)"
  using assms by (auto simp: page_aligned_mod unat_sub simp flip: dvd_eq_mod_eq_0)

lemma ppn_of_frame:
  assumes "page_aligned d" "d < 2 ^ 56"
  shows "push_bit 12 (take_bit 44 (drop_bit 12 d)) = (d :: u64)"
proof -
  have d: "unat d < 2 ^ 56" using assms(2) by (simp add: word_less_nat_alt)
  then have "take_bit 64 (unat d) = unat d" by (simp add: take_bit_nat_eq_self)
  with d have "unat (drop_bit 12 d) < 2 ^ 44"
    by (simp add: unsigned_drop_bit_eq drop_bit_eq_div unat_div div_less_iff_less_mult)
  then have "drop_bit 12 d < 2 ^ 44" by (simp add: word_less_nat_alt)
  then show ?thesis using page_shift [OF assms(1)] by (simp add: take_bit_eq_mask less_mask_eq)
qed

text \<open>A new branch entry points to its table; a new leaf entry holds the frame and the flags.\<close>

lemma branch_entry_branch: "is_branch (branch_entry s x 0)"
  by (simp add: is_branch_def pte_defs branch_entry_def pte_set_valid_def pte_set_ppn_def
      bit_bf_set_flag bit_bf_set)

lemma branch_not_leaf: "is_branch e \<Longrightarrow> \<not> is_leaf e"
  by (simp add: is_branch_def is_leaf_def)

lemma is_leaf_0 [simp]: "\<not> is_leaf 0" and is_branch_0 [simp]: "\<not> is_branch 0"
  and pte_valid_0 [simp]: "\<not> pte_valid 0"
  by (simp_all add: is_leaf_def is_branch_def pte_defs)

lemma pte_ppn_set_valid: "pte_get_ppn (pte_set_valid b e) = pte_get_ppn e"
  unfolding pte_get_ppn_def pte_set_valid_def bf_set_flag_def
  by (rule pte_valid_ppn.get_high_set_low)

lemma branch_entry_table:
  assumes "frame_ok s x" "page_aligned (hhdm s)"
  shows "entry_table s (branch_entry s x 0) = x"
proof -
  have d: "page_aligned (x - hhdm s)" "x - hhdm s < 2 ^ 56"
    using assms by (auto simp: frame_ok_def intro: page_aligned_diff)
  have "pte_get_ppn (branch_entry s x 0) = take_bit 44 (drop_bit 12 (x - hhdm s))"
    unfolding branch_entry_def pte_ppn_set_valid
    using pte_ppn.get_set [of "drop_bit 12 (x - hhdm s)" 0]
    by (simp add: pte_get_ppn_def pte_set_ppn_def)
  then show ?thesis using ppn_of_frame [OF d] by (simp add: entry_table_def)
qed

text \<open>Flags that make a leaf: readable, writable or executable, and no bit of the page number.\<close>

definition leaf_flags :: "u64 \<Rightarrow> bool" where
  "leaf_flags flags \<longleftrightarrow> (pte_read flags \<or> pte_write flags \<or> pte_exec flags) \<and> bf_get 53 10 flags = 0"

lemma leaf_entry_leaf: "leaf_flags flags \<Longrightarrow> is_leaf (leaf_entry phys flags)"
  by (auto simp: leaf_flags_def is_leaf_def pte_defs leaf_entry_def pte_set_valid_def pte_set_ppn_def
      bit_bf_set_flag bit_bf_set bit_or_iff)

lemma leaf_entry_ppn:
  "leaf_flags flags \<Longrightarrow> pte_get_ppn (leaf_entry phys flags) = pa_get_ppn phys"
proof -
  assume "leaf_flags flags"
  then have no: "\<not> bit flags (10 + n)" if "n < 44" for n
    using that bit_bf_get [of 53 10 flags n] by (simp add: leaf_flags_def)
  show ?thesis unfolding leaf_entry_def pte_ppn_set_valid
    by (rule bit_word_eqI)
      (auto simp: pte_get_ppn_def pte_set_ppn_def pa_get_ppn_def bit_bf_get bit_bf_set bit_or_iff no)
qed

end
