(* ===== verification/Address_Space.thy ===== *)
theory Address_Space
  imports Page_Tables
begin

text \<open>
  The address space that the page tables in memory denote. \<open>pt_inv s L T xs\<close> says that they form
  a tree of \<open>L\<close> levels: \<open>T\<close> maps the index path of a table to its page, the tables are distinct
  pages that are not on the free list \<open>xs\<close>, and an entry is the branch to the table below it, a
  leaf, or zero. \<open>leaves s T\<close> is what the tree denotes, a map from index paths to leaf entries.
  The lemmas show that \<open>vmm_map\<close> updates that map at one path, that \<open>vmm_unmap\<close> removes one path
  and that \<open>walk_virt\<close> looks one up, each of them with its guards and its faults.
\<close>

section \<open>Index paths\<close>

definition lv :: "nat \<Rightarrow> page_level" where
  "lv k = level_from_usize (of_nat k)"

definition idx :: "u64 \<Rightarrow> nat \<Rightarrow> nat" where
  "idx v k = unat (va_index v (lv k))"

text \<open>The indices of \<open>v\<close> from level \<open>L\<close> down to level \<open>k + 1\<close>: the path of its table at level \<open>k\<close>.\<close>

definition path :: "u64 \<Rightarrow> nat \<Rightarrow> nat \<Rightarrow> nat list" where
  "path v L k = map (idx v) (rev [Suc k..<Suc L])"

lemma lv_cases: "0 < k \<Longrightarrow> k \<le> 5 \<Longrightarrow> k = 1 \<or> k = 2 \<or> k = 3 \<or> k = 4 \<or> k = (5 :: nat)"
  by auto

lemma lv_simps [simp]:
  "lv 0 = PageOffset" "lv (Suc 0) = Level1" "lv 2 = Level2" "lv 3 = Level3" "lv 4 = Level4"
  "lv 5 = Level5"
  by (simp_all add: lv_def level_from_usize_def)

lemma lv_not_offset: "0 < k \<Longrightarrow> k \<le> 5 \<Longrightarrow> lv k \<noteq> PageOffset"
  by (auto dest!: lv_cases)

lemma lv_inj: "j \<le> 5 \<Longrightarrow> k \<le> 5 \<Longrightarrow> lv j = lv k \<longleftrightarrow> j = k"
  using lv_cases [of j] lv_cases [of k] by (cases "j = 0"; cases "k = 0") auto

lemma level_sub_lv: "0 < k \<Longrightarrow> k \<le> 5 \<Longrightarrow> level_sub (lv k) 1 = lv (k - 1)"
  by (drule (1) lv_cases) (auto simp: level_sub_def level_from_usize_def lv_def)

lemma idx_less: "0 < k \<Longrightarrow> k \<le> 5 \<Longrightarrow> idx v k < 512"
  by (simp add: idx_def va_index_512 lv_not_offset)

lemma length_path [simp]: "length (path v L k) = L - k"
  by (simp add: path_def del: upt_Suc)

lemma path_nonempty [simp]: "k < L \<Longrightarrow> path v L k \<noteq> []"
  by (metis length_path list.size(3) zero_less_diff less_irrefl)

lemma path_top [simp]: "path v L L = []"
  by (simp add: path_def)

lemma path_Suc: "k < L \<Longrightarrow> path v L k = path v L (Suc k) @ [idx v (Suc k)]"
  by (simp add: path_def upt_conv_Cons del: upt_Suc)

lemma path_pred: "0 < k \<Longrightarrow> k \<le> L \<Longrightarrow> path v L (k - 1) = path v L k @ [idx v k]"
  using path_Suc [of "k - 1" L v] by simp

section \<open>Table trees\<close>

definition entry_ok :: "machine \<Rightarrow> u64 option \<Rightarrow> u64 \<Rightarrow> bool" where
  "entry_ok s below e =
     (case below of Some y \<Rightarrow> is_branch e \<and> entry_table s e = y | None \<Rightarrow> e = 0 \<or> is_leaf e)"

definition pt_inv :: "machine \<Rightarrow> nat \<Rightarrow> (nat list \<rightharpoonup> u64) \<Rightarrow> u64 list \<Rightarrow> bool" where
  "pt_inv s L T xs \<longleftrightarrow>
     0 < L \<and> L \<le> 5 \<and> page_aligned (hhdm s) \<and> T [] \<noteq> None
     \<and> (\<forall>p x. T p = Some x \<longrightarrow> frame_ok s x \<and> x \<notin> set xs \<and> length p < L)
     \<and> (\<forall>p q x. T p = Some x \<longrightarrow> T q = Some x \<longrightarrow> p = q)
     \<and> (\<forall>p i. T (p @ [i]) \<noteq> None \<longrightarrow> T p \<noteq> None)
     \<and> (\<forall>p x i. T p = Some x \<longrightarrow> i < 512 \<longrightarrow> entry_ok s (T (p @ [i])) (the (mem s (slot x i))))"

lemma pt_invI:
  assumes "0 < L \<and> L \<le> 5 \<and> page_aligned (hhdm s)" "T [] \<noteq> None"
    and "\<And>p x. T p = Some x \<Longrightarrow> frame_ok s x \<and> x \<notin> set xs \<and> length p < L"
    and "\<And>p q x. T p = Some x \<Longrightarrow> T q = Some x \<Longrightarrow> p = q"
    and "\<And>p i. T (p @ [i]) \<noteq> None \<Longrightarrow> T p \<noteq> None"
    and "\<And>p x i. T p = Some x \<Longrightarrow> i < 512 \<Longrightarrow> entry_ok s (T (p @ [i])) (the (mem s (slot x i)))"
  shows "pt_inv s L T xs"
  using assms unfolding pt_inv_def by blast

definition leaf_at :: "machine \<Rightarrow> u64 \<Rightarrow> nat \<Rightarrow> u64 option" where
  "leaf_at s x i = (let e = the (mem s (slot x i)) in if i < 512 \<and> is_leaf e then Some e else None)"

definition leaves :: "machine \<Rightarrow> (nat list \<rightharpoonup> u64) \<Rightarrow> nat list \<rightharpoonup> u64" where
  "leaves s T q =
     (if q = [] then None else
      case T (butlast q) of None \<Rightarrow> None | Some x \<Rightarrow> leaf_at s x (last q))"

lemma entry_ok_cong: "hhdm t = hhdm s \<Longrightarrow> entry_ok t b e = entry_ok s b e"
  by (cases b) (simp_all add: entry_ok_def entry_table_def)

lemma leaves_snoc: "leaves s T (p @ [i]) = (case T p of None \<Rightarrow> None | Some x \<Rightarrow> leaf_at s x i)"
  by (cases "T p") (simp_all add: leaves_def)

lemma pt_inv_table:
  "pt_inv s L T xs \<Longrightarrow> T p = Some x \<Longrightarrow> frame_ok s x \<and> x \<notin> set xs \<and> length p < L"
  by (simp add: pt_inv_def)

lemma pt_inv_entry:
  assumes "pt_inv s L T xs" "T p = Some x" "i < 512"
  shows "\<exists>e. mem s (slot x i) = Some e \<and> entry_ok s (T (p @ [i])) e"
proof -
  obtain e where e: "mem s (slot x i) = Some e"
    using pt_inv_table [OF assms(1,2)] frame_ok_mapped [of s x i] assms(3) by auto
  moreover have "entry_ok s (T (p @ [i])) (the (mem s (slot x i)))"
    using assms unfolding pt_inv_def by blast
  ultimately show ?thesis by simp
qed

lemma pt_inv_levels: "pt_inv s L T xs \<Longrightarrow> 0 < L \<and> L \<le> 5 \<and> page_aligned (hhdm s)"
  by (simp add: pt_inv_def)

lemma pt_inv_prefix: "pt_inv s L T xs \<Longrightarrow> T (p @ [i]) = Some x \<Longrightarrow> \<exists>y. T p = Some y"
proof -
  assume inv: "pt_inv s L T xs" and T: "T (p @ [i]) = Some x"
  from inv have "\<forall>p i. T (p @ [i]) \<noteq> None \<longrightarrow> T p \<noteq> None" unfolding pt_inv_def by (elim conjE)
  with T show ?thesis by (metis option.distinct(1) option.exhaust)
qed

text \<open>A page that is a table is no other table: the cells of two tables are disjoint.\<close>

lemma pt_inv_inj: "pt_inv s L T xs \<Longrightarrow> T p = Some x \<Longrightarrow> T q = Some x \<Longrightarrow> p = q"
  unfolding pt_inv_def by blast

section \<open>Writes elsewhere\<close>

lemma changes_only_cell:
  assumes "changes_only F s t" "page_aligned x" "\<forall>y \<in> F. page_aligned y" "x \<notin> F" "i < 512"
  shows "mem t (slot x i) = mem s (slot x i)"
proof -
  have "slot x i \<notin> \<Union> (page_cells ` F)"
    using assms slot_not_in_page [OF assms(2) _ assms(5)] by auto
  with assms(1) show ?thesis by (simp add: changes_only_def mem_only_def)
qed

lemma pt_inv_elsewhere:
  assumes inv: "pt_inv s L T xs" and ch: "changes_only F s t"
    and F: "\<forall>y \<in> F. page_aligned y \<and> y \<notin> ran T" and sub: "set ys \<inter> ran T = {}"
  shows "pt_inv t L T ys" "leaves t T = leaves s T"
proof -
  have cell: "mem t (slot x i) = mem s (slot x i)" if "T p = Some x" "i < 512" for p x i
  proof (rule changes_only_cell [OF ch])
    show "page_aligned x" using pt_inv_table [OF inv that(1)] by auto
    show "x \<notin> F" using F that(1) by (auto simp: ran_def)
  qed (use F that in auto)
  have hh: "hhdm t = hhdm s" using ch by (simp add: changes_only_def)
  show "pt_inv t L T ys"
    using inv cell sub unfolding pt_inv_def changes_only_frame_ok [OF ch] entry_ok_cong [OF hh] hh
    by (auto simp: ran_def)
  show "leaves t T = leaves s T"
    by (rule ext) (auto simp: leaves_def leaf_at_def Let_def cell split: option.splits)
qed

lemma fl_inv_elsewhere:
  assumes inv: "fl_inv s xs" and ch: "changes_only F s t"
    and F: "\<forall>y \<in> F. page_aligned y \<and> y \<notin> set xs"
    and same: "fl_head t = fl_head s" "fl_tail t = fl_tail s" "fl_len t = fl_len s"
  shows "fl_inv t xs"
proof -
  have cell: "mem t (slot x i) = mem s (slot x i)" if "x \<in> set xs" "i < 512" for x i
    using changes_only_cell [OF ch _ _ _ that(2), of x] F that fl_inv_frame_ok [OF inv that(1)] by auto
  have "dseg (mem t) 0 xs 0 = dseg (mem s) 0 xs 0" by (rule dseg_cong) (simp add: cell)
  moreover have "hhdm t = hhdm s" using ch by (simp add: changes_only_def)
  ultimately show ?thesis using inv same by (simp add: fl_inv_def changes_only_frame_ok [OF ch])
qed

section \<open>One entry\<close>

lemma table_entry:
  assumes "frame_ok s x" "i < 512" "mem s (slot x i) = Some e"
  shows "rbind (read_table s x) (\<lambda>tc. rbind (index_at tc i) (f tc)) = f (table_of (mem s) x) e"
  using assms by (simp add: read_table_mapped frame_ok_page_mapped)

lemma table_write:
  assumes "frame_ok s x" "i < 512"
  shows "write_table s x ((table_of (mem s) x)[i := e]) = ok (s\<lparr>mem := (mem s)(slot x i \<mapsto> e)\<rparr>)"
  using assms by (simp add: write_table_mapped frame_ok_page_mapped fill_update)

lemma changes_only_set_cell:
  assumes "frame_ok s x" "i < 512"
  shows "changes_only {x} s (s\<lparr>mem := (mem s)(slot x i \<mapsto> e)\<rparr>)"
  using assms by (auto simp: changes_only_def intro!: mem_only_upd)

text \<open>Storing a leaf or zero where there is no table below.\<close>

lemma set_entry:
  assumes inv: "pt_inv s L T xs" and fl: "fl_inv s xs" and T: "T p = Some x" "T (p @ [i]) = None"
    and i: "i < 512" and e: "e = 0 \<or> is_leaf e"
  defines "t \<equiv> s\<lparr>mem := (mem s)(slot x i \<mapsto> e)\<rparr>"
  shows "pt_inv t L T xs" "fl_inv t xs"
    "leaves t T = (leaves s T)(p @ [i] := if is_leaf e then Some e else None)"
proof -
  have x: "frame_ok s x" "x \<notin> set xs" using pt_inv_table [OF inv T(1)] by simp_all
  have ch: "changes_only {x} s t" unfolding t_def by (rule changes_only_set_cell [OF x(1) i])
  show "fl_inv t xs"
    by (rule fl_inv_elsewhere [OF fl ch]) (use x in \<open>auto simp: t_def\<close>)
  have cell: "mem t (slot y j) = (if q = p \<and> j = i then Some e else mem s (slot y j))"
    if "T q = Some y" "j < 512" for q y j
  proof -
    have "slot y j = slot x i \<longleftrightarrow> y = x \<and> j = i"
      using pt_inv_table [OF inv that(1)] x that i by (intro slot_inj) auto
    moreover have "y = x \<longleftrightarrow> q = p" using pt_inv_inj [OF inv] that(1) T(1) by auto
    ultimately show ?thesis by (simp add: t_def)
  qed
  have eok: "entry_ok t b d = entry_ok s b d" for b d
    by (rule entry_ok_cong) (simp add: t_def)
  have "entry_ok s None e" using e by (simp add: entry_ok_def)
  then have "entry_ok t (T (q @ [j])) (the (mem t (slot y j)))" if q: "T q = Some y" "j < 512" for q y j
    using pt_inv_entry [OF inv q] T(2) by (auto simp: cell [OF q] eok)
  then show "pt_inv t L T xs"
    using inv unfolding pt_inv_def changes_only_frame_ok [OF ch] by (simp add: t_def)
  show "leaves t T = (leaves s T)(p @ [i] := if is_leaf e then Some e else None)" (is "?l = ?r")
  proof
    fix q show "?l q = ?r q"
    proof (cases q rule: rev_cases)
      case (snoc q' j)
      show ?thesis
        using T(1) i by (cases "T q'"; cases "j < 512") (auto simp: snoc leaves_snoc leaf_at_def cell)
    qed (simp add: leaves_def)
  qed
qed

text \<open>A new table: its page is zeroed and a branch to it stored where the entry was zero.\<close>

lemma changes_only_fill:
  assumes "frame_ok s x"
  shows "changes_only {x} s (s\<lparr>mem := fill (mem s) x f\<rparr>)"
proof -
  have "dom (fill (mem s) x f) = dom (mem s)"
  proof (rule set_eqI)
    fix a show "a \<in> dom (fill (mem s) x f) \<longleftrightarrow> a \<in> dom (mem s)"
      using frame_ok_mapped [OF assms] fill_slot [OF frame_ok_aligned [OF assms]] fill_other
      by (cases "a \<in> page_cells x") (fastforce simp: page_cells_def)+
  qed
  then show ?thesis by (simp add: changes_only_def mem_only_def fill_other)
qed

lemma grow_cells:
  assumes inv: "pt_inv s L T xs" and x: "frame_ok s x" "x \<notin> ran T" and y: "T p = Some y" "i < 512"
    and q: "(T(r \<mapsto> x)) q = Some z" "j < 512"
    and r: "T r = None"
  shows "((fill (mem s) x (\<lambda>_. 0))(slot y i \<mapsto> e)) (slot z j)
    = (if q = r then Some 0 else if q = p \<and> j = i then Some e else mem s (slot z j))"
proof -
  have yx: "frame_ok s y" "y \<noteq> x" using pt_inv_table [OF inv y(1)] x(2) y(1) by (auto simp: ran_def)
  show ?thesis
  proof (cases "q = r")
    case True
    then have "z = x" using q by simp
    with True yx x(1) y(2) q(2) show ?thesis by (simp add: slot_inj fill_slot)
  next
    case False
    then have z: "T q = Some z" "frame_ok s z" "z \<noteq> x"
      using q(1) pt_inv_table [OF inv, of q z] x(2) by (auto simp: ran_def)
    have "z = y \<longleftrightarrow> q = p" using pt_inv_inj [OF inv] z(1) y(1) by auto
    with False z x(1) yx y(2) q(2) show ?thesis
      by (simp add: slot_inj fill_other slot_not_in_page)
  qed
qed

lemma grow_table:
  assumes inv: "pt_inv s L T xs" and fl: "fl_inv s xs"
    and x: "frame_ok s x" "x \<notin> ran T" "x \<notin> set xs"
    and T: "T p = Some y" "T (p @ [i]) = None" "Suc (length p) < L"
    and i: "i < 512" and no_leaf: "leaf_at s y i = None"
  defines "u \<equiv> s\<lparr>mem := (fill (mem s) x (\<lambda>_. 0))(slot y i \<mapsto> branch_entry s x 0)\<rparr>"
  shows "pt_inv u L (T(p @ [i] \<mapsto> x)) xs" "fl_inv u xs"
    "leaves u (T(p @ [i] \<mapsto> x)) = leaves s T"
proof -
  let ?T = "T(p @ [i] \<mapsto> x)" and ?s1 = "s\<lparr>mem := fill (mem s) x (\<lambda>_. 0)\<rparr>"
  have y: "frame_ok s y" "y \<notin> set xs" using pt_inv_table [OF inv T(1)] by simp_all
  have al: "page_aligned (hhdm s)" using pt_inv_levels [OF inv] by simp
  have c1: "changes_only {x, y} s ?s1"
    using changes_only_fill [OF x(1)] by (rule changes_only_mono) simp
  have "frame_ok ?s1 y" using y(1) by (simp only: changes_only_frame_ok [OF c1])
  from changes_only_set_cell [OF this i, of "branch_entry s x 0"] have "changes_only {y} ?s1 u"
    by (simp add: u_def)
  then have "changes_only {x, y} ?s1 u" by (rule changes_only_mono) simp
  with c1 have ch: "changes_only {x, y} s u" by (rule changes_only_trans)
  show "fl_inv u xs"
    by (rule fl_inv_elsewhere [OF fl ch]) (use x y in \<open>auto simp: u_def\<close>)
  have cell: "mem u (slot z j) = (if q = p @ [i] then Some 0
      else if q = p \<and> j = i then Some (branch_entry s x 0) else mem s (slot z j))"
    if "?T q = Some z" "j < 512" for q z j
    using grow_cells [OF inv x(1,2) T(1) i that T(2)] by (simp add: u_def)
  have eok: "entry_ok u b e = entry_ok s b e" for b e
    by (rule entry_ok_cong) (simp add: u_def)
  have below: "T ((p @ [i]) @ [j]) = None" for j
    using pt_inv_prefix [OF inv, of "p @ [i]" j] T(2) by (cases "T ((p @ [i]) @ [j])") auto
  show "pt_inv u L ?T xs"
  proof (rule pt_invI)
    show "0 < L \<and> L \<le> 5 \<and> page_aligned (hhdm u)" using pt_inv_levels [OF inv] by (simp add: u_def)
    show "?T [] \<noteq> None" using inv by (simp add: pt_inv_def)
    show "frame_ok u z \<and> z \<notin> set xs \<and> length q < L" if "?T q = Some z" for q z
      using that pt_inv_table [OF inv] x T(3) changes_only_frame_ok [OF ch] by (auto split: if_splits)
    show "q = q'" if "?T q = Some z" "?T q' = Some z" for q q' z
      using that pt_inv_inj [OF inv, of q z q'] x(2) by (auto simp: ran_def split: if_splits)
    show "?T q \<noteq> None" if "?T (q @ [j]) \<noteq> None" for q j
      using that pt_inv_prefix [OF inv, of q j] T(1) by (cases "q = p") (auto split: if_splits)
    show "entry_ok u (?T (q @ [j])) (the (mem u (slot z j)))" if q: "?T q = Some z" "j < 512" for q z j
    proof (cases "q = p @ [i]")
      case True
      with below show ?thesis by (simp add: cell [OF q] eok entry_ok_def)
    next
      case False
      then have "T q = Some z" using q by simp
      moreover have "entry_ok s (Some x) (branch_entry s x 0)"
        using branch_entry_branch branch_entry_table [OF x(1) al] by (simp add: entry_ok_def)
      ultimately show ?thesis
        using pt_inv_entry [OF inv _ q(2), of q z] False by (auto simp: cell [OF q] eok)
    qed
  qed
  show "leaves u ?T = leaves s T"
  proof
    fix q show "leaves u ?T q = leaves s T q"
    proof (cases q rule: rev_cases)
      case (snoc q' j)
      have "leaf_at u z j = (if q' = p @ [i] then None else leaf_at s z j)" if "?T q' = Some z" for z
        using that no_leaf T(1) branch_not_leaf [OF branch_entry_branch]
        by (cases "j < 512") (auto simp: leaf_at_def cell Let_def)
      then show ?thesis using T(2) by (cases "?T q'") (auto simp: snoc leaves_snoc split: if_splits)
    qed (simp add: leaves_def)
  qed
qed

section \<open>map\<close>

text \<open>The tables on the path of \<open>v\<close> from below level \<open>j\<close> down to level \<open>k\<close> that do not exist yet.\<close>

definition missing :: "(nat list \<rightharpoonup> u64) \<Rightarrow> u64 \<Rightarrow> nat \<Rightarrow> nat \<Rightarrow> nat \<Rightarrow> nat" where
  "missing T v L k j = length (filter (\<lambda>i. T (path v L i) = None) [k..<j])"

lemma missing_self [simp]: "missing T v L k k = 0"
  by (simp add: missing_def)

lemma missing_Suc:
  "k \<le> j \<Longrightarrow> missing T v L k (Suc j) = missing T v L k j + (if T (path v L j) = None then 1 else 0)"
  by (simp add: missing_def)

lemma missing_le: "missing T v L k j \<le> j - k"
  using length_filter_le [of "\<lambda>i. T (path v L i) = None" "[k..<j]"] by (simp add: missing_def)

lemma path_eq_length: "path v L i = path w L j \<Longrightarrow> i \<le> L \<Longrightarrow> j \<le> L \<Longrightarrow> i = j"
  by (drule arg_cong [of _ _ length]) simp

lemma missing_upd:
  "j \<le> L \<Longrightarrow> missing (T(path v L j \<mapsto> x)) v L k j = missing T v L k j"
  by (auto simp: missing_def dest!: path_eq_length intro!: arg_cong [of _ _ length] filter_cong)

lemma claim_for_table:
  assumes inv: "pt_inv s L T (x # y # ys)" and fl: "fl_inv s (x # y # ys)"
  shows "\<exists>t. fl_claim s = ok (x, t) \<and> fl_inv t (y # ys) \<and> pt_inv t L T (y # ys)
    \<and> leaves t T = leaves s T \<and> changes_only {y} s t
    \<and> frame_ok t x \<and> x \<notin> ran T \<and> x \<notin> set (y # ys)"
proof -
  obtain t where t: "fl_claim s = ok (x, t)" "fl_inv t (y # ys)" "changes_only {y} s t"
    using fl_claim_inv [OF fl] by blast
  have free: "x \<notin> ran T" "y \<notin> ran T" using inv by (auto simp: pt_inv_def ran_def)
  have ok: "frame_ok s x" "frame_ok s y" using fl_inv_frame_ok [OF fl] by simp_all
  have "set (y # ys) \<inter> ran T = {}" using inv by (auto simp: pt_inv_def ran_def)
  note elsewhere = pt_inv_elsewhere [OF inv t(3) _ this]
  have "x \<notin> set (y # ys)" using fl by (simp add: fl_inv_def)
  moreover have "frame_ok t x" using ok(1) by (simp only: changes_only_frame_ok [OF t(3)])
  ultimately show ?thesis using t free ok elsewhere by (auto simp del: set_simps simp: set_subset_Cons)
qed

text \<open>The iteration of the loop that makes a table.\<close>

lemma map_grows:
  assumes inv: "pt_inv s L T (f # g # fs)" and fl: "fl_inv s (f # g # fs)"
    and T: "T p = Some x" "T (p @ [i]) = None" "Suc (length p) < L"
    and i: "i < 512" and no_leaf: "leaf_at s x i = None"
    and lev: "unat (va_index v l) = i" "l \<noteq> l'"
  shows "\<exists>u. vmm_map s x v phys l l' flags = vmm_map u f v phys (level_sub l 1) l' flags
    \<and> pt_inv u L (T(p @ [i] \<mapsto> f)) (g # fs) \<and> fl_inv u (g # fs)
    \<and> leaves u (T(p @ [i] \<mapsto> f)) = leaves s T \<and> changes_only {f, g, x} s u"
proof -
  obtain t where t: "fl_claim s = ok (f, t)" "fl_inv t (g # fs)" "pt_inv t L T (g # fs)"
    "leaves t T = leaves s T" "changes_only {g} s t" "frame_ok t f" "f \<notin> ran T" "f \<notin> set (g # fs)"
    using claim_for_table [OF inv fl] by blast
  let ?z = "t\<lparr>mem := fill (mem t) f (\<lambda>_. 0)\<rparr>"
  let ?u = "t\<lparr>mem := (fill (mem t) f (\<lambda>_. 0))(slot x i \<mapsto> branch_entry t f 0)\<rparr>"
  have x: "frame_ok s x" "x \<noteq> g" "x \<noteq> f" using pt_inv_table [OF inv T(1)] by auto
  have "frame_ok s g" using fl_inv_frame_ok [OF fl] by simp
  with x t(6) have same: "mem t (slot x n) = mem s (slot x n)" "mem ?z (slot x n) = mem s (slot x n)"
    if "n < 512" for n
    using that changes_only_cell [OF t(5), of x n]
    by (auto simp: fill_other slot_not_in_page)
  then have tables: "table_of (mem ?z) x = table_of (mem s) x"
    by (auto simp: table_of_def)
  obtain e where e: "mem s (slot x i) = Some e" "entry_ok s None e"
    using pt_inv_entry [OF inv T(1) i] T(2) by auto
  then have "e = 0" using no_leaf i by (auto simp: leaf_at_def entry_ok_def Let_def split: if_splits)
  note e = e(1) [unfolded this]
  have no_leaf_t: "leaf_at t x i = None" using no_leaf same(1) [OF i] by (simp add: leaf_at_def)
  have hh: "branch_entry s f 0 = branch_entry t f 0" "branch_entry ?z f 0 = branch_entry t f 0"
    using t(5) by (simp_all add: changes_only_def branch_entry_def)
  have cz: "changes_only {f} t ?z" by (rule changes_only_fill [OF t(6)])
  have xz: "frame_ok ?z x"
    using x(1) by (simp only: changes_only_frame_ok [OF cz] changes_only_frame_ok [OF t(5)])
  have zero: "zero_table t f = ok ?z"
    by (rule zero_table_mapped) (rule frame_ok_page_mapped [OF t(6)])
  have store: "write_table ?z x ((table_of (mem s) x)[i := branch_entry t f 0]) = ok ?u"
    using table_write [OF xz i, of "branch_entry t f 0"] unfolding tables by simp
  have "vmm_map s x v phys l l' flags = vmm_map ?u f v phys (level_sub l 1) l' flags"
    by (subst vmm_map.simps)
      (simp add: lev table_entry [OF x(1) i e] t(1) zero store hh(2) del: rbind_assoc)
  moreover have "changes_only {f, g, x} s ?u"
  proof -
    have "changes_only {x} ?z ?u" using changes_only_set_cell [OF xz i, of "branch_entry t f 0"] by simp
    with t(5) cz show ?thesis by (meson changes_only_mono changes_only_trans insert_mono empty_subsetI insertI1 subset_insertI2 subset_insertI)
  qed
  ultimately show ?thesis
    using grow_table [OF t(3,2,6,7,8) T i no_leaf_t] t(4) by fastforce
qed

text \<open>The iteration that follows a branch, and the last one, which stores the leaf.\<close>

lemma map_descends:
  assumes inv: "pt_inv s L T xs" and T: "T p = Some x" "T (p @ [i]) = Some y"
    and i: "unat (va_index v l) = i" "i < 512" "l \<noteq> l'"
  shows "vmm_map s x v phys l l' flags = vmm_map s y v phys (level_sub l 1) l' flags"
proof -
  obtain e where e: "mem s (slot x i) = Some e" "is_branch e" "entry_table s e = y"
    using pt_inv_entry [OF inv T(1) i(2)] T(2) by (auto simp: entry_ok_def)
  have "frame_ok s x" using pt_inv_table [OF inv T(1)] by simp
  note entry = table_entry [OF this i(2) e(1)]
  show ?thesis
    by (subst vmm_map.simps) (simp add: entry i e(2,3) del: rbind_assoc)
qed

lemma map_stores:
  assumes inv: "pt_inv s L T xs" and T: "T p = Some x" and i: "unat (va_index v l) = i" "i < 512"
  shows "vmm_map s x v phys l l flags = ok (s\<lparr>mem := (mem s)(slot x i \<mapsto> leaf_entry phys flags)\<rparr>)"
proof -
  obtain e where e: "mem s (slot x i) = Some e" using pt_inv_entry [OF inv T i(2)] by blast
  have x: "frame_ok s x" using pt_inv_table [OF inv T] by simp
  note entry = table_entry [OF x i(2) e] and store = table_write [OF x i(2)]
  show ?thesis
    by (subst vmm_map.simps) (simp add: entry store i del: rbind_assoc)
qed

text \<open>What a call of \<open>map\<close> that starts at the table of level \<open>j\<close> does, down to level \<open>k\<close>.\<close>

definition mapped_to ::
  "machine \<Rightarrow> nat \<Rightarrow> (nat list \<rightharpoonup> u64) \<Rightarrow> u64 list \<Rightarrow> u64 \<Rightarrow> nat \<Rightarrow> nat \<Rightarrow> u64 \<Rightarrow> machine
    \<Rightarrow> (nat list \<rightharpoonup> u64) \<Rightarrow> bool" where
  "mapped_to s L T xs v j k e t T' \<longleftrightarrow>
     fl_inv t (drop (missing T v L k j) xs) \<and> pt_inv t L T' (drop (missing T v L k j) xs)
     \<and> leaves t T' = (leaves s T)(path v L (k - 1) \<mapsto> e)
     \<and> dom T' = dom T \<union> path v L ` {k..<j} \<and> T \<subseteq>\<^sub>m T'
     \<and> ran T' \<subseteq> ran T \<union> set (take (missing T v L k j) xs)
     \<and> changes_only (ran T \<union> set xs) s t"

lemma changes_only_step:
  "changes_only F s u \<Longrightarrow> changes_only G u t \<Longrightarrow> F \<subseteq> H \<Longrightarrow> G \<subseteq> H \<Longrightarrow> changes_only H s t"
  by (meson changes_only_mono changes_only_trans)

lemma map_walk:
  assumes "k \<le> j" and "0 < k" and "j \<le> L"
    and "pt_inv s L T xs" "fl_inv s xs" "T (path v L j) = Some x"
    and "leaf_flags flags" "T (path v L (k - 1)) = None"
    and "\<And>i. k \<le> i \<Longrightarrow> i < j \<Longrightarrow> leaves s T (path v L i) = None"
    and "missing T v L k j < length xs"
  shows "\<exists>t T'. vmm_map s x v phys (lv j) (lv k) flags = ok t
    \<and> mapped_to s L T xs v j k (leaf_entry phys flags) t T'"
  using assms
proof (induction j arbitrary: s T x xs rule: dec_induct)
  case base
  let ?e = "leaf_entry phys flags"
  have k5: "k \<le> 5" using pt_inv_levels [OF base.prems(3)] base.prems(2) by simp
  have i: "idx v k < 512" using base.prems(1) k5 by (rule idx_less)
  have p: "path v L (k - 1) = path v L k @ [idx v k]" using base.prems by (intro path_pred) auto
  note T = base.prems(5,7) [unfolded p]
  have leaf: "is_leaf ?e" using base.prems(6) by (rule leaf_entry_leaf)
  let ?t = "s\<lparr>mem := (mem s)(slot x (idx v k) \<mapsto> ?e)\<rparr>"
  have run: "vmm_map s x v phys (lv k) (lv k) flags = ok ?t"
    by (rule map_stores [OF base.prems(3) T(1) _ i]) (simp add: idx_def)
  have x: "frame_ok s x" "x \<in> ran T" using pt_inv_table [OF base.prems(3) T(1)] T(1) by (auto simp: ran_def)
  have "changes_only (ran T \<union> set xs) s ?t"
    by (rule changes_only_mono [OF changes_only_set_cell [OF x(1) i]]) (use x in simp)
  with set_entry [OF base.prems(3,4) T i, of ?e] leaf
  have "mapped_to s L T xs v k k ?e ?t T" by (simp add: mapped_to_def p del: One_nat_def)
  with run show ?case by blast
next
  case (step j)
  have j5: "Suc j \<le> 5" using pt_inv_levels [OF step.prems(3)] step.prems(2) by simp
  have i: "idx v (Suc j) < 512" using j5 by (intro idx_less) simp_all
  have p: "path v L j = path v L (Suc j) @ [idx v (Suc j)]" using step.prems(2) by (intro path_Suc) simp
  have lev: "level_sub (lv (Suc j)) 1 = lv j" "lv (Suc j) \<noteq> lv k"
    using level_sub_lv [of "Suc j"] j5 step.hyps lv_inj [of "Suc j" k] by simp_all
  have ix: "unat (va_index v (lv (Suc j))) = idx v (Suc j)" by (simp add: idx_def)
  show ?case
  proof (cases "T (path v L j)")
    case (Some y)
    have miss: "missing T v L k (Suc j) = missing T v L k j" using Some step.hyps by (simp add: missing_Suc)
    obtain t T' where t: "vmm_map s y v phys (lv j) (lv k) flags = ok t"
      "mapped_to s L T xs v j k (leaf_entry phys flags) t T'"
      using step.IH [OF step.prems(1) _ step.prems(3,4) Some step.prems(6,7)] step.prems miss by auto
    have "vmm_map s x v phys (lv (Suc j)) (lv k) flags = vmm_map s y v phys (lv j) (lv k) flags"
      using map_descends [OF step.prems(3,5) _ ix i lev(2)] Some p lev(1) by simp
    moreover have "path v L ` {k..<Suc j} \<union> dom T = path v L ` {k..<j} \<union> dom T"
      using Some step.hyps by (auto simp: less_Suc_eq)
    ultimately show ?thesis using t miss by (auto simp: mapped_to_def Un_commute)
  next
    case None
    have miss: "missing T v L k (Suc j) = Suc (missing T v L k j)" using None step.hyps by (simp add: missing_Suc)
    then obtain f g fs where xs: "xs = f # g # fs"
      using step.prems(9) by (cases xs; cases "tl xs") auto
    have "leaves s T (path v L j) = None" using step.prems(8) step.hyps by simp
    then have nl: "leaf_at s x (idx v (Suc j)) = None" by (simp add: p leaves_snoc step.prems(5))
    have len: "Suc (length (path v L (Suc j))) < L" using step.prems(1,2) step.hyps by simp
    let ?T = "T(path v L j \<mapsto> f)"
    obtain u where u: "vmm_map s x v phys (lv (Suc j)) (lv k) flags = vmm_map u f v phys (lv j) (lv k) flags"
      "pt_inv u L ?T (g # fs)" "fl_inv u (g # fs)" "leaves u ?T = leaves s T"
      "changes_only {f, g, x} s u"
      using map_grows [OF step.prems(3,4) [unfolded xs] step.prems(5) None [unfolded p] len i nl ix lev(2)]
      by (auto simp: p lev(1) xs)
    have up: "missing ?T v L k j = missing T v L k j" using step.prems(2) by (simp add: missing_upd)
    have "k - 1 \<le> L" "j \<le> L" "k - 1 \<noteq> j" using step.prems(1,2) step.hyps by simp_all
    then have ne: "path v L (k - 1) \<noteq> path v L j" using path_eq_length by blast
    have now: "?T (path v L j) = Some f" "?T (path v L (k - 1)) = None"
      "\<And>i. k \<le> i \<Longrightarrow> i < j \<Longrightarrow> leaves u ?T (path v L i) = None" "missing ?T v L k j < length (g # fs)"
      using step.prems(7,8,9) ne u(4) up miss by (simp_all add: xs)
    have jL: "j \<le> L" using step.prems(2) by simp
    obtain t T' where t: "vmm_map u f v phys (lv j) (lv k) flags = ok t"
      "mapped_to u L ?T (g # fs) v j k (leaf_entry phys flags) t T'"
      using step.IH [OF step.prems(1) jL u(2,3) now(1) step.prems(6) now(2,3,4)] by blast
    have x: "x \<in> ran T" using step.prems(5) by (auto simp: ran_def)
    have "changes_only (ran T \<union> set xs) s t"
      by (rule changes_only_step [OF u(5), of "ran ?T \<union> set (g # fs)"])
        (use t(2) x in \<open>auto simp: mapped_to_def xs ran_def split: if_splits\<close>)
    moreover have "dom T' = dom T \<union> path v L ` {k..<Suc j}"
      using t(2) step.hyps by (auto simp: mapped_to_def atLeastLessThanSuc)
    moreover have "T \<subseteq>\<^sub>m T'" using t(2) None by (auto simp: mapped_to_def map_le_def dom_def split: if_splits)
    moreover have "ran T' \<subseteq> ran T \<union> set (take (Suc (missing T v L k j)) xs)"
      using t(2) up ran_map_upd [of T "path v L j" f] None by (auto simp: mapped_to_def xs)
    ultimately have "mapped_to s L T xs v (Suc j) k (leaf_entry phys flags) t T'"
      using t(2) u(4) by (simp add: mapped_to_def up miss xs)
    with u(1) t(1) show ?thesis by auto
  qed
qed

section \<open>unmap\<close>

lemma unmap_descends:
  assumes inv: "pt_inv s L T xs" and T: "T p = Some x" "T (p @ [i]) = Some y"
    and i: "unat (va_index v l) = i" "i < 512" "l \<noteq> l'"
  shows "vmm_unmap s x v l l' = vmm_unmap s y v (level_sub l 1) l'"
proof -
  obtain e where e: "mem s (slot x i) = Some e" "is_branch e" "entry_table s e = y"
    using pt_inv_entry [OF inv T(1) i(2)] T(2) by (auto simp: entry_ok_def)
  have "frame_ok s x" using pt_inv_table [OF inv T(1)] by simp
  note entry = table_entry [OF this i(2) e(1)]
  show ?thesis
    by (subst vmm_unmap.simps) (simp add: entry i e(2,3) branch_not_leaf del: rbind_assoc)
qed

text \<open>At its target level: the leaf is zeroed and its frame returned, or there is none and the
  call panics.\<close>

lemma unmap_target:
  assumes inv: "pt_inv s L T xs" and T: "T p = Some x" and i: "unat (va_index v l) = i" "i < 512"
  shows "vmm_unmap s x v l l =
    (case leaf_at s x i of
       Some e \<Rightarrow> ok (push_bit 12 (pte_get_ppn e), s\<lparr>mem := (mem s)(slot x i \<mapsto> 0)\<rparr>)
     | None \<Rightarrow> fail (Panic ''No leaf found while unmapping''))"
proof -
  obtain e where e: "mem s (slot x i) = Some e" using pt_inv_entry [OF inv T i(2)] by blast
  have x: "frame_ok s x" using pt_inv_table [OF inv T] by simp
  note entry = table_entry [OF x i(2) e] and store = table_write [OF x i(2)]
  show ?thesis
    by (subst vmm_unmap.simps) (simp add: entry store i leaf_at_def e Let_def del: rbind_assoc)
qed

text \<open>Above it: a missing table is a panic of its own.\<close>

lemma unmap_stuck:
  assumes inv: "pt_inv s L T xs" and T: "T p = Some x" "T (p @ [i]) = None"
    and i: "unat (va_index v l) = i" "i < 512" "l \<noteq> l'"
  shows "vmm_unmap s x v l l' =
    fail (Panic (if leaf_at s x i = None then ''No entry found for virt'' else ''Unexpected entry''))"
proof -
  obtain e where e: "mem s (slot x i) = Some e" "entry_ok s None e"
    using pt_inv_entry [OF inv T(1) i(2)] T(2) by auto
  have "frame_ok s x" using pt_inv_table [OF inv T(1)] by simp
  note entry = table_entry [OF this i(2) e(1)]
  have "\<not> is_branch e" using e(2) branch_not_leaf by (auto simp: entry_ok_def)
  then show ?thesis
    by (subst vmm_unmap.simps) (simp add: entry i leaf_at_def e(1) Let_def del: rbind_assoc)
qed

lemma path_tables:
  assumes "pt_inv s L T xs" "T (path v L k) \<noteq> None" "k \<le> j" "j \<le> L"
  shows "T (path v L j) \<noteq> None"
  using assms(3,2,4)
proof (induction j rule: dec_induct)
  case (step j)
  have "path v L j = path v L (Suc j) @ [idx v (Suc j)]" using step.prems by (intro path_Suc) simp
  with step pt_inv_prefix [OF assms(1), of "path v L (Suc j)" "idx v (Suc j)"] show ?case by auto
qed simp

lemma unmap_walk:
  assumes "k \<le> j" and "0 < k" and "j \<le> L" and inv: "pt_inv s L T xs" and fl: "fl_inv s xs"
    and T: "T (path v L j) = Some x" and leaf: "leaves s T (path v L (k - 1)) = Some e"
  shows "\<exists>t. vmm_unmap s x v (lv j) (lv k) = ok (push_bit 12 (pte_get_ppn e), t)
    \<and> pt_inv t L T xs \<and> fl_inv t xs \<and> leaves t T = (leaves s T)(path v L (k - 1) := None)
    \<and> changes_only (ran T) s t"
proof -
  have k: "k \<le> L" "k \<le> 5" "0 < k" using assms pt_inv_levels [OF inv] by simp_all
  have i: "idx v k < 512" using k by (intro idx_less)
  have p: "path v L (k - 1) = path v L k @ [idx v k]" using k by (intro path_pred) auto
  obtain y where y: "T (path v L k) = Some y" "leaf_at s y (idx v k) = Some e"
    using leaf unfolding p leaves_snoc by (auto split: option.splits)
  have "vmm_unmap s x v (lv j) (lv k) = vmm_unmap s y v (lv k) (lv k)"
    using assms(1,3) T
  proof (induction j arbitrary: x rule: dec_induct)
    case base
    with y(1) show ?case by simp
  next
    case (step j)
    have j5: "Suc j \<le> 5" using pt_inv_levels [OF inv] step.prems(1) by simp
    have pj: "path v L j = path v L (Suc j) @ [idx v (Suc j)]" using step.prems(1) by (intro path_Suc) simp
    obtain z where z: "T (path v L j) = Some z"
      using path_tables [OF inv, of v k j] y(1) step.hyps step.prems(1) by auto
    have "lv (Suc j) \<noteq> lv k" "level_sub (lv (Suc j)) 1 = lv j" "idx v (Suc j) < 512"
      using level_sub_lv [of "Suc j"] j5 step.hyps lv_inj [of "Suc j" k] idx_less [of "Suc j" v] by simp_all
    then have "vmm_unmap s x v (lv (Suc j)) (lv k) = vmm_unmap s z v (lv j) (lv k)"
      using unmap_descends [OF inv step.prems(2) z [unfolded pj], of v "lv (Suc j)" "lv k"] by (simp add: idx_def)
    with step.IH [OF _ z] step.prems(1) show ?case by simp
  qed
  also have "\<dots> = ok (push_bit 12 (pte_get_ppn e), s\<lparr>mem := (mem s)(slot y (idx v k) \<mapsto> 0)\<rparr>)"
    using unmap_target [OF inv y(1) _ i, of v "lv k"] y(2) by (simp add: idx_def)
  finally have run: "vmm_unmap s x v (lv j) (lv k)
    = ok (push_bit 12 (pte_get_ppn e), s\<lparr>mem := (mem s)(slot y (idx v k) \<mapsto> 0)\<rparr>)" .
  have nb: "T (path v L k @ [idx v k]) = None"
  proof (rule ccontr)
    assume "T (path v L k @ [idx v k]) \<noteq> None"
    then have "leaf_at s y (idx v k) = None"
      using pt_inv_entry [OF inv y(1) i] branch_not_leaf
      by (auto simp: entry_ok_def leaf_at_def Let_def split: option.splits)
    with y(2) show False by simp
  qed
  have "changes_only (ran T) s (s\<lparr>mem := (mem s)(slot y (idx v k) \<mapsto> 0)\<rparr>)"
    by (rule changes_only_mono [OF changes_only_set_cell [OF _ i]])
      (use pt_inv_table [OF inv y(1)] y(1) in \<open>auto simp: ran_def\<close>)
  with run set_entry [OF inv fl y(1) nb i, of 0] show ?thesis by (auto simp: p simp del: One_nat_def)
qed

section \<open>virt_to_phys\<close>

text \<open>Translation in a map of leaves: the first leaf on the way down covers the address.\<close>

fun xlate :: "nat \<Rightarrow> (nat list \<rightharpoonup> u64) \<Rightarrow> nat \<Rightarrow> u64 \<Rightarrow> u64 option" where
  "xlate L A 0 v = None"
| "xlate L A (Suc k) v =
     (case A (path v L k) of
        Some e \<Rightarrow> Some ((push_bit 12 (pte_get_ppn e) AND NOT (level_mask (lv (Suc k))))
                        OR (v AND level_mask (lv (Suc k))))
      | None \<Rightarrow> xlate L A k v)"

lemma leaves_no_table:
  assumes inv: "pt_inv s L T xs" and T: "T (path v L j) = None" and j: "j \<le> L"
  shows "xlate L (leaves s T) j v = None"
  using T j
proof (induction j)
  case (Suc j)
  have p: "path v L j = path v L (Suc j) @ [idx v (Suc j)]" using Suc.prems(2) by (intro path_Suc) simp
  have "T (path v L j) = None"
    using Suc.prems(1) pt_inv_prefix [OF inv, of "path v L (Suc j)" "idx v (Suc j)"]
    by (cases "T (path v L j)") (auto simp: p)
  moreover have "leaves s T (path v L j) = None" using Suc.prems(1) by (simp add: p leaves_snoc)
  ultimately show ?case using Suc by simp
qed simp

lemma walk_step:
  assumes e: "mem s (slot x (unat (va_index v l))) = Some e" and i: "unat (va_index v l) < 512"
  shows "walk_virt s x v l =
    (if is_leaf e then ok (Inr ((push_bit 12 (pte_get_ppn e) AND NOT (level_mask l)) OR (v AND level_mask l)))
     else if is_branch e then walk_virt s (entry_table s e) v (level_sub l 1)
     else ok (Inl ''Table not found''))"
  by (subst walk_virt.simps) (use assms in simp)

lemma walk_xlate:
  assumes inv: "pt_inv s L T xs"
  shows "T (path v L j) = Some x \<Longrightarrow> j \<le> L \<Longrightarrow> 0 < j \<Longrightarrow>
    walk_virt s x v (lv j) =
      ok (case xlate L (leaves s T) j v of Some a \<Rightarrow> Inr a | None \<Rightarrow> Inl ''Table not found'')"
proof (induction j arbitrary: x)
  case (Suc j)
  have L5: "L \<le> 5" using pt_inv_levels [OF inv] by simp
  have i: "idx v (Suc j) < 512" using Suc.prems(2) L5 by (intro idx_less) simp_all
  have p: "path v L j = path v L (Suc j) @ [idx v (Suc j)]" using Suc.prems(2) by (intro path_Suc) simp
  obtain e where e: "mem s (slot x (idx v (Suc j))) = Some e" "entry_ok s (T (path v L j)) e"
    using pt_inv_entry [OF inv Suc.prems(1) i] by (auto simp: p)
  note step = walk_step [of s x v "lv (Suc j)", OF e(1) [unfolded idx_def] i [unfolded idx_def]]
  have lf: "leaves s T (path v L j) = (if is_leaf e then Some e else None)"
    using i e(1) by (simp add: p leaves_snoc Suc.prems(1) leaf_at_def)
  show ?case
  proof (cases "T (path v L j)")
    case (Some y)
    then have b: "is_branch e" "entry_table s e = y" using e(2) by (simp_all add: entry_ok_def)
    have "length (path v L j) < L" using pt_inv_table [OF inv Some] by simp
    then have "0 < j" using Suc.prems(2) by simp
    moreover have "level_sub (lv (Suc j)) 1 = lv j" using level_sub_lv [of "Suc j"] Suc.prems(2) L5 by simp
    ultimately show ?thesis
      using Suc.IH [OF Some] Suc.prems(2) step b lf branch_not_leaf [OF b(1)] by simp
  next
    case None
    then have "\<not> is_branch e" using e(2) branch_not_leaf by (auto simp: entry_ok_def)
    moreover have "xlate L (leaves s T) j v = None"
      using Suc.prems(2) by (intro leaves_no_table [OF inv None]) simp
    ultimately show ?thesis using step lf by simp
  qed
qed simp

section \<open>Walks that panic\<close>

text \<open>Descending to the table of level \<open>m\<close> on the path, when it exists.\<close>

lemma walk_to:
  assumes inv: "pt_inv s L T xs" and y: "T (path v L m) = Some y" and m: "k \<le> m" "0 < m"
  shows "m \<le> j \<Longrightarrow> j \<le> L \<Longrightarrow> T (path v L j) = Some x \<Longrightarrow>
      vmm_map s x v phys (lv j) (lv k) flags = vmm_map s y v phys (lv m) (lv k) flags
      \<and> vmm_unmap s x v (lv j) (lv k) = vmm_unmap s y v (lv m) (lv k)"
proof (induction j arbitrary: x rule: dec_induct)
  case base
  with y show ?case by simp
next
  case (step j)
  have j5: "Suc j \<le> 5" using pt_inv_levels [OF inv] step.prems(1) by simp
  have pj: "path v L j = path v L (Suc j) @ [idx v (Suc j)]" using step.prems(1) by (intro path_Suc) simp
  obtain z where z: "T (path v L j) = Some z"
    using path_tables [OF inv, of v m j] y step.hyps step.prems(1) by auto
  have lev: "lv (Suc j) \<noteq> lv k" "level_sub (lv (Suc j)) 1 = lv j" "idx v (Suc j) < 512"
    using level_sub_lv [of "Suc j"] j5 step.hyps m lv_inj [of "Suc j" k] idx_less [of "Suc j" v] by simp_all
  have ix: "unat (va_index v (lv (Suc j))) = idx v (Suc j)" by (simp add: idx_def)
  show ?case
    using map_descends [OF inv step.prems(2) z [unfolded pj] ix lev(3,1)]
      unmap_descends [OF inv step.prems(2) z [unfolded pj] ix lev(3,1)]
      step.IH [OF _ z] step.prems(1) lev(2) by simp
qed

lemma map_leaf_panics:
  assumes inv: "pt_inv s L T xs" and T: "T p = Some x" and leaf: "leaf_at s x i = Some e"
    and i: "unat (va_index v l) = i" "l \<noteq> l'"
  shows "vmm_map s x v phys l l' flags = fail (Panic ''Didnt expect leaf'')"
proof -
  have e: "i < 512" "is_leaf e" using leaf by (auto simp: leaf_at_def Let_def split: if_splits)
  have x: "frame_ok s x" using pt_inv_table [OF inv T] by simp
  have "mem s (slot x i) = Some e"
    using leaf frame_ok_mapped [OF x e(1)] by (auto simp: leaf_at_def Let_def split: if_splits)
  note entry = table_entry [OF x e(1) this]
  have "\<not> is_branch e" using e(2) branch_not_leaf by blast
  then show ?thesis by (subst vmm_map.simps) (simp add: entry i e(2) del: rbind_assoc)
qed

lemma map_walk_panics:
  assumes inv: "pt_inv s L T xs" and root: "T [] = Some x" and k: "0 < k" "k \<le> j" "j < L"
    and leaf: "leaves s T (path v L j) = Some e"
  shows "vmm_map s x v phys (lv L) (lv k) flags = fail (Panic ''Didnt expect leaf'')"
proof -
  have L5: "Suc j \<le> 5" using pt_inv_levels [OF inv] k by simp
  have pj: "path v L j = path v L (Suc j) @ [idx v (Suc j)]" using k by (intro path_Suc) simp
  obtain y where y: "T (path v L (Suc j)) = Some y" "leaf_at s y (idx v (Suc j)) = Some e"
    using leaf unfolding pj leaves_snoc by (auto split: option.splits)
  have "vmm_map s x v phys (lv L) (lv k) flags = vmm_map s y v phys (lv (Suc j)) (lv k) flags"
    using walk_to [OF inv y(1), of k L x phys flags] root k by simp
  also have "\<dots> = fail (Panic ''Didnt expect leaf'')"
    using L5 k lv_inj [of "Suc j" k] by (intro map_leaf_panics [OF inv y]) (simp_all add: idx_def)
  finally show ?thesis .
qed

text \<open>The lowest table on the path of \<open>v\<close>.\<close>

lemma lowest_table:
  assumes "pt_inv s L T xs" "0 < k" "k \<le> L"
  shows "\<exists>m y. k \<le> m \<and> m \<le> L \<and> T (path v L m) = Some y \<and> (k = m \<or> T (path v L (m - 1)) = None)"
proof -
  let ?P = "\<lambda>m. k \<le> m \<and> m \<le> L \<and> T (path v L m) \<noteq> None"
  have top: "?P L" using assms by (simp add: pt_inv_def)
  define m where "m = (LEAST m. ?P m)"
  have m: "?P m" unfolding m_def by (rule LeastI [of ?P, OF top])
  have "k = m \<or> T (path v L (m - 1)) = None"
  proof (rule ccontr)
    assume c: "\<not> (k = m \<or> T (path v L (m - 1)) = None)"
    with m have "?P (m - 1)" by auto
    then have "m \<le> m - 1" unfolding m_def by (rule Least_le)
    with c m assms(2) show False by auto
  qed
  with m show ?thesis by auto
qed

lemma unmap_panics:
  assumes inv: "pt_inv s L T xs" and root: "T [] = Some x" and k: "0 < k" "k \<le> L"
    and none: "leaves s T (path v L (k - 1)) = None"
  shows "\<exists>msg. vmm_unmap s x v (lv L) (lv k) = fail (Panic msg)"
proof -
  obtain m y where m: "k \<le> m" "m \<le> L" "T (path v L m) = Some y" "k = m \<or> T (path v L (m - 1)) = None"
    using lowest_table [OF inv k] by blast
  have m5: "m \<le> 5" "0 < m" using pt_inv_levels [OF inv] m k by simp_all
  have i: "idx v m < 512" using m5 by (intro idx_less)
  have ix: "unat (va_index v (lv m)) = idx v m" by (simp add: idx_def)
  have pm: "path v L (m - 1) = path v L m @ [idx v m]" using m5 m by (intro path_pred)
  have eq: "vmm_unmap s x v (lv L) (lv k) = vmm_unmap s y v (lv m) (lv k)"
    using walk_to [OF inv m(3,1) m5(2), of L x phys flags for phys flags] root m by simp
  show ?thesis
  proof (cases "k = m")
    case True
    then have "leaf_at s y (idx v m) = None" using none m(3) unfolding True pm leaves_snoc by simp
    with eq unmap_target [OF inv m(3) ix i] True show ?thesis by simp
  next
    case False
    then have "T (path v L m @ [idx v m]) = None" "lv m \<noteq> lv k"
      using m(1,4) m5 unfolding pm by (simp_all add: lv_inj)
    with eq unmap_stuck [OF inv m(3) _ ix i, of "lv k"] show ?thesis by simp
  qed
qed

end
