(* ===== verification/Pmm_Runs.thy ===== *)
theory Pmm_Runs
  imports Pmm
begin

text \<open>
  \<open>claim_continuous\<close> and \<open>claim_aligned\<close> of LSD/src/memory/pmm.rs against a naive specification:
  \<open>first_run n amask xs\<close> is the first position of the free list \<open>xs\<close> at which \<open>n\<close> frames with
  consecutive addresses start, the first of them with \<open>address AND amask = 0\<close>. The single pass of
  the code finds that position; what it does then depends on whether the run ends the list.
\<close>

section \<open>Runs of frames\<close>

definition frames_from :: "u64 \<Rightarrow> nat \<Rightarrow> u64 list" where
  "frames_from b n = map (\<lambda>k. b + 0x1000 * of_nat k) [0..<n]"

definition window :: "nat \<Rightarrow> u64 \<Rightarrow> u64 list \<Rightarrow> bool" where
  "window n amask ys \<longleftrightarrow>
     n \<le> length ys \<and> take n ys = frames_from (hd ys) n \<and> hd ys AND amask = 0"

fun first_run :: "nat \<Rightarrow> u64 \<Rightarrow> u64 list \<Rightarrow> nat option" where
  "first_run n amask [] = None"
| "first_run n amask (x # xs) =
     (if window n amask (x # xs) then Some 0 else map_option Suc (first_run n amask xs))"

lemma length_frames_from [simp]: "length (frames_from b n) = n"
  by (simp add: frames_from_def)

lemma frames_from_1 [simp]: "frames_from b (Suc 0) = [b]"
  by (simp add: frames_from_def)

lemma frames_from_Suc: "frames_from b (Suc n) = frames_from b n @ [b + 0x1000 * of_nat n]"
  by (simp add: frames_from_def)

lemma nth_frames_from [simp]: "k < n \<Longrightarrow> frames_from b n ! k = b + 0x1000 * of_nat k"
  by (simp add: frames_from_def)

lemma hd_frames_from: "0 < n \<Longrightarrow> hd (frames_from b n) = b"
  by (cases n) (simp_all add: frames_from_def hd_map del: upt_Suc)

lemma last_frames_from: "0 < n \<Longrightarrow> last (frames_from b n) = b + 0x1000 * of_nat (n - 1)"
  by (cases n) (simp_all add: frames_from_Suc)

lemma window_steps:
  assumes "window n amask ys" "Suc j < n"
  shows "ys ! Suc j = ys ! j + 0x1000"
proof -
  have "take n ys ! Suc j = take n ys ! j + 0x1000"
    using assms by (simp add: window_def algebra_simps)
  with assms show ?thesis by simp
qed

lemma first_run_Some:
  "\<lbrakk>i < length xs; window n amask (drop i xs); \<And>j. j < i \<Longrightarrow> \<not> window n amask (drop j xs)\<rbrakk>
    \<Longrightarrow> first_run n amask xs = Some i"
proof (induction xs arbitrary: i)
  case (Cons x xs)
  show ?case
  proof (cases i)
    case 0
    with Cons.prems show ?thesis by simp
  next
    case (Suc i')
    have "first_run n amask xs = Some i'"
      using Cons.prems Suc by (intro Cons.IH) fastforce+
    moreover have "\<not> window n amask (x # xs)" using Cons.prems(3)[of 0] Suc by simp
    ultimately show ?thesis using Suc by simp
  qed
qed simp

lemma first_run_None:
  "(\<And>j. j < length xs \<Longrightarrow> \<not> window n amask (drop j xs)) \<Longrightarrow> first_run n amask xs = None"
proof (induction xs)
  case (Cons x xs)
  have "\<not> window n amask (x # xs)" using Cons.prems[of 0] by simp
  moreover have "first_run n amask xs = None" using Cons.prems by (intro Cons.IH) fastforce
  ultimately show ?case by simp
qed simp

lemma first_run_window:
  "first_run n amask xs = Some i \<Longrightarrow> i < length xs \<and> window n amask (drop i xs)"
  by (induction xs arbitrary: i) (auto split: if_splits)

section \<open>Unlinking a run\<close>

text \<open>The links around a run \<open>run\<close> of the list, and the length without it.\<close>

lemma run_links:
  assumes inv: "fl_inv s (pre @ run @ post)" and run: "run \<noteq> []"
  shows "dseg (mem s) 0 pre (hd run)" "dseg (mem s) (last run) post 0"
    "mem s (prev_of (hd run)) = Some (last_or pre 0)"
    "mem s (next_of (last run)) = Some (first_or post 0)"
proof -
  obtain r where r: "run = hd run # r" using run by (cases run) auto
  obtain r' where r': "run = r' @ [last run]" using run by (metis append_butlast_last_id)
  have "dseg (mem s) 0 (pre @ run @ post) 0" using inv by (simp add: fl_inv_def)
  then have d: "dseg (mem s) 0 pre (first_or (run @ post) 0)"
    "dseg (mem s) (last_or pre 0) run (first_or post 0)"
    "dseg (mem s) (last_or run (last_or pre 0)) post 0"
    by (simp_all only: dseg_append)
  have "first_or (run @ post) 0 = hd run" by (subst r) simp
  with d(1) show "dseg (mem s) 0 pre (hd run)" by simp
  show "dseg (mem s) (last run) post 0" using d(3) run by (simp add: last_or_def)
  show "mem s (prev_of (hd run)) = Some (last_or pre 0)" using d(2) by (subst (asm) r) simp
  show "mem s (next_of (last run)) = Some (first_or post 0)" using d(2) by (subst (asm) r') simp
qed

lemma run_length:
  assumes "fl_inv s (pre @ run @ post)" and "unat frames = length run"
  shows "unat (fl_len s - frames) = length (pre @ post)"
proof -
  have "unat (fl_len s) = length (pre @ run @ post)" using assms(1) by (simp add: fl_inv_def)
  moreover from this have "frames \<le> fl_len s" using assms(2) by (simp add: word_le_nat_alt)
  ultimately show ?thesis using assms(2) by (simp add: unat_sub)
qed

text \<open>The run is at the head of the list: its successor becomes the head.\<close>

lemma take_run_head:
  assumes inv: "fl_inv s (run @ q # post)" and run: "run \<noteq> []" and frames: "unat frames = length run"
  shows "\<exists>t. fl_take_run s frames (hd run) (last run) = ok (hd run, t)
             \<and> fl_inv t (q # post) \<and> changes_only {q} s t"
proof -
  note okf = fl_inv_frame_ok [OF inv]
  have inv': "fl_inv s ([] @ run @ q # post)" using inv by simp
  note links = run_links [OF inv' run]
  have q: "frame_ok s q" "q \<notin> set post" using inv by (auto simp: fl_inv_def)
  have word_q: "slot y i \<noteq> prev_of q" if "y \<in> set post" "i < 512" for y i
    using okf [of y] q entry_words_differ [of s y q i 0] that by auto
  let ?m = "(mem s)(prev_of q \<mapsto> 0)"
  let ?t = "s\<lparr>fl_head := q, mem := ?m, fl_len := fl_len s - frames\<rparr>"
  have step: "fl_take_run s frames (hd run) (last run) = ok (hd run, ?t)"
    using links(3,4) frame_ok_mapped [OF q(1), of 0] by (auto simp: fl_take_run_def)
  have ch: "changes_only {q} s ?t"
    using q(1) by (auto simp: changes_only_def intro!: mem_only_upd)
  have "dseg ?m q post 0 = dseg (mem s) q post 0" by (rule dseg_cong) (use word_q in simp)
  then have "dseg ?m 0 (q # post) 0"
    using links(2) entry_words_differ [OF q(1,1)] by simp
  moreover have "\<forall>y \<in> set (q # post). frame_ok ?t y"
    using okf by (auto simp only: changes_only_frame_ok [OF ch] list.set set_append)
  ultimately have "fl_inv ?t (q # post)"
    using inv run run_length [OF inv' frames] by (simp add: fl_inv_def)
  with step ch show ?thesis by blast
qed

text \<open>The run is inside the list: its neighbours \<open>p\<close> and \<open>q\<close> are linked.\<close>

lemma take_run_mid:
  assumes inv: "fl_inv s ((ps @ [p]) @ run @ q # post)" and run: "run \<noteq> []"
    and frames: "unat frames = length run"
  shows "\<exists>t. fl_take_run s frames (hd run) (last run) = ok (hd run, t)
             \<and> fl_inv t (ps @ p # q # post) \<and> changes_only {p, q} s t"
proof -
  note okf = fl_inv_frame_ok [OF inv] and links = run_links [OF inv run]
  have pq: "frame_ok s p" "frame_ok s q" "p \<noteq> q" "p \<noteq> 0"
    using okf [of p] inv frame_ok_ge [of s p] by (auto simp: fl_inv_def)
  have other: "slot y i \<noteq> slot p j \<and> slot y i \<noteq> slot q j" if "y \<in> set ps \<union> set post" "i < 512" "j < 512" for y i j
    using that okf pq entry_words_differ [of s y p i j] entry_words_differ [of s y q i j] inv
    by (auto simp: fl_inv_def)
  note differ = entry_words_differ [OF pq(1,2)] entry_words_differ [OF pq(2,1)]
    entry_words_differ [OF pq(1,1)] entry_words_differ [OF pq(2,2)]
  let ?m = "(mem s)(next_of p \<mapsto> q, prev_of q \<mapsto> p)"
  let ?t = "s\<lparr>mem := ?m, fl_len := fl_len s - frames\<rparr>"
  have step: "fl_take_run s frames (hd run) (last run) = ok (hd run, ?t)"
    using links(3,4) pq differ frame_ok_mapped [OF pq(2), of 0] frame_ok_mapped [OF pq(1), of 1]
    by (auto simp: fl_take_run_def)
  have ch: "changes_only {p, q} s ?t"
    using pq by (auto simp: changes_only_def intro!: mem_only_upd)
  have "dseg ?m 0 ps p = dseg (mem s) 0 ps p" "dseg ?m q post 0 = dseg (mem s) q post 0"
    by (rule dseg_cong, use other in simp)+
  then have "dseg ?m 0 (ps @ p # q # post) 0"
    using links(1,2) differ pq(3) by simp
  moreover have "\<forall>y \<in> set (ps @ p # q # post). frame_ok ?t y"
    using okf by (auto simp only: changes_only_frame_ok [OF ch] list.set set_append)
  moreover have "hd (ps @ p # q # post) = hd ((ps @ [p]) @ run @ q # post)" by (cases ps) simp_all
  moreover have "distinct (ps @ p # q # post)" using inv by (auto simp: fl_inv_def)
  ultimately have "fl_inv ?t (ps @ p # q # post)"
    using inv run run_length [OF inv frames] by (simp add: fl_inv_def)
  with step ch show ?thesis by blast
qed

lemma fl_take_run_inv:
  assumes inv: "fl_inv s (pre @ run @ q # post)" and "run \<noteq> []" and "unat frames = length run"
  shows "\<exists>t. fl_take_run s frames (hd run) (last run) = ok (hd run, t)
             \<and> fl_inv t (pre @ q # post) \<and> changes_only (set (pre @ q # post)) s t"
proof (cases pre rule: rev_cases)
  case Nil
  with assms take_run_head [of s run q post frames] show ?thesis
    by (auto intro: changes_only_mono)
next
  case (snoc ps p)
  with assms take_run_mid [of s ps p run q post frames] show ?thesis
    by (force intro: changes_only_mono)
qed

text \<open>The run ends the list: the code stores through the null pointer \<open>next\<close>.\<close>

lemma fl_take_run_tail:
  assumes inv: "fl_inv s (pre @ run)" and run: "run \<noteq> []" and null: "mem s 0 = None"
  shows "fl_take_run s frames (hd run) (last run) = fail (PageFault 0)"
proof -
  have "fl_inv s (pre @ run @ [])" using inv by simp
  note links = run_links [OF this run]
  show ?thesis
  proof (cases pre rule: rev_cases)
    case Nil
    with links null show ?thesis by (simp add: fl_take_run_def slot_0)
  next
    case (snoc ps p)
    have p: "frame_ok s p" "p \<noteq> 0"
      using inv snoc frame_ok_ge [of s p] by (auto simp: fl_inv_def)
    have "next_of p \<noteq> 0"
      using p(1) frame_ok_mapped [OF p(1), of 1] null by auto
    with links null snoc p frame_ok_mapped [OF p(1), of 1] show ?thesis
      by (auto simp: fl_take_run_def slot_0)
  qed
qed

section \<open>The scan\<close>

text \<open>Where the loop stands: \<open>run\<close> is the contiguous stretch from \<open>base_entry\<close> to \<open>current_entry\<close>,
  and no window starts before it.\<close>

definition scan_at :: "nat \<Rightarrow> u64 \<Rightarrow> u64 list \<Rightarrow> u64 list \<Rightarrow> u64 list \<Rightarrow> u64 list \<Rightarrow> bool" where
  "scan_at n amask xs pre run rest \<longleftrightarrow>
     xs = pre @ run @ rest \<and> run \<noteq> [] \<and> length run \<le> n
     \<and> run = frames_from (hd run) (length run)
     \<and> (1 < length run \<longrightarrow> hd run AND amask = 0)
     \<and> (\<forall>j < length pre. \<not> window n amask (drop j xs))"

lemma scan_found:
  assumes "scan_at n amask xs pre run rest" "length run = n" "1 < n"
  shows "first_run n amask xs = Some (length pre)"
proof (rule first_run_Some)
  show "window n amask (drop (length pre) xs)"
    using assms by (auto simp: scan_at_def window_def)
qed (use assms in \<open>auto simp: scan_at_def\<close>)

lemma frames_from_link:
  assumes "run = frames_from (hd run) (length run)" "run \<noteq> []" "r = last run + 0x1000"
  shows "run @ [r] = frames_from (hd run) (Suc (length run))"
proof -
  have "last run = hd run + 0x1000 * of_nat (length run - 1)"
    using assms(1,2) last_frames_from [of "length run" "hd run"] by (metis length_greater_0_conv)
  then have "r = hd run + 0x1000 * of_nat (length run)"
    using assms(2,3) by (cases run) (simp_all add: algebra_simps)
  then show ?thesis using assms(1) by (simp add: frames_from_Suc)
qed

lemma scan_extend:
  assumes "scan_at n amask xs pre run (r # rest)" "length run < n"
    and "last run + 0x1000 = r" "hd run AND amask = 0"
  shows "scan_at n amask xs pre (run @ [r]) rest"
proof -
  have run: "run = frames_from (hd run) (length run)" "run \<noteq> []" using assms(1) by (auto simp: scan_at_def)
  have hd: "hd (run @ [r]) = hd run" using run(2) by simp
  have "run @ [r] = frames_from (hd (run @ [r])) (length (run @ [r]))"
    unfolding hd using frames_from_link [OF run assms(3) [symmetric]] by simp
  moreover note hd
  moreover have "(pre @ run @ r # rest) = pre @ (run @ [r]) @ rest" by simp
  ultimately show ?thesis using assms unfolding scan_at_def by (metis (no_types, lifting) length_append_singleton Suc_leI snoc_eq_iff_butlast)
qed

text \<open>When the run breaks, none of its frames starts a window: a window would cross the break.\<close>

lemma scan_no_window:
  assumes at: "scan_at n amask xs pre run rest" and short: "length run < n"
    and break: "\<forall>r rest'. rest = r # rest' \<longrightarrow> last run + 0x1000 \<noteq> r \<or> hd run AND amask \<noteq> 0"
    and j: "length pre \<le> j" "j < length pre + length run"
  shows "\<not> window n amask (drop j xs)"
proof
  assume w: "window n amask (drop j xs)"
  let ?i = "j - length pre"
  have xs: "xs = pre @ run @ rest" using at by (simp add: scan_at_def)
  have ys: "drop j xs = drop ?i run @ rest" using xs j by simp
  have i: "?i < length run" using j by simp
  obtain r rest' where rest: "rest = r # rest'"
    using w short ys i by (cases rest) (auto simp: window_def)
  define k where "k = length run - ?i - 1"
  have k: "Suc k < n" "?i + k = length run - 1" using short i by (auto simp: k_def)
  have "drop j xs ! Suc k = drop j xs ! k + 0x1000"
    by (rule window_steps [OF w k(1)])
  moreover have "drop j xs ! Suc k = r" using ys i rest by (auto simp: k_def nth_append)
  moreover have "drop j xs ! k = last run"
    using ys i k last_conv_nth [of run] by (cases "run = []") (auto simp: k_def nth_append)
  ultimately have "last run + 0x1000 = r" by simp
  with break rest have un: "hd run AND amask \<noteq> 0" by simp
  then have "length run = 1" using at by (cases "1 < length run"; cases run) (auto simp: scan_at_def)
  then have "hd (drop j xs) = hd run" using ys i by (cases run) auto
  with w un show False by (simp add: window_def)
qed

lemma scan_restart:
  assumes at: "scan_at n amask xs pre run (r # rest)" and "length run < n" "1 \<le> n"
    and "\<not> (last run + 0x1000 = r \<and> hd run AND amask = 0)"
  shows "scan_at n amask xs (pre @ run) [r] rest"
proof -
  have "\<not> window n amask (drop j xs)" if "j < length (pre @ run)" for j
  proof (cases "j < length pre")
    case True
    with at show ?thesis unfolding scan_at_def by blast
  next
    case False
    with that assms show ?thesis by (intro scan_no_window [OF at]) auto
  qed
  with at assms(3) show ?thesis by (auto simp: scan_at_def)
qed

lemma scan_exhausted:
  assumes at: "scan_at n amask xs pre run []" and "length run < n"
  shows "first_run n amask xs = None"
proof (rule first_run_None)
  fix j assume "j < length xs"
  with at have "j < length pre \<or> length pre \<le> j \<and> j < length pre + length run"
    by (auto simp: scan_at_def)
  then show "\<not> window n amask (drop j xs)"
    using at assms(2) scan_no_window [OF at assms(2)] by (auto simp: scan_at_def)
qed

section \<open>What the scan returns\<close>

text \<open>The outcome that the specification \<open>first_run\<close> gives for the list \<open>xs\<close>.\<close>

definition run_outcome ::
  "machine \<Rightarrow> u64 list \<Rightarrow> nat \<Rightarrow> u64 \<Rightarrow> (string + u64 \<times> machine) result \<Rightarrow> bool" where
  "run_outcome s xs n amask out =
     (case first_run n amask xs of
        None \<Rightarrow> out = ok (Inl ''Couldnt find contiguous frames'')
      | Some i \<Rightarrow>
          (if i + n = length xs then out = fail (PageFault 0)
           else \<exists>t. out = ok (Inr (xs ! i, t)) \<and> fl_inv t (take i xs @ drop (i + n) xs)
                    \<and> changes_only (set (take i xs @ drop (i + n) xs)) s t))"

lemma run_outcome_take:
  assumes inv: "fl_inv s xs" and null: "mem s 0 = None"
    and at: "scan_at n amask xs pre run rest" and len: "length run = n" "unat frames = n" "1 < n"
  shows "run_outcome s xs n amask
           (rbind (fl_take_run s frames (hd run) (last run)) (\<lambda>r. ok (Inr r)))"
proof -
  have xs: "xs = pre @ run @ rest" and run: "run \<noteq> []" using at by (simp_all add: scan_at_def)
  have found: "first_run n amask xs = Some (length pre)" using at len by (simp add: scan_found)
  show ?thesis
  proof (cases rest)
    case Nil
    then have "fl_take_run s frames (hd run) (last run) = fail (PageFault 0)"
      using inv xs run null fl_take_run_tail [of s pre run frames] by simp
    with found xs Nil len show ?thesis by (simp add: run_outcome_def)
  next
    case (Cons q post)
    obtain t where "fl_take_run s frames (hd run) (last run) = ok (hd run, t)"
      "fl_inv t (pre @ q # post)" "changes_only (set (pre @ q # post)) s t"
      using fl_take_run_inv [of s pre run q post frames] inv xs Cons run len by auto
    moreover have "xs ! length pre = hd run" using xs run by (simp add: nth_append hd_conv_nth)
    ultimately show ?thesis using found xs Cons len by (auto simp: run_outcome_def)
  qed
qed

lemma fl_scan_outcome:
  assumes inv: "fl_inv s xs" and null: "mem s 0 = None" and frames: "unat frames = n" "1 < n"
  shows "scan_at n amask xs pre run rest
    \<Longrightarrow> run_outcome s xs n amask
          (fl_scan (Suc (length rest)) frames amask (hd run) (last run) (of_nat (length run)) s)"
proof (induction rest arbitrary: pre run)
  case Nil
  have xs: "xs = pre @ run" and run: "run \<noteq> []" using Nil by (simp_all add: scan_at_def)
  have len: "length run < 2 ^ 64" using fl_inv_length [OF inv] xs by simp
  show ?case
  proof (cases "length run = n")
    case True
    then show ?thesis using run_outcome_take [OF inv null Nil True frames] of_nat_of_unat [OF frames(1)] by simp
  next
    case False
    then have "of_nat (length run) \<noteq> frames" using len frames by (auto simp: unat_of_nat)
    moreover have "mem s (next_of (last run)) = Some 0"
      using run_links(4) [of s pre run "[]"] inv xs run by simp
    moreover have "first_run n amask xs = None"
      by (rule scan_exhausted [OF Nil]) (use Nil False in \<open>simp add: scan_at_def\<close>)
    ultimately show ?thesis by (simp add: run_outcome_def)
  qed
next
  case (Cons r rest)
  have xs: "xs = pre @ run @ r # rest" and run: "run \<noteq> []" and le: "length run \<le> n"
    using Cons.prems by (simp_all add: scan_at_def)
  have len: "length run < 2 ^ 64" using fl_inv_length [OF inv] xs by simp
  show ?case
  proof (cases "length run = n")
    case True
    then show ?thesis using run_outcome_take [OF inv null Cons.prems True frames] of_nat_of_unat [OF frames(1)] by simp
  next
    case False
    then have short: "length run < n" and ne: "of_nat (length run) \<noteq> frames"
      using le len frames by (auto simp: unat_of_nat)
    have nxt: "mem s (next_of (last run)) = Some r"
      using run_links(4) [of s pre run "r # rest"] inv xs run by simp
    show ?thesis
    proof (cases "last run + 0x1000 = r \<and> hd run AND amask = 0")
      case True
      then have "scan_at n amask xs pre (run @ [r]) rest"
        using scan_extend [OF Cons.prems short] by simp
      from Cons.IH [OF this] show ?thesis using True ne nxt run by (simp add: add.commute)
    next
      case False
      then have "scan_at n amask xs (pre @ run) [r] rest"
        using scan_restart [OF Cons.prems short] frames by simp
      from Cons.IH [OF this] show ?thesis using False ne nxt by auto
    qed
  qed
qed

lemma scan_at_start: "fl_inv s (x # xs) \<Longrightarrow> 1 < n \<Longrightarrow> scan_at n amask (x # xs) [] [x] xs"
  by (simp add: scan_at_def)

lemma fl_scan_list_outcome:
  assumes inv: "fl_inv s xs" and null: "mem s 0 = None" and frames: "1 < unat frames"
  shows "run_outcome s xs (unat frames) amask
           (fl_scan (unat (fl_len s)) frames amask (fl_head s) (fl_head s) 1 s)"
proof -
  obtain x ys where xs: "xs = x # ys" using inv by (cases xs) (auto simp: fl_inv_def)
  then have "fl_head s = x" "unat (fl_len s) = Suc (length ys)" using inv by (auto simp: fl_inv_def)
  with fl_scan_outcome [OF inv null refl frames, of amask "[]" "[x]" ys] inv frames show ?thesis
    by (simp add: scan_at_start xs)
qed

end
