(* ===== verification/Translation.thy ===== *)
theory Translation
  imports Address_Space Pmm_Runs
begin

text \<open>
  The address space of the running table: \<open>aspace s A xs D\<close> says that the table satp points to is
  the root of a table tree that denotes the map \<open>A\<close> of leaves, beside the free list \<open>xs\<close> and the
  frames \<open>D\<close> in use for data. The
  operations of vmm.rs on the running table are proved against it: \<open>map\<close> at \<open>Level1\<close>, \<open>unmap\<close>,
  \<open>virt_to_phys\<close>, and the loops of \<open>Vmm::alloc\<close> and \<open>Vmm::free\<close>.
\<close>

section \<open>The running table\<close>

text \<open>\<open>D\<close> are the frames in use for data: neither free nor tables.\<close>

abbreviation depth :: "machine \<Rightarrow> nat" where
  "depth s \<equiv> unat (levels s)"

definition in_use :: "machine \<Rightarrow> (nat list \<rightharpoonup> u64) \<Rightarrow> u64 list \<Rightarrow> u64 set \<Rightarrow> bool" where
  "in_use s T xs D \<longleftrightarrow> D \<inter> set xs = {} \<and> D \<inter> ran T = {} \<and> (\<forall>x \<in> D. frame_ok s x)"

definition aspace :: "machine \<Rightarrow> (nat list \<rightharpoonup> u64) \<Rightarrow> u64 list \<Rightarrow> u64 set \<Rightarrow> bool" where
  "aspace s A xs D \<longleftrightarrow>
     (\<exists>T. fl_inv s xs \<and> pt_inv s (depth s) T xs \<and> T [] = Some (current_table s)
          \<and> A = leaves s T \<and> in_use s T xs D)"

text \<open>The same for the tree under any root, a table that is not (or not yet) in satp.\<close>

definition tree :: "u64 \<Rightarrow> machine \<Rightarrow> (nat list \<rightharpoonup> u64) \<Rightarrow> u64 list \<Rightarrow> u64 set \<Rightarrow> bool" where
  "tree root s A xs D \<longleftrightarrow>
     (\<exists>T. fl_inv s xs \<and> pt_inv s (depth s) T xs \<and> T [] = Some root \<and> A = leaves s T \<and> in_use s T xs D)"

lemma aspace_tree: "aspace s A xs D = tree (current_table s) s A xs D"
  by (simp add: aspace_def tree_def)

text \<open>No leaf covers \<open>v\<close> above the pages of 4096 bytes.\<close>

definition no_superpage :: "nat \<Rightarrow> (nat list \<rightharpoonup> u64) \<Rightarrow> u64 \<Rightarrow> bool" where
  "no_superpage L A v \<longleftrightarrow> (\<forall>i \<in> {1..<L}. A (path v L i) = None)"

definition page_entry :: "machine \<Rightarrow> (nat list \<rightharpoonup> u64) \<Rightarrow> u64 \<Rightarrow> u64 option" where
  "page_entry s A v = A (path v (depth s) 0)"

lemma load_level_lv: "load_level s = lv (depth s)"
  by (simp add: load_level_def lv_def unsigned_ucast_eq of_nat_unat ucast_id)

lemma changes_only_current:
  "changes_only F s t \<Longrightarrow> current_table t = current_table s \<and> depth t = depth s \<and> load_level t = load_level s
    \<and> hhdm t = hhdm s"
  by (simp add: changes_only_def current_table_def load_level_def)

lemma aspace_depth: "aspace s A xs D \<Longrightarrow> 0 < depth s \<and> depth s \<le> 5"
  by (auto simp: aspace_def dest: pt_inv_levels)

lemma aspace_fl: "aspace s A xs D \<Longrightarrow> fl_inv s xs"
  by (auto simp: aspace_def)

lemma no_superpage_upd: "no_superpage L A v \<Longrightarrow> no_superpage L (A(path w L 0 := e)) v"
proof -
  assume "no_superpage L A v"
  moreover have "path v L i \<noteq> path w L 0" if "1 \<le> i" "i < L" for i
    using that by (auto dest!: path_eq_length)
  ultimately show ?thesis by (simp add: no_superpage_def)
qed

lemma fence_fl_inv [simp]: "fl_inv (s\<lparr>fences := f\<rparr>) xs = fl_inv s xs"
  by (simp add: fl_inv_def frame_ok_def)

lemma fence_aspace [simp]: "aspace (s\<lparr>fences := f\<rparr>) A xs D = aspace s A xs D"
proof -
  have "pt_inv (s\<lparr>fences := f\<rparr>) L T xs = pt_inv s L T xs" for L T
    unfolding pt_inv_def frame_ok_def by (simp add: entry_ok_cong [of "s\<lparr>fences := f\<rparr>" s])
  moreover have "leaves (s\<lparr>fences := f\<rparr>) T = leaves s T" for T
    by (rule ext) (simp add: leaves_def leaf_at_def split: option.splits)
  ultimately show ?thesis by (simp add: aspace_def current_table_def in_use_def frame_ok_def)
qed

lemma flush_tlb_aspace [simp]: "aspace (flush_tlb va asid s) A xs D = aspace s A xs D"
  by (simp add: flush_tlb_def)

section \<open>map, unmap and virt_to_phys on it\<close>

text \<open>How much of the free list a call of \<open>map\<close> takes, and what it leaves alone.\<close>

lemma tree_map:
  assumes sp: "tree root s A xs D" and flags: "leaf_flags flags" and room: "depth s \<le> length xs"
    and free: "no_superpage (depth s) A v"
  shows "\<exists>t n. vmm_map s root v phys (load_level s) Level1 flags = ok t
    \<and> n < depth s \<and> tree root t (A(path v (depth s) 0 \<mapsto> leaf_entry phys flags)) (drop n xs) D
    \<and> hhdm t = hhdm s \<and> levels t = levels s \<and> satp t = satp s \<and> fences t = fences s
    \<and> (\<forall>x \<in> D. \<forall>i < 512. mem t (slot x i) = mem s (slot x i))"
proof -
  let ?L = "depth s"
  obtain T where T: "fl_inv s xs" "pt_inv s ?L T xs" "T [] = Some root" "A = leaves s T"
    "in_use s T xs D" using sp by (auto simp: tree_def)
  have L: "0 < ?L" "?L \<le> 5" using pt_inv_levels [OF T(2)] by simp_all
  let ?n = "missing T v ?L 1 ?L"
  have "?n \<le> ?L - 1" by (rule missing_le)
  then have n: "?n < ?L" using L(1) by simp
  have leaf_path: "T (path v ?L (1 - 1)) = None"
  proof (rule ccontr)
    assume "T (path v ?L (1 - 1)) \<noteq> None"
    then obtain y where "T (path v ?L 0) = Some y" by auto
    from pt_inv_table [OF T(2) this] show False by simp
  qed
  have "\<exists>t T'. vmm_map s root v phys (lv ?L) (lv 1) flags = ok t
    \<and> mapped_to s ?L T xs v ?L 1 (leaf_entry phys flags) t T'"
    using T L free n room leaf_path flags
    by (intro map_walk) (auto simp: no_superpage_def)
  then obtain t T' where t: "vmm_map s root v phys (lv ?L) Level1 flags = ok t"
    "mapped_to s ?L T xs v ?L 1 (leaf_entry phys flags) t T'" by auto
  have ch: "changes_only (ran T \<union> set xs) s t" using t(2) by (simp add: mapped_to_def)
  have "T' [] = Some root"
    using t(2) T(3) by (auto simp: mapped_to_def map_le_def dom_def)
  moreover have "in_use t T' (drop ?n xs) D"
  proof -
    have "ran T' \<subseteq> ran T \<union> set xs" using t(2) set_take_subset [of ?n xs] by (auto simp: mapped_to_def)
    then have "D \<inter> ran T' = {}" "D \<inter> set (drop ?n xs) = {}"
      using T(5) set_drop_subset [of ?n xs] by (auto simp: in_use_def)
    then show ?thesis using T(5) changes_only_frame_ok [OF ch] by (simp add: in_use_def)
  qed
  ultimately have "tree root t (A(path v ?L 0 \<mapsto> leaf_entry phys flags)) (drop ?n xs) D"
    using t(2) T(4) changes_only_current [OF ch] unfolding tree_def mapped_to_def by auto
  moreover have "mem t (slot x i) = mem s (slot x i)" if "x \<in> D" "i < 512" for x i
  proof (rule changes_only_cell [OF ch _ _ _ that(2)])
    show "page_aligned x" "x \<notin> ran T \<union> set xs" using T(5) that(1) by (auto simp: in_use_def)
    have "frame_ok s y" if "y \<in> ran T" for y using that pt_inv_table [OF T(2)] by (auto simp: ran_def)
    then show "\<forall>y \<in> ran T \<union> set xs. page_aligned y" using fl_inv_frame_ok [OF T(1)] by auto
  qed
  ultimately show ?thesis using t(1) n ch by (auto simp: load_level_lv changes_only_def)
qed

lemma aspace_map:
  assumes sp: "aspace s A xs D" and flags: "leaf_flags flags" and room: "depth s \<le> length xs"
    and free: "no_superpage (depth s) A v"
  shows "\<exists>t n. vmm_map s (current_table s) v phys (load_level s) Level1 flags = ok t
    \<and> n < depth s \<and> aspace t (A(path v (depth s) 0 \<mapsto> leaf_entry phys flags)) (drop n xs) D
    \<and> hhdm t = hhdm s \<and> levels t = levels s \<and> satp t = satp s \<and> fences t = fences s"
proof -
  from tree_map [OF sp [unfolded aspace_tree] flags room free] obtain t n where
    t: "vmm_map s (current_table s) v phys (load_level s) Level1 flags = ok t" "n < depth s"
      "tree (current_table s) t (A(path v (depth s) 0 \<mapsto> leaf_entry phys flags)) (drop n xs) D"
      "hhdm t = hhdm s \<and> levels t = levels s \<and> satp t = satp s \<and> fences t = fences s" by blast
  then have "current_table t = current_table s" by (simp add: current_table_def)
  with t show ?thesis unfolding aspace_tree by auto
qed

lemma tree_satp:
  assumes "tree root s A xs D" "current_table (s\<lparr>satp := w\<rparr>) = root"
  shows "aspace (s\<lparr>satp := w\<rparr>) A xs D"
proof -
  have f: "frame_ok (s\<lparr>satp := w\<rparr>) = frame_ok s" by (simp add: frame_ok_def fun_eq_iff)
  have e: "entry_ok (s\<lparr>satp := w\<rparr>) = entry_ok s" by (intro ext entry_ok_cong) simp
  have m: "mem (s\<lparr>satp := w\<rparr>) = mem s" "hhdm (s\<lparr>satp := w\<rparr>) = hhdm s" "levels (s\<lparr>satp := w\<rparr>) = levels s" by simp_all
  have "fl_inv (s\<lparr>satp := w\<rparr>) ys = fl_inv s ys" for ys unfolding fl_inv_def f by simp
  moreover have "pt_inv (s\<lparr>satp := w\<rparr>) L T ys = pt_inv s L T ys" for L T ys unfolding pt_inv_def f e m ..
  moreover have "leaves (s\<lparr>satp := w\<rparr>) T = leaves s T" for T unfolding leaves_def leaf_at_def m ..
  ultimately show ?thesis using assms unfolding aspace_tree tree_def in_use_def f m by simp
qed

lemma aspace_unmap:
  assumes sp: "aspace s A xs D" and leaf: "A (path v (depth s) 0) = Some e"
  shows "\<exists>t. vmm_unmap s (current_table s) v (load_level s) Level1 = ok (push_bit 12 (pte_get_ppn e), t)
    \<and> aspace t (A(path v (depth s) 0 := None)) xs D
    \<and> hhdm t = hhdm s \<and> levels t = levels s \<and> satp t = satp s \<and> fences t = fences s"
proof -
  let ?L = "depth s"
  obtain T where T: "fl_inv s xs" "pt_inv s ?L T xs" "T [] = Some (current_table s)" "A = leaves s T"
    "in_use s T xs D" using sp by (auto simp: aspace_def)
  have L: "0 < ?L" using pt_inv_levels [OF T(2)] by simp
  obtain t where t: "vmm_unmap s (current_table s) v (lv ?L) (lv 1) = ok (push_bit 12 (pte_get_ppn e), t)"
    "pt_inv t ?L T xs" "fl_inv t xs" "leaves t T = (leaves s T)(path v ?L (1 - 1) := None)"
    "changes_only (ran T) s t"
    using unmap_walk [OF _ _ order_refl T(2,1), of 1 v "current_table s" e] T(3,4) leaf L by auto
  have "in_use t T xs D" using T(5) changes_only_frame_ok [OF t(5)] by (simp add: in_use_def)
  then have "aspace t (A(path v ?L 0 := None)) xs D"
    using t T(3,4) changes_only_current [OF t(5)] unfolding aspace_def by auto
  with t(1,5) show ?thesis by (auto simp: load_level_lv changes_only_def)
qed

lemma aspace_virt_to_phys:
  assumes sp: "aspace s A xs D"
  shows "virt_to_phys s v =
    ok (case xlate (depth s) A (depth s) v of Some a \<Rightarrow> Inr a | None \<Rightarrow> Inl ''Table not found'')"
proof -
  obtain T where T: "pt_inv s (depth s) T xs" "T [] = Some (current_table s)" "A = leaves s T"
    using sp by (auto simp: aspace_def)
  then show ?thesis
    using walk_xlate [OF T(1), of v "depth s" "current_table s"] pt_inv_levels [OF T(1)]
    by (simp add: virt_to_phys_def load_level_lv)
qed

section \<open>Page numbers\<close>

text \<open>The part of an address that the walk from level \<open>L\<close> reads.\<close>

definition vpn :: "nat \<Rightarrow> u64 \<Rightarrow> u64" where
  "vpn L v = take_bit (9 * L) (drop_bit 12 v)"

lemma level_lsb_lv: "0 < k \<Longrightarrow> k \<le> 5 \<Longrightarrow> level_lsb (lv k) = 3 + 9 * k \<and> level_bits (lv k) = 9"
  by (drule (1) lv_cases) auto

lemma bit_idx: "0 < k \<Longrightarrow> k \<le> 5 \<Longrightarrow> bit (va_index v (lv k)) n \<longleftrightarrow> n < 9 \<and> bit v (3 + 9 * k + n)"
  by (simp add: bit_va_index level_lsb_lv)

lemma idx_eq_iff: "idx v k = idx w k \<longleftrightarrow> va_index v (lv k) = va_index w (lv k)"
  by (auto simp: idx_def intro: unsigned_word_eqI)

lemma path_eq_idx: "path v L 0 = path w L 0 \<longleftrightarrow> (\<forall>k \<in> {0<..L}. idx v k = idx w k)"
  by (auto simp: path_def simp del: upt_Suc)

lemma path_eq_vpn:
  assumes "L \<le> 5"
  shows "path v L 0 = path w L 0 \<longleftrightarrow> vpn L v = vpn L w"
proof
  assume eq: "path v L 0 = path w L 0"
  show "vpn L v = vpn L w"
  proof (rule bit_word_eqI)
    fix n :: nat
    define k where "k = n div 9 + 1"
    have n: "12 + n = 3 + 9 * k + n mod 9" by (simp add: k_def)
    show "bit (vpn L v) n = bit (vpn L w) n"
    proof (cases "n < 9 * L")
      case True
      then have k: "0 < k" "k \<le> L" "k \<le> 5" using assms by (simp_all add: k_def)
      then have "va_index v (lv k) = va_index w (lv k)"
        using eq by (simp add: path_eq_idx flip: idx_eq_iff)
      then have "bit (va_index v (lv k)) (n mod 9) = bit (va_index w (lv k)) (n mod 9)" by simp
      then show ?thesis using k by (simp add: bit_idx vpn_def bit_simps n)
    qed (simp add: vpn_def bit_simps)
  qed
next
  assume eq: "vpn L v = vpn L w"
  have "va_index v (lv k) = va_index w (lv k)" if k: "0 < k" "k \<le> L" for k :: nat
  proof (rule bit_word_eqI)
    fix n
    have k5: "k \<le> 5" using k assms by simp
    have "bit (vpn L v) (9 * k - 9 + n) = bit (vpn L w) (9 * k - 9 + n)" by (simp add: eq)
    moreover have "12 + (9 * k - 9 + n) = 3 + 9 * k + n" "n < 9 \<longrightarrow> 9 * k - 9 + n < 9 * L" using k by auto
    ultimately show "bit (va_index v (lv k)) n = bit (va_index w (lv k)) n"
      using k k5 by (auto simp: bit_idx vpn_def bit_simps add.assoc)
  qed
  then show "path v L 0 = path w L 0" by (simp add: path_eq_idx idx_eq_iff)
qed

text \<open>The pages of a segment.\<close>

definition page_of :: "u64 \<Rightarrow> nat \<Rightarrow> u64" where
  "page_of base i = base + 0x1000 * of_nat i"

lemma vpn_page_of:
  assumes "L \<le> 5"
  shows "unat (vpn L (page_of b i)) = (unat b div 4096 + i) mod 2 ^ (9 * L)"
proof -
  have "unat (page_of b i) = take_bit 64 (unat b + 4096 * i)"
    by (simp add: page_of_def unat_word_ariths unat_of_nat take_bit_eq_mod mod_simps)
  moreover have "drop_bit 12 (unat b + 4096 * i) = unat b div 4096 + i"
    by (simp add: drop_bit_eq_div)
  ultimately show ?thesis
    using assms by (simp add: vpn_def unsigned_take_bit_eq unat_drop_bit_eq drop_bit_take_bit min_def
        flip: take_bit_eq_mod)
qed

lemma mod_shift_inj:
  fixes a i j m :: nat
  assumes "(a + i) mod m = (a + j) mod m" "i < m" "j < m"
  shows "i = j"
proof -
  have le: "i = j" if "(a + i) mod m = (a + j) mod m" "i < m" "j < m" "i \<le> j" for i j
  proof -
    have "m dvd (a + j) - (a + i)" using that mod_eq_dvd_iff_nat [of "a + i" "a + j" m] by simp
    with that show ?thesis by (auto dest: dvd_imp_le)
  qed
  show ?thesis using le [of i j] le [of j i] assms by (cases "i \<le> j") auto
qed

lemma vpn_page_inj:
  assumes "L \<le> 5" "i < 2 ^ (9 * L)" "j < 2 ^ (9 * L)" "vpn L (page_of b i) = vpn L (page_of b j)"
  shows "i = j"
proof (rule mod_shift_inj [OF _ assms(2,3)])
  show "(unat b div 4096 + i) mod 2 ^ (9 * L) = (unat b div 4096 + j) mod 2 ^ (9 * L)"
    using arg_cong [OF assms(4), of unat] by (simp only: vpn_page_of [OF assms(1)])
qed

section \<open>Reading a translation off the map\<close>

lemma xlate_page:
  assumes "no_superpage L A v" "A (path v L 0) = Some e"
  shows "0 < j \<Longrightarrow> j \<le> L \<Longrightarrow> xlate L A j v = Some ((push_bit 12 (pte_get_ppn e) AND NOT 0xfff) OR (v AND 0xfff))"
proof (induction j)
  case (Suc j)
  show ?case
  proof (cases "j = 0")
    case True
    with assms(2) show ?thesis by simp
  next
    case False
    then have "A (path v L j) = None" using assms(1) Suc.prems by (simp add: no_superpage_def)
    with False Suc show ?thesis by simp
  qed
qed simp

lemma xlate_cong:
  "(\<And>i. i < j \<Longrightarrow> A (path v L i) = B (path v L i)) \<Longrightarrow> xlate L A j v = xlate L B j v"
  by (induction j) (auto split: option.splits)

text \<open>The address \<open>d + o\<close> inside the frame \<open>d\<close>.\<close>

lemma leaf_entry_phys:
  assumes "leaf_flags flags" "page_aligned d" "d < 2 ^ 56"
  shows "push_bit 12 (pte_get_ppn (leaf_entry d flags)) = d"
  using ppn_of_frame [OF assms(2,3)] by (simp add: leaf_entry_ppn [OF assms(1)] pa_get_ppn_def bf_get_def)

lemma aligned_bit: "page_aligned x \<Longrightarrow> n < 12 \<Longrightarrow> \<not> bit x n"
  by (metis bit_take_bit_iff bit_0_eq bot_apply bot_bool_def page_aligned_bits)

lemma small_bit: "o' < 0x1000 \<Longrightarrow> bit (o' :: u64) n \<Longrightarrow> n < 12"
proof -
  assume "o' < 0x1000" and b: "bit o' n"
  then have "o' < 2 ^ 12" by simp
  then have "take_bit 12 o' = o'" unfolding take_bit_eq_mask by (rule less_mask_eq)
  with b show ?thesis by (metis bit_take_bit_iff)
qed

lemma aligned_add: "page_aligned x \<Longrightarrow> o' < 0x1000 \<Longrightarrow> x + o' = x OR o'"
proof -
  assume "page_aligned x" "o' < 0x1000"
  then have "x AND o' = 0"
    by (intro bit_word_eqI) (auto simp: bit_simps dest: aligned_bit small_bit)
  then show ?thesis by (rule disjunctive_add_eq_or)
qed

lemma page_offset_or:
  assumes "page_aligned d" "page_aligned b" "o' < 0x1000"
  shows "(d AND NOT 0xfff) OR ((b + o') AND 0xfff) = d + o'"
proof -
  have "(d AND NOT (mask 12)) OR ((b OR o') AND mask 12) = d OR o'"
    using aligned_bit [OF assms(1)] aligned_bit [OF assms(2)] small_bit [OF assms(3)]
    by (intro bit_word_eqI) (auto simp: bit_simps dest: bit_imp_le_length)
  then show ?thesis
    using aligned_add [OF assms(1,3)] aligned_add [OF assms(2,3)] by (simp add: mask_eq_exp_minus_1)
qed

lemma vpn_offset:
  assumes "page_aligned b" "o' < 0x1000"
  shows "vpn L (b + o') = vpn L b"
proof -
  have "drop_bit 12 (b OR o') = drop_bit 12 b"
    using small_bit [OF assms(2)] by (intro bit_word_eqI) (fastforce simp: bit_simps)
  then show ?thesis by (simp add: vpn_def aligned_add [OF assms])
qed

lemma path_cong_vpn: "L \<le> 5 \<Longrightarrow> vpn L v = vpn L w \<Longrightarrow> path v L i = path w L i"
proof -
  assume "L \<le> 5" "vpn L v = vpn L w"
  then have "\<forall>k \<in> {0<..L}. idx v k = idx w k" by (simp flip: path_eq_vpn path_eq_idx)
  then show ?thesis by (auto simp: path_def simp del: upt_Suc)
qed

lemma page_of_aligned: "page_aligned b \<Longrightarrow> page_aligned (page_of b i)"
proof -
  assume "page_aligned b"
  moreover have "unat (page_of b i) = (unat b + 4096 * i) mod 2 ^ 64"
    by (simp add: page_of_def unat_word_ariths unat_of_nat mod_simps)
  moreover have "(unat b + 4096 * i) mod 2 ^ 64 mod 4096 = (unat b + 4096 * i) mod 4096"
    by (rule mod_mod_cancel) simp
  ultimately show ?thesis by (simp only: page_aligned_mod mod_mult_self2)
qed

end
