(* ===== verification/Vmm_Alloc.thy ===== *)
theory Vmm_Alloc
  imports Translation
begin

text \<open>
  \<open>Vmm::alloc\<close>, \<open>Vmm::alloc_constrained\<close> and \<open>Vmm::free\<close> of LSD/src/memory/vmm.rs on the running
  address space: which frames the pages of a segment get, what an address in it translates to
  afterwards, and that the rest of the address space is unchanged.
\<close>

section \<open>One page\<close>

definition page_map :: "nat \<Rightarrow> u64 \<Rightarrow> u64 \<Rightarrow> u64 \<Rightarrow> (nat list \<rightharpoonup> u64) \<Rightarrow> (nat list \<rightharpoonup> u64)" where
  "page_map L flags v phys A = A(path v L 0 \<mapsto> leaf_entry phys flags)"

lemma map_page_ok:
  assumes "aspace s A xs D" "leaf_flags flags" "depth s \<le> length xs" "no_superpage (depth s) A v"
  shows "\<exists>t n. map_page v phys flags s = ok t \<and> n < depth s
    \<and> aspace t (page_map (depth s) flags v phys A) (drop n xs) D
    \<and> hhdm t = hhdm s \<and> levels t = levels s \<and> satp t = satp s \<and> fences t = (Some v, None) # fences s"
proof -
  obtain t n where t: "vmm_map s (current_table s) v phys (load_level s) Level1 flags = ok t"
    "n < depth s" "aspace t (A(path v (depth s) 0 \<mapsto> leaf_entry phys flags)) (drop n xs) D"
    "hhdm t = hhdm s" "levels t = levels s" "satp t = satp s" "fences t = fences s"
    using aspace_map [OF assms(1,2,3,4)] by blast
  then have "map_page v phys flags s = ok (flush_tlb (Some v) None t)" by (simp add: map_page_def)
  with t show ?thesis by (auto simp: page_map_def flush_tlb_def)
qed

text \<open>A frame claimed for data.\<close>

lemma claim_data:
  assumes sp: "aspace s A (x # y # ys) D"
  shows "\<exists>t. fl_claim s = ok (x, t) \<and> aspace t A (y # ys) (insert x D) \<and> x \<notin> D
    \<and> hhdm t = hhdm s \<and> levels t = levels s \<and> satp t = satp s \<and> fences t = fences s"
proof -
  obtain T where T: "fl_inv s (x # y # ys)" "pt_inv s (depth s) T (x # y # ys)"
    "T [] = Some (current_table s)" "A = leaves s T" "in_use s T (x # y # ys) D"
    using sp by (auto simp: aspace_def)
  obtain t where t: "fl_claim s = ok (x, t)" "fl_inv t (y # ys)" "pt_inv t (depth s) T (y # ys)"
    "leaves t T = leaves s T" "changes_only {y} s t" "frame_ok t x" "x \<notin> ran T" "x \<notin> set (y # ys)"
    using claim_for_table [OF T(2,1)] by blast
  have "in_use t T (y # ys) (insert x D)"
    using T(5) t(6,7,8) changes_only_frame_ok [OF t(5)] by (auto simp: in_use_def)
  then have "aspace t A (y # ys) (insert x D)"
    using t T changes_only_current [OF t(5)] unfolding aspace_def by auto
  moreover have "x \<notin> D" using T(5) by (auto simp: in_use_def)
  ultimately show ?thesis using t(1,5) by (auto simp: changes_only_def)
qed

lemma alloc_page_claims:
  assumes sp: "aspace s A xs D" and flags: "leaf_flags flags" and room: "depth s < length xs"
    and free: "no_superpage (depth s) A (sect + offset)"
  shows "\<exists>t x n. alloc_page sect False flags offset (c, s) = ok (x - hhdm s, t)
    \<and> x = hd xs \<and> x \<notin> D \<and> n < depth s
    \<and> aspace t (page_map (depth s) flags (sect + offset) (x - hhdm s) A) (drop n (tl xs)) (insert x D)
    \<and> hhdm t = hhdm s \<and> levels t = levels s \<and> satp t = satp s
    \<and> fences t = (Some (sect + offset), None) # fences s"
proof -
  have "1 < length xs" using room aspace_depth [OF sp] by simp
  then obtain x y ys where xs: "xs = x # y # ys" by (cases xs; cases "tl xs") auto
  obtain u where u: "fl_claim s = ok (x, u)" "aspace u A (y # ys) (insert x D)" "x \<notin> D"
    "hhdm u = hhdm s" "levels u = levels s" "satp u = satp s" "fences u = fences s"
    using claim_data [OF sp [unfolded xs]] by blast
  have "depth u \<le> length (y # ys)" "no_superpage (depth u) A (sect + offset)"
    using room free u(5) by (simp_all add: xs)
  from map_page_ok [OF u(2) flags this] obtain t n where
    t: "map_page (sect + offset) (x - hhdm u) flags u = ok t" "n < depth u"
    "aspace t (page_map (depth u) flags (sect + offset) (x - hhdm u) A) (drop n (y # ys)) (insert x D)"
    "hhdm t = hhdm u" "levels t = levels u" "satp t = satp u" "fences t = (Some (sect + offset), None) # fences u"
    by blast
  have "alloc_page sect False flags offset (c, s) = ok (x - hhdm s, t)"
    using u(1,4) t(1) by (simp add: alloc_page_def claim_one_def)
  with t(2-7) u(3-7) show ?thesis by (auto simp: xs)
qed

section \<open>The loop over a segment\<close>

text \<open>The map after the pages \<open>vs\<close> got the physical addresses \<open>ps\<close>.\<close>

definition pages_map :: "nat \<Rightarrow> u64 \<Rightarrow> u64 list \<Rightarrow> u64 list \<Rightarrow> (nat list \<rightharpoonup> u64) \<Rightarrow> (nat list \<rightharpoonup> u64)" where
  "pages_map L flags vs ps A = fold (\<lambda>(v, p). page_map L flags v p) (zip vs ps) A"

lemma pages_map_simps [simp]:
  "pages_map L flags [] ps A = A"
  "pages_map L flags (v # vs) (p # ps) A = pages_map L flags vs ps (page_map L flags v p A)"
  by (simp_all add: pages_map_def)

lemma no_superpage_page_map: "no_superpage L A v \<Longrightarrow> no_superpage L (page_map L flags w p A) v"
  unfolding page_map_def by (rule no_superpage_upd)

lemma alloc_loop_claims:
  assumes "aspace s A xs D" "leaf_flags flags" "length offs * depth s < length xs"
    and "\<forall>d \<in> set offs. no_superpage (depth s) A (sect + d)"
  shows "\<exists>c' t fs ys. rfold (alloc_page sect False flags) offs (c, s) = ok (c', t)
    \<and> length fs = length offs \<and> distinct fs \<and> set fs \<inter> D = {} \<and> set fs \<subseteq> set xs
    \<and> length xs \<le> length ys + length offs * depth s \<and> length fs + length ys \<le> length xs
    \<and> aspace t (pages_map (depth s) flags (map ((+) sect) offs) (map (\<lambda>f. f - hhdm s) fs) A) ys (D \<union> set fs)
    \<and> hhdm t = hhdm s \<and> levels t = levels s \<and> satp t = satp s
    \<and> fences t = rev (map (\<lambda>d. (Some (sect + d), None)) offs) @ fences s"
  using assms
proof (induction offs arbitrary: s A xs D c)
  case Nil
  then show ?case by (auto intro!: exI [of _ "[]"] exI [of _ xs])
next
  case (Cons d offs)
  have L: "0 < depth s" using aspace_depth [OF Cons.prems(1)] by simp
  have room: "depth s < length xs" using Cons.prems(3) by simp
  have free: "no_superpage (depth s) A (sect + d)" using Cons.prems(4) by simp
  obtain t x n where t: "alloc_page sect False flags d (c, s) = ok (x - hhdm s, t)"
    "x = hd xs" "x \<notin> D" "n < depth s"
    "aspace t (page_map (depth s) flags (sect + d) (x - hhdm s) A) (drop n (tl xs)) (insert x D)"
    "hhdm t = hhdm s" "levels t = levels s" "satp t = satp s" "fences t = (Some (sect + d), None) # fences s"
    using alloc_page_claims [OF Cons.prems(1,2) room free, of c] by blast
  have len: "length offs * depth t < length (drop n (tl xs))"
    using Cons.prems(3) t(4,7) by simp
  have "\<forall>e \<in> set offs. no_superpage (depth t) (page_map (depth s) flags (sect + d) (x - hhdm s) A) (sect + e)"
    using Cons.prems(4) t(7) no_superpage_page_map by simp
  from Cons.IH [OF t(5) Cons.prems(2) len this, of "x - hhdm s"] obtain c' u fs ys where
    u: "rfold (alloc_page sect False flags) offs (x - hhdm s, t) = ok (c', u)"
    "length fs = length offs" "distinct fs" "set fs \<inter> insert x D = {}" "set fs \<subseteq> set (drop n (tl xs))"
    "length (drop n (tl xs)) \<le> length ys + length offs * depth t"
    "length fs + length ys \<le> length (drop n (tl xs))"
    "aspace u (pages_map (depth t) flags (map ((+) sect) offs) (map (\<lambda>f. f - hhdm t) fs)
       (page_map (depth s) flags (sect + d) (x - hhdm s) A)) ys (insert x D \<union> set fs)"
    "hhdm u = hhdm t" "levels u = levels t" "satp u = satp t"
    "fences u = rev (map (\<lambda>d. (Some (sect + d), None)) offs) @ fences t"
    by blast
  have "xs \<noteq> []" using room by auto
  then have "set (drop n (tl xs)) \<subseteq> set (tl xs)" "set (tl xs) \<subseteq> set xs" "x \<in> set xs"
    using t(2) \<open>xs \<noteq> []\<close> by (auto intro: list.set_sel(2) dest: in_set_dropD)
  then have "set (x # fs) \<subseteq> set xs" using u(5) by auto
  moreover have "length xs \<le> length ys + length (d # offs) * depth s"
    using u(6) t(4,7) by simp
  moreover have "length (x # fs) + length ys \<le> length xs" using u(7) room by simp
  ultimately show ?case
    using t u by (intro exI [of _ c'] exI [of _ u] exI [of _ "x # fs"] exI [of _ ys]) auto
qed

section \<open>Translations after it\<close>

definition pages :: "usize \<Rightarrow> nat" where
  "pages sz = (unat sz + 0xfff) div 0x1000"

lemma pages_map_at:
  assumes "distinct (map (\<lambda>v. path v L 0) vs)" "length ps = length vs" "i < length vs"
  shows "pages_map L flags vs ps A (path (vs ! i) L 0) = Some (leaf_entry (ps ! i) flags)"
  using assms
proof (induction vs arbitrary: ps A i)
  case (Cons v vs)
  obtain p ps' where ps: "ps = p # ps'" using Cons.prems(2) by (cases ps) auto
  have other: "q \<notin> set (map (\<lambda>v. path v L 0) ws) \<Longrightarrow> pages_map L flags ws qs B q = B q" for q ws qs B
    by (induction ws arbitrary: qs B) (case_tac [!] qs, auto simp: pages_map_def page_map_def)
  show ?case
    using Cons ps other [of "path v L 0" vs ps'] by (cases i) (auto simp: page_map_def)
qed simp

lemma pages_map_other:
  "q \<notin> set (map (\<lambda>v. path v L 0) vs) \<Longrightarrow> pages_map L flags vs ps A q = A q"
proof (induction vs arbitrary: ps A)
  case (Cons v vs)
  then show ?case by (cases ps) (auto simp: pages_map_def page_map_def)
qed (simp add: pages_map_def)

text \<open>A segment of at most as many pages as the address space has maps each page on its own.\<close>

definition segment :: "nat \<Rightarrow> u64 \<Rightarrow> nat \<Rightarrow> bool" where
  "segment L b n \<longleftrightarrow> L \<le> 5 \<and> n \<le> 2 ^ (9 * L) \<and> page_aligned b"

lemma segment_paths:
  assumes "segment L b n"
  shows "distinct (map (\<lambda>v. path v L 0) (map (page_of b) [0..<n]))"
proof -
  have "i = j" if "i < n" "j < n" "path (page_of b i) L 0 = path (page_of b j) L 0" for i j
    using assms that by (intro vpn_page_inj [of L i j b]) (simp_all add: segment_def path_eq_vpn)
  then show ?thesis by (auto simp: distinct_map inj_on_def)
qed

lemma segment_translates:
  assumes seg: "segment (depth t) b n"
    and sp: "aspace t (pages_map (depth t) flags (map (page_of b) [0..<n]) ps A) ys D"
    and ps: "length ps = n" "\<forall>p \<in> set ps. page_aligned p \<and> p < 2 ^ 56" and flags: "leaf_flags flags"
    and free: "\<forall>i < n. no_superpage (depth t) A (page_of b i)"
    and i: "i < n" "d < 0x1000"
  shows "virt_to_phys t (page_of b i + d) = ok (Inr (ps ! i + d))"
proof -
  let ?L = "depth t" and ?v = "page_of b i + d"
  let ?A = "pages_map ?L flags (map (page_of b) [0..<n]) ps A"
  have L: "0 < ?L" "?L \<le> 5" using aspace_depth [OF sp] by simp_all
  have al: "page_aligned (page_of b i)" using seg by (simp add: segment_def page_of_aligned)
  have p: "path ?v ?L j = path (page_of b i) ?L j" for j
    using path_cong_vpn [OF L(2) vpn_offset [OF al i(2)]] .
  have "?A (path (map (page_of b) [0..<n] ! i) ?L 0) = Some (leaf_entry (ps ! i) flags)"
    using segment_paths [OF seg] ps(1) i by (intro pages_map_at) simp_all
  then have here: "?A (path ?v ?L 0) = Some (leaf_entry (ps ! i) flags)" using i by (simp add: p)
  have "?A (path ?v ?L j) = A (path ?v ?L j)" if "1 \<le> j" "j < ?L" for j
    using that by (intro pages_map_other) (auto dest!: path_eq_length)
  then have "no_superpage ?L ?A ?v" using free i by (simp add: no_superpage_def p)
  from xlate_page [OF this here L(1) order_refl]
  have "xlate ?L ?A ?L ?v = Some ((push_bit 12 (pte_get_ppn (leaf_entry (ps ! i) flags)) AND NOT 0xfff)
      OR (?v AND 0xfff))" .
  also have "push_bit 12 (pte_get_ppn (leaf_entry (ps ! i) flags)) = ps ! i"
    using ps i by (intro leaf_entry_phys [OF flags]) auto
  also have "(ps ! i AND NOT 0xfff) OR (?v AND 0xfff) = ps ! i + d"
    using ps i al by (intro page_offset_or) auto
  finally show ?thesis using aspace_virt_to_phys [OF sp, of ?v] by simp
qed

lemma segment_others:
  assumes sp: "aspace t (pages_map (depth t) flags (map (page_of b) [0..<n]) ps A) ys D"
    and sp0: "aspace s A xs D0" and same: "depth t = depth s"
    and out: "\<forall>i < n. vpn (depth s) w \<noteq> vpn (depth s) (page_of b i)"
  shows "virt_to_phys t w = virt_to_phys s w"
proof -
  let ?L = "depth s" and ?A = "pages_map (depth s) flags (map (page_of b) [0..<n]) ps A"
  have L: "?L \<le> 5" using aspace_depth [OF sp0] by simp
  have "?A (path w ?L j) = A (path w ?L j)" if "j < ?L" for j
  proof (rule pages_map_other)
    have "path w ?L j \<noteq> path (page_of b i) ?L 0" if "i < n" for i
    proof (cases "j = 0")
      case True
      with out that show ?thesis by (simp add: path_eq_vpn [OF L])
    next
      case False
      with \<open>j < ?L\<close> show ?thesis by (auto dest!: path_eq_length)
    qed
    then show "path w ?L j \<notin> set (map (\<lambda>v. path v ?L 0) (map (page_of b) [0..<n]))"
      by (simp add: image_iff)
  qed
  then have "xlate ?L ?A ?L w = xlate ?L A ?L w" by (rule xlate_cong)
  then show ?thesis
    using aspace_virt_to_phys [OF sp, of w] aspace_virt_to_phys [OF sp0, of w] by (simp add: same)
qed

lemma page_offsets_of: "map ((+) b) (page_offsets sz) = map (page_of b) [0..<pages sz]"
  by (simp add: page_offsets_def pages_def page_of_def)

lemma length_page_offsets [simp]: "length (page_offsets sz) = pages sz"
  by (simp add: page_offsets_def pages_def)

lemma ceil_div_4096: "(n + 4095) div 4096 = n div 4096 + (if n mod 4096 \<noteq> 0 then 1 else 0)" for n :: nat
proof -
  define q r where "q = n div 4096" and "r = n mod 4096"
  then have n: "n + 4095 = (r + 4095) + q * 4096" and r: "r < 4096" by simp_all
  have "(r + 4095) div 4096 = (if r \<noteq> 0 then 1 else 0)"
  proof (cases r)
    case (Suc k)
    then have "r + 4095 = k + 1 * 4096" by simp
    moreover have "(k + 1 * 4096) div 4096 = 1 + k div 4096" by (rule div_mult_self1) simp
    ultimately show ?thesis using Suc r by simp
  qed simp
  then have "(n + 4095) div 4096 = q + (if r \<noteq> 0 then 1 else 0)"
    unfolding n by (subst div_mult_self1) simp_all
  then show ?thesis by (simp add: q_def r_def)
qed

lemma frames_for_pages: "unat (frames_for sz) = pages sz"
proof -
  have "unat sz < 2 ^ 64" using unsigned_less [of sz] by simp
  moreover have "sz mod 4096 = 0 \<longleftrightarrow> unat sz mod 4096 = 0"
    using unat_eq_zero [of "sz mod 4096"] by (simp add: unat_mod)
  ultimately have "unat (sz div 4096 + (if sz mod 4096 \<noteq> 0 then 1 else 0))
    = unat sz div 4096 + (if unat sz mod 4096 \<noteq> 0 then 1 else 0)"
    by (subst unat_add_lem [THEN iffD1]) (auto simp: unat_div)
  then show ?thesis by (simp add: frames_for_def pages_def ceil_div_4096)
qed


lemma frames_for_bytes:
  assumes "pages sz \<le> 2 ^ 45"
  shows "pages (frames_for sz * 4096) = pages sz"
proof -
  have "unat (frames_for sz * 4096) = pages sz * 4096"
    using assms frames_for_pages [of sz] by (subst unat_mult_lem [THEN iffD1]) simp_all
  then show ?thesis by (simp add: pages_def [of "frames_for sz * 4096"] ceil_div_4096)
qed

lemma segment_pages: "segment L b n \<Longrightarrow> n \<le> 2 ^ 45"
proof -
  assume "segment L b n"
  moreover from this have "(2 :: nat) ^ (9 * L) \<le> 2 ^ 45" by (intro power_increasing) (simp_all add: segment_def)
  ultimately show ?thesis by (simp add: segment_def)
qed

section \<open>alloc\<close>

text \<open>The frames a call got, seen from the address space: what \<open>alloc\<close> promises.\<close>

definition maps_segment ::
  "machine \<Rightarrow> machine \<Rightarrow> u64 \<Rightarrow> u64 list \<Rightarrow> bool" where
  "maps_segment s t b ps \<longleftrightarrow>
     (\<forall>i < length ps. \<forall>d < 0x1000. virt_to_phys t (page_of b i + d) = ok (Inr (ps ! i + d)))
     \<and> (\<forall>w. (\<forall>i < length ps. vpn (depth s) w \<noteq> vpn (depth s) (page_of b i))
            \<longrightarrow> virt_to_phys t w = virt_to_phys s w)"

lemma maps_segmentI:
  assumes "aspace s A xs D0" "aspace t (pages_map (depth t) flags (map (page_of b) [0..<n]) ps A) ys D"
    and "segment (depth s) b n" "leaf_flags flags" "\<forall>i < n. no_superpage (depth s) A (page_of b i)"
    and "length ps = n" "\<forall>p \<in> set ps. page_aligned p \<and> p < 2 ^ 56" "depth t = depth s"
  shows "maps_segment s t b ps"
  unfolding maps_segment_def
  using segment_translates [of t b n flags ps A ys D] segment_others [OF assms(2,1)] assms by simp

lemma frame_phys: "frame_ok s x \<Longrightarrow> page_aligned (hhdm s) \<Longrightarrow> page_aligned (x - hhdm s) \<and> x - hhdm s < 2 ^ 56"
  by (auto simp: frame_ok_def intro: page_aligned_diff)

lemma aspace_hhdm: "aspace s A xs D \<Longrightarrow> page_aligned (hhdm s)"
  by (auto simp: aspace_def dest: pt_inv_levels)

lemma aspace_frames: "aspace s A xs D \<Longrightarrow> x \<in> D \<union> set xs \<Longrightarrow> frame_ok s x"
  by (auto simp: aspace_def in_use_def dest: fl_inv_frame_ok)

lemma frame_ok_phys_list:
  assumes "aspace s A xs D" "set fs \<subseteq> D \<union> set xs" "h = hhdm s"
  shows "\<forall>p \<in> set (map (\<lambda>f. f - h) fs). page_aligned p \<and> p < 2 ^ 56"
  using assms(2) frame_phys [OF aspace_frames [OF assms(1)] aspace_hhdm [OF assms(1)]] assms(3) by fastforce

lemma vmm_alloc_pages:
  assumes sp: "aspace s A xs D" and va: "vmem_alloc sz = Inr sect" and flags: "leaf_flags flags"
    and seg: "segment (depth s) sect (pages sz)" and room: "pages sz * depth s < length xs"
    and free: "\<forall>i < pages sz. no_superpage (depth s) A (page_of sect i)"
  shows "\<exists>t fs ys. vmm_alloc vmem_alloc s sz False flags = ok (Inr ((sect, None), t))
    \<and> length fs = pages sz \<and> distinct fs \<and> set fs \<inter> D = {} \<and> set fs \<subseteq> set xs
    \<and> aspace t (pages_map (depth s) flags (map (page_of sect) [0..<pages sz])
                   (map (\<lambda>f. f - hhdm s) fs) A) ys (D \<union> set fs)
    \<and> maps_segment s t sect (map (\<lambda>f. f - hhdm s) fs)
    \<and> length xs \<le> length ys + pages sz * depth s \<and> length fs + length ys \<le> length xs
    \<and> fences t = rev (map (\<lambda>i. (Some (page_of sect i), None)) [0..<pages sz]) @ fences s
    \<and> hhdm t = hhdm s \<and> depth t = depth s"
proof -
  let ?offs = "page_offsets (frames_for sz * 4096)"
  have n: "pages (frames_for sz * 4096) = pages sz" using segment_pages [OF seg] by (rule frames_for_bytes)
  have offs: "map ((+) sect) ?offs = map (page_of sect) [0..<pages sz]" by (simp only: page_offsets_of n)
  have len: "length ?offs = pages sz" by (simp add: n)
  have "\<forall>d \<in> set ?offs. no_superpage (depth s) A (sect + d)"
  proof
    fix d assume "d \<in> set ?offs"
    then have "sect + d \<in> set (map ((+) sect) ?offs)" by simp
    then show "no_superpage (depth s) A (sect + d)" unfolding offs using free by auto
  qed
  from alloc_loop_claims [OF sp flags _ this, of 0] room obtain c t fs ys where
    run: "rfold (alloc_page sect False flags) ?offs (0, s) = ok (c, t)"
    and fs: "length fs = pages sz" "distinct fs" "set fs \<inter> D = {}" "set fs \<subseteq> set xs"
    and ys: "length xs \<le> length ys + pages sz * depth s" "length fs + length ys \<le> length xs"
    and spt: "aspace t (pages_map (depth s) flags (map ((+) sect) ?offs) (map (\<lambda>f. f - hhdm s) fs) A)
      ys (D \<union> set fs)"
    and same: "hhdm t = hhdm s" "levels t = levels s"
    and fen: "fences t = rev (map (\<lambda>d. (Some (sect + d), None)) ?offs) @ fences s"
    unfolding len by blast
  have "map (\<lambda>d. (Some (sect + d), None)) ?offs = map (\<lambda>v. (Some v, None)) (map ((+) sect) ?offs)"
    by simp
  then have "fences t = rev (map (\<lambda>i. (Some (page_of sect i), None)) [0..<pages sz]) @ fences s"
    using fen unfolding offs by (simp add: comp_def)
  moreover have "vmm_alloc vmem_alloc s sz False flags = ok (Inr ((sect, None), t))"
    using run by (simp add: vmm_alloc_def va claim_base_def)
  moreover have "maps_segment s t sect (map (\<lambda>f. f - hhdm s) fs)"
    using fs frame_ok_phys_list [OF spt, of fs "hhdm s"] same seg flags free
    by (intro maps_segmentI [OF sp spt [unfolded offs, folded same(2)]]) auto
  ultimately show ?thesis using fs ys spt same unfolding offs
    by (intro exI [of _ t] exI [of _ fs] exI [of _ ys]) simp
qed

section \<open>Storing a list of mappings\<close>

text \<open>
  The contract of an operation that enters one mapping: it needs some room (free frames), keeps
  the representation and updates the map at one key, whatever else was entered before. A loop
  over such an operation enters all of them. The loops of \<open>alloc\<close> and \<open>alloc_constrained\<close> over a
  contiguous claim are such loops over \<open>map_page\<close>.
\<close>

locale mapper =
  fixes rep :: "'s \<Rightarrow> ('k \<rightharpoonup> 'e) \<Rightarrow> nat \<Rightarrow> bool"
    and put :: "'x \<Rightarrow> 's \<Rightarrow> 's result"
    and key :: "'x \<Rightarrow> 'k" and entry :: "'x \<Rightarrow> 'e"
    and allowed :: "('k \<rightharpoonup> 'e) \<Rightarrow> 'x \<Rightarrow> bool"
    and cost :: nat
  assumes put_ok: "rep s A n \<Longrightarrow> allowed A x \<Longrightarrow> cost \<le> n \<Longrightarrow>
      \<exists>t m. put x s = ok t \<and> rep t (A(key x \<mapsto> entry x)) m \<and> n \<le> m + cost"
    and allowed_put: "allowed A x \<Longrightarrow> allowed (A(key y \<mapsto> entry y)) x"
begin

definition put_all :: "'x list \<Rightarrow> ('k \<rightharpoonup> 'e) \<Rightarrow> ('k \<rightharpoonup> 'e)" where
  "put_all xs A = fold (\<lambda>x A. A(key x \<mapsto> entry x)) xs A"

lemma put_list:
  "rep s A n \<Longrightarrow> \<forall>x \<in> set xs. allowed A x \<Longrightarrow> length xs * cost \<le> n \<Longrightarrow>
    \<exists>t m. rfold put xs s = ok t \<and> rep t (put_all xs A) m \<and> n \<le> m + length xs * cost"
proof (induction xs arbitrary: s A n)
  case Nil
  then show ?case by (auto simp: put_all_def)
next
  case (Cons x xs)
  have "allowed A x" "cost \<le> n" using Cons.prems by simp_all
  from put_ok [OF Cons.prems(1) this] obtain t m where
    t: "put x s = ok t" "rep t (A(key x \<mapsto> entry x)) m" "n \<le> m + cost" by blast
  have "\<forall>y \<in> set xs. allowed (A(key x \<mapsto> entry x)) y" using Cons.prems(2) allowed_put by simp
  moreover have "length xs * cost \<le> m" using Cons.prems(3) t(3) by simp
  ultimately obtain u k where "rfold put xs t = ok u" "rep u (put_all xs (A(key x \<mapsto> entry x))) k"
    "m \<le> k + length xs * cost" using Cons.IH [OF t(2)] by blast
  with t show ?case by (auto simp: put_all_def intro!: exI [of _ k])
qed

end

definition map_rep :: "nat \<Rightarrow> u64 \<Rightarrow> u64 \<Rightarrow> u64 set \<Rightarrow> machine \<Rightarrow> (nat list \<rightharpoonup> u64) \<Rightarrow> nat \<Rightarrow> bool" where
  "map_rep L h flags D s A n \<longleftrightarrow>
     leaf_flags flags \<and> depth s = L \<and> hhdm s = h \<and> (\<exists>xs. aspace s A xs D \<and> n = length xs)"

interpretation pages: mapper "map_rep L h flags D" "\<lambda>(v, p). map_page v p flags"
    "\<lambda>(v, p). path v L 0" "\<lambda>(v, p). leaf_entry p flags" "\<lambda>A (v, p). no_superpage L A v" L for L h flags D
proof (unfold_locales, goal_cases)
  case (1 s A n x)
  obtain v p where x: "x = (v, p)" by (cases x)
  from 1 obtain xs where xs: "leaf_flags flags" "depth s = L" "hhdm s = h" "aspace s A xs D" "n = length xs"
    by (auto simp: map_rep_def)
  then obtain t k where "map_page v p flags s = ok t" "k < L" "aspace t (page_map L flags v p A) (drop k xs) D"
    "hhdm t = h" "levels t = levels s"
    using map_page_ok [of s A xs D flags v p] 1 by (auto simp: x)
  with xs show ?case
    by (auto simp: x map_rep_def page_map_def intro!: exI [of _ "length (drop k xs)"])
next
  case (2 A x y)
  then show ?case by (cases x; cases y) (auto intro: no_superpage_upd)
qed

lemma put_all_pages: "pages.put_all L flags (zip vs ps) A = pages_map L flags vs ps A"
  unfolding pages.put_all_def pages_map_def page_map_def by (simp add: case_prod_unfold)

text \<open>The loops as \<open>map_page\<close> over the frames of the claim: \<open>alloc\<close> starts at the first frame,
  \<open>alloc_constrained\<close> at the second.\<close>

lemma alloc_page_contiguous:
  "alloc_page sect True flags d (p, s) = rbind (map_page (sect + d) p flags s) (\<lambda>t. ok (p + 4096, t))"
  "alloc_page_constrained sect True flags d (p, s)
     = rbind (map_page (sect + d) (p + 4096) flags s) (\<lambda>t. ok (p + 4096, t))"
  by (simp_all add: alloc_page_def alloc_page_constrained_def claim_one_def)

lemma alloc_loop_contiguous:
  "rfold (alloc_page sect True flags) offs (p, s) =
     rbind (rfold (\<lambda>(v, p). map_page v p flags)
              (zip (map ((+) sect) offs) (map (page_of p) [0..<length offs])) s)
       (\<lambda>t. ok (page_of p (length offs), t))"
proof (induction offs arbitrary: p s)
  case (Cons d offs)
  have "map (page_of p) [0..<length (d # offs)] = p # map (page_of (p + 4096)) [0..<length offs]"
    by (simp add: page_of_def upt_conv_Cons algebra_simps map_Suc_upt [symmetric] comp_def del: upt_Suc)
  moreover have "page_of (p + 4096) (length offs) = page_of p (length (d # offs))"
    by (simp add: page_of_def algebra_simps)
  ultimately show ?case by (simp add: alloc_page_contiguous Cons.IH del: upt_Suc)
qed (simp add: page_of_def)

lemma alloc_loop_constrained:
  "rfold (alloc_page_constrained sect True flags) offs (p, s) =
     rbind (rfold (\<lambda>(v, p). map_page v p flags)
              (zip (map ((+) sect) offs) (map (page_of (p + 4096)) [0..<length offs])) s)
       (\<lambda>t. ok (page_of p (length offs), t))"
proof (induction offs arbitrary: p s)
  case (Cons d offs)
  have "map (page_of (p + 4096)) [0..<length (d # offs)]
      = (p + 4096) # map (page_of (p + 4096 + 4096)) [0..<length offs]"
    by (simp add: page_of_def upt_conv_Cons algebra_simps map_Suc_upt [symmetric] comp_def del: upt_Suc)
  moreover have "page_of (p + 4096) (length offs) = page_of p (length (d # offs))"
    by (simp add: page_of_def algebra_simps)
  ultimately show ?case by (simp add: alloc_page_contiguous Cons.IH del: upt_Suc)
qed (simp add: page_of_def)

lemma map_list_ok:
  assumes sp: "aspace s A xs D" and flags: "leaf_flags flags" and room: "length vs * depth s \<le> length xs"
    and free: "\<forall>v \<in> set vs. no_superpage (depth s) A v" and len: "length ps = length vs"
  shows "\<exists>t ys. rfold (\<lambda>(v, p). map_page v p flags) (zip vs ps) s = ok t
    \<and> aspace t (pages_map (depth s) flags vs ps A) ys D \<and> depth t = depth s \<and> hhdm t = hhdm s"
proof -
  have "map_rep (depth s) (hhdm s) flags D s A (length xs)"
    using sp flags by (auto simp: map_rep_def)
  moreover have "\<forall>x \<in> set (zip vs ps). case x of (v, p) \<Rightarrow> no_superpage (depth s) A v"
    using free by (auto dest: set_zip_leftD)
  moreover have "length (zip vs ps) * depth s \<le> length xs" using room len by simp
  ultimately obtain t m where "rfold (\<lambda>(v, p). map_page v p flags) (zip vs ps) s = ok t"
    "map_rep (depth s) (hhdm s) flags D t (pages_map (depth s) flags vs ps A) m"
    using pages.put_list [of "depth s" "hhdm s" flags D s A "length xs" "zip vs ps"] put_all_pages by force
  then show ?thesis by (auto simp: map_rep_def)
qed

section \<open>Contiguous claims\<close>

text \<open>What is left of the list \<open>xs\<close> without the first run of \<open>n\<close> frames.\<close>

definition without_run :: "nat \<Rightarrow> nat \<Rightarrow> u64 list \<Rightarrow> u64 list" where
  "without_run n i xs = take i xs @ drop (i + n) xs"

lemma tree_unclaim:
  assumes sp: "tree root s A xs D" and ch: "changes_only F s t" and fl: "fl_inv t ys"
    and F: "F \<subseteq> set xs" and D': "D' \<subseteq> D \<union> set xs" "D' \<inter> set ys = {}" and ys: "set ys \<subseteq> set xs"
  shows "tree root t A ys D'"
proof -
  obtain T where T: "fl_inv s xs" "pt_inv s (depth s) T xs" "T [] = Some root"
    "A = leaves s T" "in_use s T xs D" using sp by (auto simp: tree_def)
  have free: "x \<notin> ran T" "frame_ok s x" if "x \<in> set xs" for x
    using T(2) fl_inv_frame_ok [OF T(1) that] that by (auto simp: pt_inv_def ran_def)
  have 1: "\<forall>y \<in> F. page_aligned y \<and> y \<notin> ran T" using F free by auto
  have 2: "set ys \<inter> ran T = {}" using ys free by auto
  note elsewhere = pt_inv_elsewhere [OF T(2) ch 1 2]
  have "in_use t T ys D'"
    using T(5) D' free changes_only_frame_ok [OF ch] unfolding in_use_def by blast
  then show ?thesis
    using elsewhere fl T(3,4) changes_only_current [OF ch] unfolding tree_def by auto
qed

lemma aspace_unclaim:
  assumes "aspace s A xs D" "changes_only F s t" "fl_inv t ys" "F \<subseteq> set xs"
    and "D' \<subseteq> D \<union> set xs" "D' \<inter> set ys = {}" "set ys \<subseteq> set xs"
  shows "aspace t A ys D'"
  using tree_unclaim [OF assms(1) [unfolded aspace_tree] assms(2-)] changes_only_current [OF assms(2)]
  unfolding aspace_tree by simp

lemma run_frames:
  assumes "first_run n amask xs = Some i"
  shows "i + n \<le> length xs" "take n (drop i xs) = frames_from (xs ! i) n"
  using first_run_window [OF assms] by (auto simp: window_def hd_drop_conv_nth)

lemma claim_run_list:
  assumes fl: "fl_inv s xs" and null: "mem s 0 = None" and n: "0 < unat frames"
    and run: "first_run (unat frames) 0 xs = Some i" "i + unat frames < length xs"
  defines "ys \<equiv> without_run (unat frames) i xs"
  shows "\<exists>t. claim_continuous s frames = ok (Inr (xs ! i, t)) \<and> fl_inv t ys \<and> changes_only (set ys) s t"
proof (cases "frames = 1")
  case True
  obtain x y zs where xs: "xs = x # y # zs" using run(2) True by (cases xs; cases "tl xs") auto
  then have "i = 0" using run(1) True by (simp add: window_def)
  moreover obtain t where "fl_claim s = ok (x, t)" "fl_inv t (y # zs)" "changes_only {y} s t"
    using fl_claim_inv fl [unfolded xs] by blast
  ultimately show ?thesis using True xs
    by (auto simp: claim_continuous_def without_run_def ys_def intro: changes_only_mono)
next
  case False
  then have "unat frames \<noteq> 1" using of_nat_of_unat [of frames 1] by auto
  then have "1 < unat frames" using n by simp
  from fl_scan_list_outcome [OF fl null this, of 0] show ?thesis
    using run False by (auto simp: run_outcome_def claim_continuous_def without_run_def ys_def)
qed

lemma without_run_parts:
  assumes "distinct xs"
  shows "set (without_run n i xs) \<subseteq> set xs" "set (take n (drop i xs)) \<subseteq> set xs"
    and "set (take n (drop i xs)) \<inter> set (without_run n i xs) = {}"
proof -
  have xs: "xs = take i xs @ take n (drop i xs) @ drop (i + n) xs"
    by (metis add.commute append_take_drop_id drop_drop)
  show "set (without_run n i xs) \<subseteq> set xs" "set (take n (drop i xs)) \<subseteq> set xs"
    using set_take_subset [of i xs] set_drop_subset [of "i + n" xs] set_take_subset [of n "drop i xs"]
      set_drop_subset [of i xs] by (auto simp: without_run_def)
  have "distinct (take i xs @ take n (drop i xs) @ drop (i + n) xs)" using assms by (simp only: xs [symmetric])
  then show "set (take n (drop i xs)) \<inter> set (without_run n i xs) = {}"
    unfolding without_run_def distinct_append set_append by blast
qed

lemma claim_run:
  assumes sp: "aspace s A xs D" and null: "mem s 0 = None" and n: "0 < unat frames"
    and run: "first_run (unat frames) 0 xs = Some i" "i + unat frames < length xs"
  shows "\<exists>t. claim_continuous s frames = ok (Inr (xs ! i, t))
    \<and> aspace t A (without_run (unat frames) i xs) (D \<union> set (frames_from (xs ! i) (unat frames)))
    \<and> hhdm t = hhdm s \<and> levels t = levels s"
proof -
  let ?n = "unat frames" and ?ys = "without_run (unat frames) i xs"
  have fl: "fl_inv s xs" by (rule aspace_fl [OF sp])
  from claim_run_list [OF fl null n run] obtain t where t: "claim_continuous s frames = ok (Inr (xs ! i, t))"
    "fl_inv t ?ys" "changes_only (set ?ys) s t" by blast
  have "distinct xs" using fl by (simp add: fl_inv_def)
  note parts = without_run_parts [OF this, of ?n i]
  have "D \<inter> set ?ys = {}" using sp parts(1) by (auto simp: aspace_def in_use_def)
  then have "aspace t A ?ys (D \<union> set (take ?n (drop i xs)))"
    by (intro aspace_unclaim [OF sp t(3,2)]) (use parts in auto)
  with t(1,3) run_frames(2) [OF run(1)] show ?thesis by (auto simp: changes_only_def)
qed

lemma claim_base_run:
  assumes "claim_continuous s (frames_for sz) = ok (Inr (b, u))"
  shows "claim_base True (frames_for sz) s = ok (b - hhdm u, Some (b - hhdm u), u)"
  using assms by (simp add: claim_base_def)

text \<open>The physical pages of a run.\<close>

lemma run_phys:
  assumes "aspace t A ys D" "set (frames_from b n) \<subseteq> D"
  shows "\<forall>p \<in> set (map (page_of (b - hhdm t)) [0..<n]). page_aligned p \<and> p < 2 ^ 56"
proof -
  have "page_of (b - hhdm t) i = page_of b i - hhdm t" for i by (simp add: page_of_def)
  moreover have "page_aligned (page_of b i - hhdm t) \<and> page_of b i - hhdm t < 2 ^ 56" if "i < n" for i
  proof (rule frame_phys [OF aspace_frames [OF assms(1)] aspace_hhdm [OF assms(1)]])
    have "page_of b i \<in> set (frames_from b n)" using that by (auto simp: frames_from_def page_of_def)
    with assms(2) show "page_of b i \<in> D \<union> set ys" by auto
  qed
  ultimately show ?thesis by auto
qed

lemma length_without_run: "i + n \<le> length xs \<Longrightarrow> length (without_run n i xs) + n = length xs"
  by (simp add: without_run_def)

lemma vmm_alloc_run:
  assumes sp: "aspace s A xs D" and va: "vmem_alloc sz = Inr sect" and flags: "leaf_flags flags"
    and seg: "segment (depth s) sect (pages sz)" and null: "mem s 0 = None" and pos: "0 < pages sz"
    and run: "first_run (pages sz) 0 xs = Some i" "i + pages sz < length xs"
    and room: "pages sz * depth s + pages sz \<le> length xs"
    and free: "\<forall>i < pages sz. no_superpage (depth s) A (page_of sect i)"
  shows "\<exists>t B ys. vmm_alloc vmem_alloc s sz True flags = ok (Inr ((sect, Some (xs ! i - hhdm s)), t))
    \<and> aspace t B ys (D \<union> set (frames_from (xs ! i) (pages sz)))
    \<and> maps_segment s t sect (map (page_of (xs ! i - hhdm s)) [0..<pages sz])"
proof -
  let ?n = "pages sz" and ?offs = "page_offsets (frames_for sz * 4096)" and ?D = "D \<union> set (frames_from (xs ! i) (pages sz))"
  note fr = frames_for_pages [of sz]
  obtain u where u: "claim_continuous s (frames_for sz) = ok (Inr (xs ! i, u))"
    "aspace u A (without_run ?n i xs) ?D" "hhdm u = hhdm s" "levels u = levels s"
    using claim_run [OF sp null, of "frames_for sz" i] pos run unfolding fr by blast
  have n: "pages (frames_for sz * 4096) = ?n" using segment_pages [OF seg] by (rule frames_for_bytes)
  have offs: "map ((+) sect) ?offs = map (page_of sect) [0..<?n]" by (simp only: page_offsets_of n)
  let ?ps = "map (page_of (xs ! i - hhdm s)) [0..<?n]"
  have "length (without_run ?n i xs) + ?n = length xs" using run(2) by (intro length_without_run) simp
  then have "length (map (page_of sect) [0..<?n]) * depth u \<le> length (without_run ?n i xs)"
    using room u(4) by simp
  moreover have "\<forall>v \<in> set (map (page_of sect) [0..<?n]). no_superpage (depth u) A v"
    using free u(4) by auto
  ultimately obtain t ys where
    t: "rfold (\<lambda>(v, p). map_page v p flags) (zip (map (page_of sect) [0..<?n]) ?ps) u = ok t"
    "aspace t (pages_map (depth u) flags (map (page_of sect) [0..<?n]) ?ps A) ys ?D"
    "depth t = depth u" "hhdm t = hhdm u"
    using map_list_ok [OF u(2) flags, of "map (page_of sect) [0..<?n]" ?ps] by auto
  have "vmm_alloc vmem_alloc s sz True flags = ok (Inr ((sect, Some (xs ! i - hhdm s)), t))"
    using claim_base_run [OF u(1)] u(3) t(1)
    by (simp add: vmm_alloc_def va alloc_loop_contiguous offs n)
  moreover have "maps_segment s t sect ?ps"
    using t u(3,4) seg flags free run_phys [OF t(2), of "xs ! i" ?n]
    by (intro maps_segmentI [OF sp t(2) [folded t(3)]]) simp_all
  ultimately show ?thesis using t(2) by blast
qed

lemma next_pages_phys:
  assumes "page_aligned q" "unat q + 4096 * n < 2 ^ 56" "i < n"
  shows "page_aligned (page_of (q + 4096) i) \<and> page_of (q + 4096) i < 2 ^ 56"
proof -
  have eq: "page_of (q + 4096) i = page_of q (Suc i)" by (simp add: page_of_def algebra_simps)
  have "unat (page_of q j) = (unat q + 4096 * j) mod 2 ^ 64" for j
    by (simp add: page_of_def unat_word_ariths unat_of_nat mod_simps)
  moreover have "(unat q + 4096 * Suc i) mod 2 ^ 64 < 2 ^ 56"
    using assms(2,3) by (intro le_less_trans [OF mod_less_eq_dividend]) simp
  ultimately have "unat (page_of q (Suc i)) < 2 ^ 56" by (simp only:)
  then show ?thesis unfolding eq using page_of_aligned [OF assms(1)] by (simp add: word_less_nat_alt)
qed

text \<open>\<open>alloc_constrained\<close> on the same claim, of a size that is a multiple of the page size: every
  page of the segment gets the frame after the one it was meant to get.\<close>

lemma vmm_alloc_constrained_run:
  assumes sp: "aspace s A xs D" and va: "vmem_alloc sz = Inr sect" and flags: "leaf_flags flags"
    and seg: "segment (depth s) sect (pages sz)" and null: "mem s 0 = None" and pos: "0 < pages sz"
    and run: "first_run (pages sz) 0 xs = Some i" "i + pages sz < length xs"
    and room: "pages sz * depth s + pages sz \<le> length xs"
    and free: "\<forall>i < pages sz. no_superpage (depth s) A (page_of sect i)"
    and top: "unat (xs ! i - hhdm s) + 4096 * pages sz < 2 ^ 56"
  shows "\<exists>t B ys. vmm_alloc_constrained vmem_alloc s sz True flags
      = ok (Inr ((sect, Some (xs ! i - hhdm s)), t))
    \<and> aspace t B ys (D \<union> set (frames_from (xs ! i) (pages sz)))
    \<and> maps_segment s t sect (map (page_of (xs ! i - hhdm s + 4096)) [0..<pages sz])"
proof -
  let ?n = "pages sz" and ?offs = "page_offsets sz" and ?D = "D \<union> set (frames_from (xs ! i) (pages sz))"
  note fr = frames_for_pages [of sz]
  obtain u where u: "claim_continuous s (frames_for sz) = ok (Inr (xs ! i, u))"
    "aspace u A (without_run ?n i xs) ?D" "hhdm u = hhdm s" "levels u = levels s"
    using claim_run [OF sp null, of "frames_for sz" i] pos run unfolding fr by blast
  let ?ps = "map (page_of (xs ! i - hhdm s + 4096)) [0..<?n]"
  have "length (without_run ?n i xs) + ?n = length xs" using run(2) by (intro length_without_run) simp
  then have "length (map (page_of sect) [0..<?n]) * depth u \<le> length (without_run ?n i xs)"
    using room u(4) by simp
  moreover have "\<forall>v \<in> set (map (page_of sect) [0..<?n]). no_superpage (depth u) A v"
    using free u(4) by auto
  ultimately obtain t ys where
    t: "rfold (\<lambda>(v, p). map_page v p flags) (zip (map (page_of sect) [0..<?n]) ?ps) u = ok t"
    "aspace t (pages_map (depth u) flags (map (page_of sect) [0..<?n]) ?ps A) ys ?D"
    "depth t = depth u" "hhdm t = hhdm u"
    using map_list_ok [OF u(2) flags, of "map (page_of sect) [0..<?n]" ?ps] by auto
  have "vmm_alloc_constrained vmem_alloc s sz True flags = ok (Inr ((sect, Some (xs ! i - hhdm s)), t))"
    using claim_base_run [OF u(1)] u(3) t(1)
    by (simp add: vmm_alloc_constrained_def va alloc_loop_constrained page_offsets_of)
  moreover have "page_aligned (xs ! i - hhdm s)"
    using frame_phys [OF aspace_frames [OF sp] aspace_hhdm [OF sp]] run(2) by simp
  then have "\<forall>p \<in> set ?ps. page_aligned p \<and> p < 2 ^ 56" using next_pages_phys [OF _ top] by auto
  then have "maps_segment s t sect ?ps"
    using t u(3,4) seg flags free
    by (intro maps_segmentI [OF sp t(2) [folded t(3)]]) simp_all
  ultimately show ?thesis using t(2) by blast
qed

section \<open>free\<close>

lemma leaf_entry_frame:
  "leaf_flags flags \<Longrightarrow> frame_ok s x \<Longrightarrow> page_aligned (hhdm s) \<Longrightarrow>
    push_bit 12 (pte_get_ppn (leaf_entry (x - hhdm s) flags)) + hhdm s = x"
  using frame_phys [of s x] leaf_entry_phys [of flags "x - hhdm s"] by simp

lemma pull_data:
  assumes sp: "aspace s A xs D" and x: "x \<in> D" and len: "length xs + 1 < 2 ^ 64"
  shows "\<exists>t. fl_pull s x = ok t \<and> aspace t A (x # xs) (D - {x})
    \<and> hhdm t = hhdm s \<and> levels t = levels s"
proof -
  obtain T where T: "fl_inv s xs" "pt_inv s (depth s) T xs" "T [] = Some (current_table s)"
    "A = leaves s T" "in_use s T xs D" using sp by (auto simp: aspace_def)
  have x': "frame_ok s x" "x \<notin> set xs" "x \<notin> ran T" using T(5) x by (auto simp: in_use_def)
  obtain t where t: "fl_pull s x = ok t" "fl_inv t (x # xs)" "changes_only (set (x # xs)) s t"
    using fl_pull_inv [OF T(1) x'(1,2) len] by blast
  have 2: "set (x # xs) \<inter> ran T = {}" using T(2) x'(3) by (auto simp: pt_inv_def ran_def)
  have 1: "\<forall>y \<in> set (x # xs). page_aligned y \<and> y \<notin> ran T"
    using 2 x'(1) fl_inv_frame_ok [OF T(1)] by (auto dest: frame_ok_aligned)
  note elsewhere = pt_inv_elsewhere [OF T(2) t(3) 1 2]
  have "in_use t T (x # xs) (D - {x})"
    using T(5) changes_only_frame_ok [OF t(3)] by (auto simp: in_use_def)
  then have "aspace t A (x # xs) (D - {x})"
    using elsewhere t(2) T(3,4) changes_only_current [OF t(3)] unfolding aspace_def by auto
  with t(1,3) show ?thesis by (auto simp: changes_only_def)
qed

lemma free_page_ok:
  assumes sp: "aspace s A xs D" and x: "x \<in> D" and len: "length xs + 1 < 2 ^ 64"
    and flags: "leaf_flags flags" and leaf: "A (path (b + d) (depth s) 0) = Some (leaf_entry (x - hhdm s) flags)"
  shows "\<exists>t. free_page b d s = ok t \<and> aspace t (A(path (b + d) (depth s) 0 := None)) (x # xs) (D - {x})
    \<and> hhdm t = hhdm s \<and> depth t = depth s"
proof -
  obtain u where u: "vmm_unmap s (current_table s) (b + d) (load_level s) Level1
      = ok (push_bit 12 (pte_get_ppn (leaf_entry (x - hhdm s) flags)), u)"
    "aspace u (A(path (b + d) (depth s) 0 := None)) xs D" "hhdm u = hhdm s" "levels u = levels s"
    using aspace_unmap [OF sp leaf] by blast
  obtain t where t: "fl_pull u x = ok t" "aspace t (A(path (b + d) (depth s) 0 := None)) (x # xs) (D - {x})"
    "hhdm t = hhdm u" "levels t = levels u" using pull_data [OF u(2) x len] by blast
  have "push_bit 12 (pte_get_ppn (leaf_entry (x - hhdm s) flags)) + hhdm s = x"
    using leaf_entry_frame [OF flags aspace_frames [OF sp] aspace_hhdm [OF sp], of x] x by simp
  then have "free_page b d s = ok (flush_tlb (Some (b + d)) None t)"
    using u(1,3) t(1) by (simp add: free_page_def)
  with t(2-4) u(3,4) show ?thesis by (auto simp: flush_tlb_def)
qed

text \<open>The map without the paths of the pages \<open>vs\<close>.\<close>

definition pages_unmap :: "nat \<Rightarrow> u64 list \<Rightarrow> (nat list \<rightharpoonup> u64) \<Rightarrow> (nat list \<rightharpoonup> u64)" where
  "pages_unmap L vs A = A |` (- set (map (\<lambda>v. path v L 0) vs))"

lemma free_loop_ok:
  assumes "aspace s A xs D" "leaf_flags flags" "length xs + length fs < 2 ^ 64"
    and "distinct fs" "set fs \<subseteq> D" "length fs = length offs"
    and "distinct (map (\<lambda>d. path (b + d) (depth s) 0) offs)"
    and "\<forall>i < length offs. A (path (b + offs ! i) (depth s) 0) = Some (leaf_entry (fs ! i - hhdm s) flags)"
  shows "\<exists>t. rfold (free_page b) offs s = ok t
    \<and> aspace t (pages_unmap (depth s) (map ((+) b) offs) A) (rev fs @ xs) (D - set fs)
    \<and> hhdm t = hhdm s \<and> depth t = depth s"
  using assms
proof (induction offs arbitrary: s A xs D fs)
  case Nil
  then show ?case by (simp add: pages_unmap_def)
next
  case (Cons d offs)
  obtain x fs' where fs: "fs = x # fs'" using Cons.prems(6) by (cases fs) auto
  have "length xs + 1 < 2 ^ 64" "x \<in> D" using Cons.prems(3,5) by (auto simp: fs)
  moreover have "A (path (b + d) (depth s) 0) = Some (leaf_entry (x - hhdm s) flags)"
    using Cons.prems(8) by (auto simp: fs)
  ultimately obtain t where t: "free_page b d s = ok t"
    "aspace t (A(path (b + d) (depth s) 0 := None)) (x # xs) (D - {x})" "hhdm t = hhdm s" "depth t = depth s"
    using free_page_ok [OF Cons.prems(1) _ _ Cons.prems(2)] by blast
  have "(A(path (b + d) (depth s) 0 := None)) (path (b + offs ! i) (depth t) 0)
      = Some (leaf_entry (fs' ! i - hhdm t) flags)" if "i < length offs" for i
  proof -
    have "path (b + offs ! i) (depth s) 0 \<noteq> path (b + d) (depth s) 0"
      using Cons.prems(7) nth_mem [OF that] by (metis (mono_tags, lifting) distinct.simps(2) image_eqI list.simps(9) set_map)
    then show ?thesis using Cons.prems(8) that t(3,4) by (auto simp: fs)
  qed
  then have still: "\<forall>i < length offs. (A(path (b + d) (depth s) 0 := None)) (path (b + offs ! i) (depth t) 0)
      = Some (leaf_entry (fs' ! i - hhdm t) flags)" by blast
  have rest: "length (x # xs) + length fs' < 2 ^ 64" "distinct fs'" "set fs' \<subseteq> D - {x}"
    "length fs' = length offs" "distinct (map (\<lambda>d. path (b + d) (depth t) 0) offs)"
    using Cons.prems(3-7) t(4) by (auto simp: fs)
  obtain u where u: "rfold (free_page b) offs t = ok u"
    "aspace u (pages_unmap (depth t) (map ((+) b) offs) (A(path (b + d) (depth s) 0 := None)))
      (rev fs' @ x # xs) (D - {x} - set fs')" "hhdm u = hhdm t" "depth u = depth t"
    using Cons.IH [OF t(2) Cons.prems(2) rest still] by blast
  have "pages_unmap (depth t) (map ((+) b) offs) (A(path (b + d) (depth s) 0 := None))
      = pages_unmap (depth s) (map ((+) b) (d # offs)) A"
    by (rule ext) (auto simp: pages_unmap_def restrict_map_def t(4))
  moreover have "D - {x} - set fs' = D - set fs" by (auto simp: fs)
  ultimately show ?case using t(1,3,4) u by (simp add: fs)
qed

lemma pages_unmap_map:
  assumes "\<forall>v \<in> set vs. A (path v L 0) = None"
  shows "pages_unmap L vs (pages_map L flags vs ps A) = A"
proof
  fix q show "pages_unmap L vs (pages_map L flags vs ps A) q = A q"
    using assms pages_map_other [of q L vs flags ps A] by (auto simp: pages_unmap_def restrict_map_def)
qed

lemma vmm_free_alloc:
  assumes sp: "aspace s A xs D" and va: "vmem_alloc sz = Inr sect" and flags: "leaf_flags flags"
    and seg: "segment (depth s) sect (pages sz)" and room: "pages sz * depth s < length xs"
    and free: "\<forall>i < pages sz. no_superpage (depth s) A (page_of sect i)"
    and unmapped: "\<forall>i < pages sz. A (path (page_of sect i) (depth s) 0) = None"
  shows "\<exists>t u fs ys. vmm_alloc vmem_alloc s sz False flags = ok (Inr ((sect, None), t))
    \<and> vmm_free t sect sz = ok u
    \<and> length fs = pages sz \<and> aspace t (pages_map (depth s) flags (map (page_of sect) [0..<pages sz])
                   (map (\<lambda>f. f - hhdm s) fs) A) ys (D \<union> set fs)
    \<and> aspace u A (rev fs @ ys) D \<and> (\<forall>w. virt_to_phys u w = virt_to_phys s w)"
proof -
  obtain t fs ys where t: "vmm_alloc vmem_alloc s sz False flags = ok (Inr ((sect, None), t))"
    and fs: "length fs = pages sz" "distinct fs" "set fs \<inter> D = {}"
    and spt: "aspace t (pages_map (depth s) flags (map (page_of sect) [0..<pages sz])
                   (map (\<lambda>f. f - hhdm s) fs) A) ys (D \<union> set fs)"
    and len: "length fs + length ys \<le> length xs" and same: "hhdm t = hhdm s" "depth t = depth s"
    using vmm_alloc_pages [where vmem_alloc = vmem_alloc, OF sp va flags seg room free] by blast
  let ?B = "pages_map (depth s) flags (map (page_of sect) [0..<pages sz]) (map (\<lambda>f. f - hhdm s) fs) A"
  let ?offs = "page_offsets sz"
  have offs: "map ((+) sect) ?offs = map (page_of sect) [0..<pages sz]" by (rule page_offsets_of)
  have nth: "sect + ?offs ! i = page_of sect i" if "i < pages sz" for i
    using that arg_cong [OF offs, of "\<lambda>l. l ! i"] by simp
  have "length xs < 2 ^ 64" using fl_inv_length [OF aspace_fl [OF sp]] by simp
  then have l: "length ys + length fs < 2 ^ 64" using len by simp
  have paths: "distinct (map (\<lambda>v. path v (depth s) 0) (map (page_of sect) [0..<pages sz]))"
    by (rule segment_paths [OF seg])
  then have "distinct (map (\<lambda>d. path (sect + d) (depth t) 0) ?offs)"
    unfolding offs [symmetric] by (simp add: comp_def same(2))
  moreover have "\<forall>i < length ?offs. ?B (path (sect + ?offs ! i) (depth t) 0)
      = Some (leaf_entry (fs ! i - hhdm t) flags)"
    using pages_map_at [OF paths, of "map (\<lambda>f. f - hhdm s) fs"] fs(1) by (simp add: nth same)
  ultimately obtain u where u: "vmm_free t sect sz = ok u"
    "aspace u (pages_unmap (depth t) (map ((+) sect) ?offs) ?B) (rev fs @ ys) (D \<union> set fs - set fs)"
    "depth u = depth t"
    using free_loop_ok [OF spt flags l fs(2), of ?offs sect] fs(1) by (auto simp: vmm_free_def)
  have "pages_unmap (depth t) (map ((+) sect) ?offs) ?B = A"
    unfolding offs same(2) using unmapped by (intro pages_unmap_map) auto
  moreover have "D \<union> set fs - set fs = D" using fs(3) by auto
  ultimately have spu: "aspace u A (rev fs @ ys) D" using u(2) by simp
  have "virt_to_phys u w = virt_to_phys s w" for w
    using aspace_virt_to_phys [OF spu] aspace_virt_to_phys [OF sp] u(3) same(2) by simp
  with t u(1) fs(1) spt spu show ?thesis by blast
qed

end
