(* ===== verification/Frame_Allocator.thy ===== *)
theory Frame_Allocator
  imports Pmm
begin

text \<open>
  The free list as the allocator of frames the rest of the kernel calls: the contract of its
  clients (\<open>claim\<close> takes the first frame, \<open>pull\<close> puts one in front, \<open>push\<close> one behind), what
  follows from it for every client, and \<open>pmm::init\<close>, which builds the list from the memory map.
\<close>

section \<open>The contract\<close>

locale frame_allocator =
  fixes holds :: "'s \<Rightarrow> 'f list \<Rightarrow> bool"
    and claim :: "'s \<Rightarrow> ('f \<times> 's) result"
    and release release_last :: "'s \<Rightarrow> 'f \<Rightarrow> 's result"
    and frame :: "'s \<Rightarrow> 'f \<Rightarrow> bool"
    and only :: "'f set \<Rightarrow> 's \<Rightarrow> 's \<Rightarrow> bool"
    and capacity :: nat
  assumes claim_first: "holds s (x # y # ys) \<Longrightarrow>
      \<exists>t. claim s = ok (x, t) \<and> holds t (y # ys) \<and> only {y} s t"
    and release_first: "holds s xs \<Longrightarrow> frame s x \<Longrightarrow> x \<notin> set xs \<Longrightarrow> length xs + 1 < capacity \<Longrightarrow>
      \<exists>t. release s x = ok t \<and> holds t (x # xs) \<and> only (set (x # xs)) s t"
    and release_behind: "holds s xs \<Longrightarrow> frame s x \<Longrightarrow> x \<notin> set xs \<Longrightarrow> length xs + 1 < capacity \<Longrightarrow>
      \<exists>t. release_last s x = ok t \<and> holds t (xs @ [x]) \<and> only (set (x # xs)) s t"
    and holds_list: "holds s xs \<Longrightarrow> xs \<noteq> [] \<and> distinct xs \<and> length xs < capacity \<and> (\<forall>x \<in> set xs. frame s x)"
    and only_frame: "only F s t \<Longrightarrow> frame t x = frame s x"
    and only_refl: "only F s s"
    and only_step: "only F s t \<Longrightarrow> only G t u \<Longrightarrow> F \<subseteq> H \<Longrightarrow> G \<subseteq> H \<Longrightarrow> only H s u"
begin

primrec claims :: "nat \<Rightarrow> 's \<Rightarrow> ('f list \<times> 's) result" where
  "claims 0 s = ok ([], s)"
| "claims (Suc n) s = rbind (claim s) (\<lambda>(x, s). rbind (claims n s) (\<lambda>(xs, s). ok (x # xs, s)))"

lemma claims_take:
  "holds s xs \<Longrightarrow> n < length xs \<Longrightarrow>
    \<exists>t. claims n s = ok (take n xs, t) \<and> holds t (drop n xs) \<and> only (set xs) s t"
proof (induction n arbitrary: s xs)
  case 0
  then show ?case by (simp add: only_refl)
next
  case (Suc n)
  then obtain x y ys where xs: "xs = x # y # ys" by (cases xs; cases "tl xs") auto
  obtain t where t: "claim s = ok (x, t)" "holds t (y # ys)" "only {y} s t"
    using claim_first Suc.prems(1) unfolding xs by blast
  from Suc.IH [OF t(2)] Suc.prems(2) obtain u where
    u: "claims n t = ok (take n (y # ys), u)" "holds u (drop n (y # ys))" "only (set (y # ys)) t u"
    by (auto simp: xs)
  have "only (set xs) s u" by (rule only_step [OF t(3) u(3)]) (auto simp: xs)
  with t u show ?case by (simp add: xs)
qed

lemma claims_distinct:
  assumes "holds s xs" "n < length xs"
  shows "\<exists>fs t ys. claims n s = ok (fs, t) \<and> length fs = n \<and> distinct fs \<and> set fs \<inter> set ys = {}
    \<and> holds t ys \<and> (\<forall>x \<in> set fs. frame t x)"
proof -
  obtain t where t: "claims n s = ok (take n xs, t)" "holds t (drop n xs)" "only (set xs) s t"
    using claims_take [OF assms] by blast
  have d: "distinct (take n xs @ drop n xs)" and f: "\<forall>x \<in> set xs. frame s x" using holds_list [OF assms(1)] by simp_all
  then have "set (take n xs) \<inter> set (drop n xs) = {}" "distinct (take n xs)" by (simp_all only: distinct_append)
  with t f assms(2) only_frame [OF t(3)] show ?thesis
    by (intro exI [of _ "take n xs"] exI [of _ t] exI [of _ "drop n xs"]) (auto dest: in_set_takeD)
qed

lemma release_claim:
  assumes "holds s xs" "frame s x" "x \<notin> set xs" "length xs + 1 < capacity"
  shows "\<exists>t u. release s x = ok t \<and> claim t = ok (x, u) \<and> holds u xs"
proof -
  obtain t where t: "release s x = ok t" "holds t (x # xs)" using release_first [OF assms] by blast
  moreover obtain y ys where "xs = y # ys" using holds_list [OF assms(1)] by (cases xs) auto
  ultimately show ?thesis using claim_first [of t x y ys] by auto
qed

lemma release_all:
  "holds s xs \<Longrightarrow> distinct (fs @ xs) \<Longrightarrow> \<forall>x \<in> set fs. frame s x \<Longrightarrow> length xs + length fs < capacity \<Longrightarrow>
    \<exists>t. rfold (\<lambda>x s. release_last s x) fs s = ok t \<and> holds t (xs @ fs) \<and> only (set (xs @ fs)) s t"
proof (induction fs arbitrary: s xs)
  case (Cons x fs)
  have "x \<notin> set xs" "frame s x" "length xs + 1 < capacity" using Cons.prems by auto
  then obtain t where t: "release_last s x = ok t" "holds t (xs @ [x])" "only (set (x # xs)) s t"
    using release_behind [OF Cons.prems(1)] by blast
  have "distinct (fs @ xs @ [x])" "\<forall>x \<in> set fs. frame t x" "length (xs @ [x]) + length fs < capacity"
    using Cons.prems only_frame [OF t(3)] by auto
  from Cons.IH [OF t(2) this] obtain u where
    u: "rfold (\<lambda>x s. release_last s x) fs t = ok u" "holds u ((xs @ [x]) @ fs)" "only (set ((xs @ [x]) @ fs)) t u"
    by blast
  have "only (set (xs @ x # fs)) s u" by (rule only_step [OF t(3) u(3)]) auto
  with t(1) u show ?case by simp
qed (simp add: only_refl)

end

interpretation fl: frame_allocator fl_inv fl_claim fl_pull fl_push frame_ok changes_only "2 ^ 64"
proof (unfold_locales, goal_cases)
  case (1 s x y ys)
  then show ?case by (rule fl_claim_inv)
next
  case (2 s xs x)
  then show ?case by (rule fl_pull_inv)
next
  case (3 s xs x)
  then show ?case by (rule fl_push_inv)
next
  case (4 s xs)
  then show ?case using fl_inv_length [of s xs] by (auto simp: fl_inv_def)
next
  case (5 F s t x)
  then show ?case by (rule changes_only_frame_ok)
next
  case (6 F s)
  show ?case by simp
next
  case (7 F s t G u H)
  then show ?case by (meson changes_only_mono changes_only_trans)
qed

section \<open>init\<close>

lemma pmm_add_frames_append:
  "pmm_add_frames (fs @ gs) us = rbind (pmm_add_frames fs us) (pmm_add_frames gs)"
  by (induction fs us rule: pmm_add_frames.induct) (auto intro!: rbind_cong)

lemma pmm_add_frames_push: "pmm_add_frames fs (False, s) = rbind (rfold (\<lambda>x s. fl_push s x) fs s) (\<lambda>s. ok (False, s))"
  by (induction fs arbitrary: s) simp_all

lemma fl_init_hhdm: "fl_init s x = ok t \<Longrightarrow> hhdm t = hhdm s"
  by (auto simp: fl_init_def rbind_eq_ok wr_def split: if_splits)

lemma fl_push_hhdm: "fl_push s x = ok t \<Longrightarrow> hhdm t = hhdm s"
  by (auto simp: fl_push_def rbind_eq_ok wr_def split: if_splits)

lemma pmm_add_frames_hhdm: "pmm_add_frames fs us = ok (b, t) \<Longrightarrow> hhdm t = hhdm (snd us)"
  by (induction fs us rule: pmm_add_frames.induct)
    (auto simp: rbind_eq_ok dest: fl_init_hhdm fl_push_hhdm split: if_splits)

text \<open>The frames of the map, entry after entry.\<close>

definition usable_frames :: "machine \<Rightarrow> memory_entry list \<Rightarrow> u64 list" where
  "usable_frames s entries = concat (map (entry_frames s) entries)"

lemma usable_frames_hhdm: "hhdm t = hhdm s \<Longrightarrow> usable_frames t es = usable_frames s es"
  by (induction es) (simp_all add: usable_frames_def entry_frames_def)

lemma pmm_init_entries:
  "rfold (\<lambda>e (uninit, t). pmm_add_frames (entry_frames t e) (uninit, t)) entries us
    = pmm_add_frames (usable_frames (snd us) entries) us"
proof (induction entries arbitrary: us)
  case (Cons e es)
  have "rbind (pmm_add_frames (entry_frames (snd us) e) us) (pmm_add_frames (usable_frames (snd us) es))
    = rbind (pmm_add_frames (entry_frames (snd us) e) us) (\<lambda>vt. pmm_add_frames (usable_frames (snd vt) es) vt)"
  proof (rule rbind_cong)
    fix vt assume "pmm_add_frames (entry_frames (snd us) e) us = ok vt"
    then have "hhdm (snd vt) = hhdm (snd us)" using pmm_add_frames_hhdm by (cases vt) auto
    then have "usable_frames (snd vt) es = usable_frames (snd us) es"
      by (rule usable_frames_hhdm)
    then show "pmm_add_frames (usable_frames (snd us) es) vt = pmm_add_frames (usable_frames (snd vt) es) vt"
      by simp
  qed simp
  moreover have "rfold (\<lambda>e (uninit, t). pmm_add_frames (entry_frames t e) (uninit, t)) es
    = (\<lambda>vt. pmm_add_frames (usable_frames (snd vt) es) vt)" using Cons.IH by blast
  ultimately show ?case
    by (simp add: pmm_add_frames_append usable_frames_def case_prod_beta')
next
  case Nil
  show ?case by (cases us) (simp add: usable_frames_def)
qed

lemma pmm_init_frames:
  assumes "usable_frames s entries = x # fs" "distinct (x # fs)" "length (x # fs) < 2 ^ 64"
    and "\<forall>y \<in> set (x # fs). frame_ok s y" "0 < hhdm s"
  shows "\<exists>t. pmm_init s entries = ok t \<and> fl_inv t (x # fs) \<and> changes_only (set (x # fs)) s t"
proof -
  obtain t where t: "fl_init s x = ok t" "fl_inv t [x]" "changes_only {x} s t"
    using fl_init_inv [of s x] assms by auto
  have "\<forall>y \<in> set fs. frame_ok t y" using assms(4) changes_only_frame_ok [OF t(3)] by simp
  then obtain u where u: "rfold (\<lambda>x s. fl_push s x) fs t = ok u" "fl_inv u ([x] @ fs)"
    "changes_only (set ([x] @ fs)) t u"
    using fl.release_all [OF t(2), of fs] assms(2,3) by auto
  have "pmm_add_frames (usable_frames s entries) (True, s) = ok (False, u)"
    using t(1) u(1) by (simp add: assms(1) pmm_add_frames_push)
  then have "pmm_init s entries = ok u" by (simp add: pmm_init_def pmm_init_entries)
  moreover have "changes_only (set (x # fs)) s u" by (rule fl.only_step [OF t(3) u(3)]) auto
  ultimately show ?thesis using u(2) by auto
qed

text \<open>The pages of a memory map, written without the loops of \<open>pmm::init\<close>: page \<open>k\<close> of entry \<open>i\<close> is
  the pair of the two numbers. It is one when the entry is usable and the page starts within it.\<close>

definition usable_pages :: "memory_entry list \<Rightarrow> (nat \<times> nat) set" where
  "usable_pages entries =
     {(i, k). i < length entries \<and> e_kind (entries ! i) = Usable \<and> 4096 * k < unat (e_size (entries ! i))}"

definition page_address :: "machine \<Rightarrow> memory_entry list \<Rightarrow> nat \<times> nat \<Rightarrow> u64" where
  "page_address s entries p = hhdm s + e_base (entries ! fst p) + of_nat (4096 * snd p)"

definition comes_before :: "nat \<times> nat \<Rightarrow> nat \<times> nat \<Rightarrow> bool" where
  "comes_before p p' \<longleftrightarrow> fst p < fst p' \<or> fst p = fst p' \<and> snd p < snd p'"

definition pages_in_order :: "memory_entry list \<Rightarrow> (nat \<times> nat) list" where
  "pages_in_order entries =
     concat (map (\<lambda>i. if e_kind (entries ! i) = Usable
                      then map (Pair i) [0..<(unat (e_size (entries ! i)) + 0xfff) div 0x1000] else [])
               [0..<length entries])"

lemma set_pages_in_order: "set (pages_in_order entries) = usable_pages entries"
proof -
  have "k < (n + 0xfff) div 0x1000 \<longleftrightarrow> 4096 * k < n" for k n :: nat by arith
  then show ?thesis by (auto simp: pages_in_order_def usable_pages_def split: if_splits)
qed

lemma sorted_wrt_pairs: "sorted_wrt comes_before (map (Pair i) [0..<n])"
  by (simp add: sorted_wrt_map comes_before_def)

lemma sorted_pages_in_order: "sorted_wrt comes_before (pages_in_order entries)"
proof -
  have "sorted_wrt comes_before (concat (map (\<lambda>i. if P i then map (Pair i) [0..<f i] else []) [0..<n]))"
    for P and f :: "nat \<Rightarrow> nat" and n
    by (induction n) (auto simp: sorted_wrt_append sorted_wrt_map comes_before_def split: if_splits)
  then show ?thesis unfolding pages_in_order_def .
qed

lemma pages_in_order_frames: "map (page_address s entries) (pages_in_order entries) = usable_frames s entries"
proof -
  have "usable_frames s entries = concat (map (\<lambda>i. entry_frames s (entries ! i)) [0..<length entries])"
    unfolding usable_frames_def by (subst (1) map_nth [of entries, symmetric]) (simp only: map_map comp_def)
  moreover have "map (page_address s entries) (if e_kind (entries ! i) = Usable
        then map (Pair i) [0..<(unat (e_size (entries ! i)) + 0xfff) div 0x1000] else [])
      = entry_frames s (entries ! i)" for i
    by (simp add: entry_frames_def page_offsets_def page_address_def ac_simps)
  ultimately show ?thesis by (simp only: pages_in_order_def map_concat map_map comp_def)
qed

lemma few_frames:
  assumes "distinct xs" "\<forall>x \<in> set xs. frame_ok s x"
  shows "length xs < 2 ^ 64"
proof -
  have "\<not> page_aligned 1" by (simp add: page_aligned_def)
  then have "1 \<notin> set xs" using assms(2) frame_ok_aligned by blast
  then have "set xs \<subset> (UNIV :: u64 set)" by auto
  then have "card (set xs) < card (UNIV :: u64 set)" by (intro psubset_card_mono) simp_all
  then show ?thesis using assms(1) by (simp add: distinct_card card_word)
qed

lemma pmm_init_pages:
  assumes inj: "inj_on (page_address s entries) (usable_pages entries)"
    and ok: "\<forall>p \<in> usable_pages entries. frame_ok s (page_address s entries p)"
    and some: "usable_pages entries \<noteq> {}" and h: "0 < hhdm s"
  shows "\<exists>t ps. sorted_wrt comes_before ps \<and> set ps = usable_pages entries
    \<and> pmm_init s entries = ok t \<and> fl_inv t (map (page_address s entries) ps)
    \<and> changes_only (page_address s entries ` usable_pages entries) s t"
proof -
  let ?ps = "pages_in_order entries" and ?xs = "map (page_address s entries) (pages_in_order entries)"
  have irr: "\<not> comes_before p p" for p by (simp add: comes_before_def)
  have "distinct ?ps"
    using sorted_pages_in_order [of entries] by (auto simp: sorted_wrt_iff_nth_less distinct_conv_nth irr) (metis irr linorder_neqE_nat)
  then have d: "distinct ?xs" using inj by (simp add: distinct_map set_pages_in_order)
  have ok': "\<forall>y \<in> set ?xs. frame_ok s y" using ok by (simp add: set_pages_in_order)
  obtain x fs where x: "?xs = x # fs" using some by (cases ?ps) (auto simp flip: set_pages_in_order)
  have u: "usable_frames s entries = x # fs" using x by (simp only: pages_in_order_frames)
  have "length (x # fs) < 2 ^ 64" using few_frames [OF d ok'] by (simp only: x)
  from pmm_init_frames [OF u _ this _ h] d ok'
  obtain t where t: "pmm_init s entries = ok t" "fl_inv t ?xs" "changes_only (set ?xs) s t"
    by (auto simp only: x)
  have "set ?xs = page_address s entries ` usable_pages entries" by (simp add: set_pages_in_order)
  with t sorted_pages_in_order set_pages_in_order show ?thesis by metis
qed

end
