(* ===== verification/Boot_Example.thy ===== *)
theory Boot_Example
  imports Vmm_Alloc Frame_Allocator
begin

text \<open>
  A small machine on which the hypotheses of the memory properties hold: 16 pages of zeroed RAM
  behind a direct map at \<open>0x80000000\<close>, satp (zero) pointing to the first of them as an empty
  root table of three levels, and the other 15 on the free list, which \<open>pmm::init\<close> builds.
\<close>

definition ram :: "u64 \<rightharpoonup> u64" where
  "ram a = (if 0x80000000 \<le> a \<and> a < 0x80010000 then Some 0 else None)"

definition cold :: machine where
  "cold = \<lparr>mem = ram, hhdm = 0x80000000, fl_head = 0, fl_tail = 0, fl_len = 0, levels = 3,
           satp = 0, fences = []\<rparr>"

definition ram_map :: "memory_entry list" where
  "ram_map = [\<lparr>e_kind = OtherKind, e_base = 0, e_size = 0x1000\<rparr>,
              \<lparr>e_kind = Usable, e_base = 0x1000, e_size = 0xf000\<rparr>]"

definition ram_frames :: "u64 list" where
  "ram_frames = map (page_of 0x80001000) [0..<15]"

lemma page_unfold: "page_of b i = b + 0x1000 * of_nat i"
  by (simp add: page_of_def)

lemma ram_page:
  assumes "page_aligned p" "0x80000000 \<le> p" "p < 0x80010000" "i < 512"
  shows "ram (slot p i) = Some 0"
proof -
  have s: "unat (slot p i) = unat p + 8 * i" by (rule unat_slot [OF assms(1,4)])
  have p: "0x80000000 \<le> unat p" "unat p < 0x80010000"
    using assms(2,3) by (simp_all add: word_le_nat_alt word_less_nat_alt)
  have "unat p mod 4096 = 0" using assms(1) by (simp add: page_aligned_mod)
  then obtain k where "unat p = 4096 * k" by auto
  with p assms(4) have "unat p + 8 * i < 0x80010000" by simp
  with p s show ?thesis by (simp add: ram_def word_le_nat_alt word_less_nat_alt)
qed

lemma ram_frame:
  assumes "page_aligned p" "0x80000000 \<le> p" "p < 0x80010000"
  shows "frame_ok cold p"
proof -
  have "p - 0x80000000 < 2 ^ 56"
    using assms(2,3) by (simp add: word_less_nat_alt unat_sub word_le_nat_alt)
  then show ?thesis using assms ram_page [OF assms] by (simp add: frame_ok_def cold_def page_mapped_def)
qed

lemma ram_frames_ok: "\<forall>p \<in> set ram_frames. frame_ok cold p"
proof
  fix p assume "p \<in> set ram_frames"
  then obtain i where i: "p = page_of 0x80001000 i" "i < 15" by (auto simp: ram_frames_def)
  have "unat p = 0x80001000 + 0x1000 * i"
    using i(2) by (simp add: i(1) page_of_def unat_word_ariths unat_of_nat)
  then show "frame_ok cold p"
    using i(2) page_of_aligned
    by (intro ram_frame) (simp_all add: i(1) page_aligned_def word_le_nat_alt word_less_nat_alt)
qed

lemma ram_frames_distinct: "distinct ram_frames" "length ram_frames = 15"
  by (simp_all add: ram_frames_def page_of_def upt_rec)

lemma ram_usable: "usable_frames cold ram_map = ram_frames"
  by (simp add: usable_frames_def ram_map_def entry_frames_def page_offsets_def ram_frames_def page_of_def
      cold_def upt_rec)

definition warm :: machine where
  "warm = (case pmm_init cold ram_map of Some (Inr t) \<Rightarrow> t | _ \<Rightarrow> cold)"

lemma warm_boots: "pmm_init cold ram_map = ok warm" "fl_inv warm ram_frames"
  "changes_only (set ram_frames) cold warm"
proof -
  obtain x fs where fs: "ram_frames = x # fs" using ram_frames_distinct(2) by (cases ram_frames) auto
  have "0 < hhdm cold" by (simp add: cold_def)
  then obtain t where "pmm_init cold ram_map = ok t" "fl_inv t ram_frames" "changes_only (set ram_frames) cold t"
    using pmm_init_frames [of cold ram_map x fs] ram_frames_ok ram_frames_distinct
    by (auto simp: ram_usable fs)
  then show "pmm_init cold ram_map = ok warm" "fl_inv warm ram_frames"
    "changes_only (set ram_frames) cold warm" by (simp_all add: warm_def)
qed

lemma warm_fields [simp]: "hhdm warm = 0x80000000" "levels warm = 3" "satp warm = 0" "fences warm = []"
  using warm_boots(3) by (simp_all add: changes_only_def cold_def)

lemma warm_table [simp]: "current_table warm = 0x80000000"
  by (simp add: current_table_def satp_get_ppn_def bf_get_def)

lemma warm_root: "i < 512 \<Longrightarrow> mem warm (slot 0x80000000 i) = Some 0"
proof -
  assume i: "i < 512"
  have "mem warm (slot 0x80000000 i) = mem cold (slot 0x80000000 i)"
  proof (rule changes_only_cell [OF warm_boots(3) _ _ _ i])
    show "0x80000000 \<notin> set ram_frames" by (simp add: ram_frames_def page_of_def upt_rec)
    show "\<forall>y \<in> set ram_frames. page_aligned y" using ram_frames_ok by auto
  qed (simp add: page_aligned_def)
  with i show ?thesis using ram_page [of "0x80000000" i] by (simp add: cold_def page_aligned_def)
qed

abbreviation warm_tree :: "nat list \<rightharpoonup> u64" where
  "warm_tree \<equiv> [[] \<mapsto> 0x80000000]"

lemma warm_tables: "pt_inv warm 3 warm_tree ram_frames" "leaves warm warm_tree = (\<lambda>_. None)"
proof -
  have root: "0x80000000 \<notin> set ram_frames" by (simp add: ram_frames_def page_of_def upt_rec)
  have ok: "frame_ok warm 0x80000000"
    using ram_frame [of "0x80000000"] changes_only_frame_ok [OF warm_boots(3)] by (simp add: page_aligned_def)
  show "pt_inv warm 3 warm_tree ram_frames"
    by (rule pt_invI)
      (use root ok in \<open>auto simp: warm_root entry_ok_def page_aligned_def split: if_splits\<close>)
  have "leaf_at warm 0x80000000 i = None" for i
    by (cases "i < 512") (simp_all add: leaf_at_def warm_root)
  then show "leaves warm warm_tree = (\<lambda>_. None)"
    by (intro ext) (auto simp: leaves_def split: option.splits if_splits)
qed

lemma warm_aspace: "aspace warm (\<lambda>_. None) ram_frames {}"
  using warm_tables warm_boots(2) unfolding aspace_def
  by (intro exI [of _ warm_tree]) (simp add: in_use_def)

lemma warm_null: "mem warm 0 = None"
proof -
  have "mem cold 0 = None" by (simp add: cold_def ram_def)
  moreover have "dom (mem warm) = dom (mem cold)"
    using warm_boots(3) by (simp add: changes_only_def mem_only_def)
  ultimately show ?thesis by (metis domIff)
qed

lemma read_flags: "leaf_flags flag_READ"
  by (simp add: leaf_flags_def pte_read_def flag_READ_def bf_flag_def bf_get_def take_bit_eq_mod)

lemma warm_tree_below: "k < 3 \<Longrightarrow> warm_tree (path v 3 k) = None"
  using length_path [of v 3 k] by (cases "path v 3 k") auto

end
