(* ===== verification/Memory_Properties.thy ===== *)
theory Memory_Properties
  imports Boot_Example
begin

text \<open>
  The properties of the memory subsystem (LSD/src/memory/pmm.rs and vmm.rs), each after its
  statement in words, with the instance of it on the machine of Boot_Example.
\<close>

section \<open>Virtual memory\<close>

text \<open>C1. Running \<open>map\<close> on a table tree of \<open>L\<close> levels with target level \<open>k\<close> is an update of the
  address space: when no leaf lies on the way, no table sits where the leaf goes, and the free
  list has a frame for each missing table and one to spare, the call returns, the map of leaves
  changes at the path of the address only, the missing tables take the first free frames, and
  both the tree and the free list are well formed afterwards.\<close>

theorem map_refines_update:
  assumes "pt_inv s L T xs" "fl_inv s xs" "T [] = Some root" "0 < k" "k \<le> L" "leaf_flags flags"
    and "T (path v L (k - 1)) = None"
    and "\<And>i. k \<le> i \<Longrightarrow> i < L \<Longrightarrow> leaves s T (path v L i) = None"
    and "missing T v L k L < length xs"
  shows "\<exists>t T'. vmm_map s root v phys (lv L) (lv k) flags = ok t
    \<and> fl_inv t (drop (missing T v L k L) xs) \<and> pt_inv t L T' (drop (missing T v L k L) xs)
    \<and> leaves t T' = (leaves s T)(path v L (k - 1) \<mapsto> leaf_entry phys flags)
    \<and> dom T' = dom T \<union> path v L ` {k..<L} \<and> T \<subseteq>\<^sub>m T'
    \<and> changes_only (ran T \<union> set xs) s t"
  using map_walk [of k L L s T xs v root flags phys] assms by (fastforce simp: mapped_to_def)

theorem map_refines_update_witness:
  "\<exists>t T'. vmm_map warm 0x80000000 0x40000000 0x200000 Level3 Level2 flag_READ = ok t
    \<and> leaves t T' = [path 0x40000000 3 1 \<mapsto> leaf_entry 0x200000 flag_READ]"
proof -
  have "missing warm_tree 0x40000000 3 2 3 < length ram_frames"
    using missing_le [of warm_tree "0x40000000" 3 2 3] ram_frames_distinct(2) by simp
  then have "\<exists>t T'. vmm_map warm 0x80000000 0x40000000 0x200000 (lv 3) (lv 2) flag_READ = ok t
    \<and> fl_inv t (drop (missing warm_tree 0x40000000 3 2 3) ram_frames)
    \<and> pt_inv t 3 T' (drop (missing warm_tree 0x40000000 3 2 3) ram_frames)
    \<and> leaves t T' = (leaves warm warm_tree)(path 0x40000000 3 (2 - 1) \<mapsto> leaf_entry 0x200000 flag_READ)
    \<and> dom T' = dom warm_tree \<union> path 0x40000000 3 ` {2..<3} \<and> warm_tree \<subseteq>\<^sub>m T'
    \<and> changes_only (ran warm_tree \<union> set ram_frames) warm t"
    by (intro map_refines_update [OF warm_tables(1) warm_boots(2)])
      (simp_all add: read_flags warm_tree_below warm_tables(2))
  then show ?thesis using warm_tables(2) by auto
qed

text \<open>C2. \<open>virt_to_phys\<close> always returns: on every address it answers with the translation of the
  first leaf on the way down (page address and offset), or with the error \<open>Table not found\<close> when
  there is none.\<close>

theorem virt_to_phys_total:
  assumes "aspace s A xs D"
  shows "virt_to_phys s v =
    ok (case xlate (depth s) A (depth s) v of Some a \<Rightarrow> Inr a | None \<Rightarrow> Inl ''Table not found'')"
  by (rule aspace_virt_to_phys [OF assms])

theorem virt_to_phys_total_witness: "virt_to_phys warm 0x40000000 = ok (Inl ''Table not found'')"
proof -
  have "xlate L (\<lambda>_. None) k v = None" for L k v by (induction k) simp_all
  then show ?thesis using virt_to_phys_total [OF warm_aspace, of "0x40000000"] by simp
qed

text \<open>\<open>unmap\<close> of a 4096-byte page, on every branch: when the address is mapped the call
  returns the physical address of its leaf, removes that leaf and nothing else, and leaves the
  free list alone; when it is not, one of the three panics is raised.\<close>

theorem unmap_outcome:
  assumes "aspace s A xs D"
  shows "case A (path v (depth s) 0) of
      Some e \<Rightarrow> \<exists>t. vmm_unmap s (current_table s) v (load_level s) Level1
                      = ok (push_bit 12 (pte_get_ppn e), t)
                  \<and> aspace t (A(path v (depth s) 0 := None)) xs D
    | None \<Rightarrow> \<exists>msg. vmm_unmap s (current_table s) v (load_level s) Level1 = fail (Panic msg)"
proof (cases "A (path v (depth s) 0)")
  case None
  obtain T where T: "pt_inv s (depth s) T xs" "T [] = Some (current_table s)" "A = leaves s T"
    using assms by (auto simp: aspace_def)
  then show ?thesis
    using None unmap_panics [OF T(1,2), of 1 v] pt_inv_levels [OF T(1)] by (simp add: load_level_lv)
next
  case (Some e)
  then show ?thesis using aspace_unmap [OF assms Some] by auto
qed

theorem unmap_outcome_witness:
  "\<exists>t u. vmm_map warm 0x80000000 0x5000 0x80003000 Level3 Level1 flag_READ = ok t
    \<and> vmm_unmap t 0x80000000 0x5000 Level3 Level1 = ok (0x80003000, u)"
proof -
  have "depth warm \<le> length ram_frames" "no_superpage (depth warm) (\<lambda>_. None) 0x5000"
    by (simp_all add: ram_frames_distinct no_superpage_def)
  then obtain t n where t: "vmm_map warm (current_table warm) 0x5000 0x80003000 (load_level warm) Level1 flag_READ = ok t"
    "aspace t ((\<lambda>_. None)(path 0x5000 (depth warm) 0 \<mapsto> leaf_entry 0x80003000 flag_READ)) (drop n ram_frames) {}"
    "hhdm t = hhdm warm" "levels t = levels warm" "satp t = satp warm"
    using aspace_map [OF warm_aspace read_flags] by blast
  have l: "load_level t = Level3" "current_table t = 0x80000000" "load_level warm = Level3"
    using t(3-5) by (simp_all add: load_level_lv current_table_def satp_get_ppn_def bf_get_def)
  have "push_bit 12 (pte_get_ppn (leaf_entry 0x80003000 flag_READ)) = 0x80003000"
    by (rule leaf_entry_phys [OF read_flags]) (simp_all add: page_aligned_def)
  then show ?thesis using t(1,4) l unmap_outcome [OF t(2), of "0x5000"] by auto
qed

text \<open>C3. \<open>Vmm::alloc\<close> of a segment that the arena placed at \<open>sect\<close>, not contiguous: it returns
  the segment; its pages translate to distinct frames taken from the free list, each byte at its
  offset, and these frames are neither free nor page tables nor in use for anything else; every
  address outside the segment translates as before; each page was fenced after it was mapped.\<close>

theorem alloc_maps_segment:
  assumes "aspace s A xs D" "vmem_alloc sz = Inr sect" "leaf_flags flags"
    and "segment (depth s) sect (pages sz)" "pages sz * depth s < length xs"
    and "\<forall>i < pages sz. no_superpage (depth s) A (page_of sect i)"
  shows "\<exists>t fs ys B. vmm_alloc vmem_alloc s sz False flags = ok (Inr ((sect, None), t))
    \<and> length fs = pages sz \<and> distinct fs \<and> set fs \<inter> D = {} \<and> set fs \<subseteq> set xs
    \<and> aspace t B ys (D \<union> set fs) \<and> maps_segment s t sect (map (\<lambda>f. f - hhdm s) fs)
    \<and> fences t = rev (map (\<lambda>i. (Some (page_of sect i), None)) [0..<pages sz]) @ fences s"
  using vmm_alloc_pages [where vmem_alloc = vmem_alloc, OF assms] by blast

lemma warm_segment: "segment (depth warm) 0x40000000 n" if "n \<le> 16"
  using that by (simp add: segment_def page_aligned_def)

lemma warm_no_superpage: "no_superpage (depth warm) (\<lambda>_. None) v"
  by (simp add: no_superpage_def)

theorem alloc_maps_segment_witness:
  "\<exists>t fs. vmm_alloc (\<lambda>_. Inr 0x40000000 :: string + usize) warm 0x3001 False flag_READ
      = ok (Inr ((0x40000000, None), t))
    \<and> length fs = 4 \<and> maps_segment warm t 0x40000000 (map (\<lambda>f. f - 0x80000000) fs)"
proof -
  have "pages 0x3001 = 4" by (simp add: pages_def)
  then show ?thesis
    using alloc_maps_segment [of warm "\<lambda>_. None" ram_frames "{}" "\<lambda>_. Inr 0x40000000 :: string + usize"
        "0x3001" "0x40000000" flag_READ] warm_aspace read_flags warm_segment [of 4] warm_no_superpage ram_frames_distinct
    by auto
qed

text \<open>C4. A contiguous \<open>Vmm::alloc\<close> takes the first run of frames with consecutive addresses and
  maps the segment onto it in order; the physical address it returns is that of the first page.\<close>

theorem alloc_contiguous_maps_run:
  assumes "aspace s A xs D" "vmem_alloc sz = Inr sect" "leaf_flags flags"
    and "segment (depth s) sect (pages sz)" "mem s 0 = None" "0 < pages sz"
    and "first_run (pages sz) 0 xs = Some i" "i + pages sz < length xs"
    and "pages sz * depth s + pages sz \<le> length xs"
    and "\<forall>i < pages sz. no_superpage (depth s) A (page_of sect i)"
  shows "\<exists>t B ys. vmm_alloc vmem_alloc s sz True flags = ok (Inr ((sect, Some (xs ! i - hhdm s)), t))
    \<and> aspace t B ys (D \<union> set (frames_from (xs ! i) (pages sz)))
    \<and> maps_segment s t sect (map (page_of (xs ! i - hhdm s)) [0..<pages sz])"
  by (rule vmm_alloc_run [where vmem_alloc = vmem_alloc, OF assms])

lemma ram_run: "first_run 3 0 ram_frames = Some 0" "ram_frames ! 0 = 0x80001000"
  by (simp_all add: ram_frames_def page_of_def upt_rec window_def frames_from_def)

theorem alloc_contiguous_maps_run_witness:
  "\<exists>t. vmm_alloc (\<lambda>_. Inr 0x40000000 :: string + usize) warm 0x3000 True flag_READ
      = ok (Inr ((0x40000000, Some 0x1000), t))
    \<and> maps_segment warm t 0x40000000 (map (page_of 0x1000) [0..<3])"
proof -
  have "pages 0x3000 = 3" by (simp add: pages_def)
  then show ?thesis
    using alloc_contiguous_maps_run [of warm "\<lambda>_. None" ram_frames "{}" "\<lambda>_. Inr 0x40000000 :: string + usize"
        "0x3000" "0x40000000" flag_READ 0] warm_aspace read_flags warm_segment [of 3] warm_no_superpage warm_null
      ram_frames_distinct ram_run by auto
qed

text \<open>\<open>Vmm::alloc_constrained\<close> on the same claim steps to the next frame before it maps one:
  page \<open>i\<close> of the segment translates to frame \<open>i + 1\<close> of the claim, so that the first page is
  not at the physical address returned and the last page is mapped to the frame behind the
  claim, which was not claimed.\<close>

theorem alloc_constrained_shifts_run:
  assumes "aspace s A xs D" "vmem_alloc sz = Inr sect" "leaf_flags flags"
    and "segment (depth s) sect (pages sz)" "mem s 0 = None" "0 < pages sz"
    and "first_run (pages sz) 0 xs = Some i" "i + pages sz < length xs"
    and "pages sz * depth s + pages sz \<le> length xs"
    and "\<forall>i < pages sz. no_superpage (depth s) A (page_of sect i)"
    and "unat (xs ! i - hhdm s) + 4096 * pages sz < 2 ^ 56"
  shows "\<exists>t B ys. vmm_alloc_constrained vmem_alloc s sz True flags
      = ok (Inr ((sect, Some (xs ! i - hhdm s)), t))
    \<and> aspace t B ys (D \<union> set (frames_from (xs ! i) (pages sz)))
    \<and> maps_segment s t sect (map (page_of (xs ! i - hhdm s + 4096)) [0..<pages sz])"
  by (rule vmm_alloc_constrained_run [where vmem_alloc = vmem_alloc, OF assms])

theorem alloc_constrained_shifts_run_witness:
  "\<exists>t. vmm_alloc_constrained (\<lambda>_. Inr 0x40000000 :: string + usize) warm 0x3000 True flag_READ
      = ok (Inr ((0x40000000, Some 0x1000), t))
    \<and> maps_segment warm t 0x40000000 (map (page_of 0x2000) [0..<3])"
proof -
  have "pages 0x3000 = 3" by (simp add: pages_def)
  then show ?thesis
    using alloc_constrained_shifts_run [of warm "\<lambda>_. None" ram_frames "{}" "\<lambda>_. Inr 0x40000000 :: string + usize"
        "0x3000" "0x40000000" flag_READ 0] warm_aspace read_flags warm_segment [of 3] warm_no_superpage warm_null
      ram_frames_distinct ram_run by auto
qed

text \<open>C5. \<open>Vmm::free\<close> undoes \<open>Vmm::alloc\<close>: every address translates as before the allocation, and
  the frames of the segment are back at the front of the free list (the page tables stay).\<close>

theorem free_undoes_alloc:
  assumes "aspace s A xs D" "vmem_alloc sz = Inr sect" "leaf_flags flags"
    and "segment (depth s) sect (pages sz)" "pages sz * depth s < length xs"
    and "\<forall>i < pages sz. no_superpage (depth s) A (page_of sect i)"
    and "\<forall>i < pages sz. A (path (page_of sect i) (depth s) 0) = None"
  shows "\<exists>t u fs ys B. vmm_alloc vmem_alloc s sz False flags = ok (Inr ((sect, None), t))
    \<and> vmm_free t sect sz = ok u
    \<and> length fs = pages sz \<and> aspace t B ys (D \<union> set fs) \<and> aspace u A (rev fs @ ys) D
    \<and> (\<forall>w. virt_to_phys u w = virt_to_phys s w)"
  using vmm_free_alloc [where vmem_alloc = vmem_alloc, OF assms] by blast

theorem free_undoes_alloc_witness:
  "\<exists>t u. vmm_alloc (\<lambda>_. Inr 0x40000000 :: string + usize) warm 0x3001 False flag_READ
      = ok (Inr ((0x40000000, None), t))
    \<and> vmm_free t 0x40000000 0x3001 = ok u \<and> (\<forall>w. virt_to_phys u w = virt_to_phys warm w)"
proof -
  have "pages 0x3001 = 4" by (simp add: pages_def)
  then show ?thesis
    using free_undoes_alloc [of warm "\<lambda>_. None" ram_frames "{}" "\<lambda>_. Inr 0x40000000 :: string + usize"
        "0x3001" "0x40000000" flag_READ] warm_aspace read_flags warm_segment [of 4] warm_no_superpage ram_frames_distinct
    by auto
qed

text \<open>\<open>map\<close> never replaces a large page: when a leaf lies above the target level on the way to
  the address, the call panics and nothing is written.\<close>

theorem map_over_leaf_panics:
  assumes "pt_inv s L T xs" "T [] = Some root" "0 < k" "k \<le> j" "j < L" "leaves s T (path v L j) = Some e"
  shows "vmm_map s root v phys (lv L) (lv k) flags = fail (Panic ''Didnt expect leaf'')"
  by (rule map_walk_panics [OF assms])

theorem map_over_leaf_panics_witness:
  "\<exists>t. vmm_map warm 0x80000000 0x40000000 0 Level3 Level3 flag_READ = ok t
    \<and> vmm_map t 0x80000000 0x40001000 0x3000 Level3 Level1 flag_READ = fail (Panic ''Didnt expect leaf'')"
proof -
  have "\<exists>t T'. vmm_map warm 0x80000000 0x40000000 0 (lv 3) (lv 3) flag_READ = ok t
    \<and> mapped_to warm 3 warm_tree ram_frames 0x40000000 3 3 (leaf_entry 0 flag_READ) t T'"
    by (rule map_walk [OF _ _ _ warm_tables(1) warm_boots(2)])
      (simp_all add: read_flags warm_tree_below warm_tables(2) ram_frames_distinct)
  then obtain t T' where t: "vmm_map warm 0x80000000 0x40000000 0 Level3 Level3 flag_READ = ok t"
    "pt_inv t 3 T' (drop 0 ram_frames)" "leaves t T' = [path 0x40000000 3 2 \<mapsto> leaf_entry 0 flag_READ]"
    "warm_tree \<subseteq>\<^sub>m T'"
    by (auto simp: mapped_to_def warm_tables(2))
  have "T' [] = Some 0x80000000" using t(4) by (auto simp: map_le_def)
  moreover have "path 0x40001000 3 2 = path 0x40000000 3 2"
    using path_Suc [of 2 3] by (simp add: idx_def bf_get_def flip: numeral_3_eq_3)
  ultimately have "vmm_map t 0x80000000 0x40001000 0x3000 (lv 3) (lv 1) flag_READ = fail (Panic ''Didnt expect leaf'')"
    using t(3) by (intro map_over_leaf_panics [OF t(2), of "0x80000000" 1 2]) simp_all
  with t(1) show ?thesis by auto
qed

section \<open>Physical memory\<close>

text \<open>C6. \<open>pmm::init\<close> puts every page of every usable entry of the memory map on the free list: the
  frames of the list are the addresses \<open>hhdm + base + 4096 * k\<close> of the pages that start within a
  usable entry, no others, each once, in the order of the entries and ascending within an entry. It
  writes to no other page. The pages have to be writable memory, with no address twice.\<close>

theorem pmm_init_builds_list:
  assumes "inj_on (page_address s entries) (usable_pages entries)"
    and "\<forall>p \<in> usable_pages entries. frame_ok s (page_address s entries p)"
    and "usable_pages entries \<noteq> {}" and "0 < hhdm s"
  shows "\<exists>t ps. sorted_wrt comes_before ps \<and> set ps = usable_pages entries
    \<and> pmm_init s entries = ok t \<and> fl_inv t (map (page_address s entries) ps)
    \<and> changes_only (page_address s entries ` usable_pages entries) s t"
  by (rule pmm_init_pages [OF assms])

lemma ram_pages: "usable_pages ram_map = Pair (Suc 0) ` {..<15}"
  by (auto simp: usable_pages_def ram_map_def nth_Cons' less_Suc_eq split: if_splits)

lemma ram_page_address: "page_address cold ram_map (Suc 0, k) = page_of 0x80001000 k"
  by (simp add: page_address_def ram_map_def cold_def page_of_def)

theorem pmm_init_builds_list_witness:
  "\<exists>t xs. pmm_init cold ram_map = ok t \<and> fl_inv t xs \<and> set xs = set ram_frames"
proof -
  have addr: "page_address cold ram_map ` usable_pages ram_map = set ram_frames"
    by (simp add: ram_pages ram_page_address ram_frames_def image_image lessThan_atLeast0)
  have "inj_on (page_of 0x80001000) {..<15}"
    using ram_frames_distinct(1) by (simp add: ram_frames_def distinct_map lessThan_atLeast0)
  then have inj: "inj_on (page_address cold ram_map) (usable_pages ram_map)"
    unfolding ram_pages by (auto simp: inj_on_def ram_page_address)
  have ok: "\<forall>p \<in> usable_pages ram_map. frame_ok cold (page_address cold ram_map p)"
    using ram_frames_ok addr by blast
  have "usable_pages ram_map \<noteq> {}" "0 < hhdm cold" by (auto simp: ram_pages cold_def lessThan_atLeast0)
  from pmm_init_builds_list [OF inj ok this] addr show ?thesis by (metis set_map)
qed

text \<open>\<open>claim\<close> called \<open>n\<close> times, with more than \<open>n\<close> frames free, hands out \<open>n\<close> distinct frames,
  none of which is still on the list.\<close>

theorem claims_hand_out_distinct:
  assumes "fl_inv s xs" "n < length xs"
  shows "\<exists>fs t ys. fl.claims n s = ok (fs, t) \<and> length fs = n \<and> distinct fs \<and> set fs \<inter> set ys = {}
    \<and> fl_inv t ys \<and> (\<forall>x \<in> set fs. frame_ok t x)"
  by (rule fl.claims_distinct [OF assms])

theorem claims_hand_out_distinct_witness:
  "\<exists>fs t. fl.claims 14 warm = ok (fs, t) \<and> length fs = 14 \<and> distinct fs"
  using claims_hand_out_distinct [OF warm_boots(2), of 14] ram_frames_distinct by auto

text \<open>A frame that \<open>pull\<close> returned to the list is the one the next \<open>claim\<close> hands out, and the
  list is then what it was.\<close>

theorem pull_then_claim:
  assumes "fl_inv s xs" "frame_ok s x" "x \<notin> set xs" "length xs + 1 < 2 ^ 64"
  shows "\<exists>t u. fl_pull s x = ok t \<and> fl_claim t = ok (x, u) \<and> fl_inv u xs"
  by (rule fl.release_claim [OF assms])

lemma warm_root_free: "frame_ok warm 0x80000000" "0x80000000 \<notin> set ram_frames"
  using pt_inv_table [OF warm_tables(1), of "[]" "0x80000000"] by simp_all

theorem pull_then_claim_witness:
  "\<exists>t u. fl_pull warm 0x80000000 = ok t \<and> fl_claim t = ok (0x80000000, u) \<and> fl_inv u ram_frames"
  using pull_then_claim [OF warm_boots(2) warm_root_free] ram_frames_distinct by simp

text \<open>\<open>push\<close> appends a frame behind the list.\<close>

theorem push_appends:
  assumes "fl_inv s xs" "frame_ok s x" "x \<notin> set xs" "length xs + 1 < 2 ^ 64"
  shows "\<exists>t. fl_push s x = ok t \<and> fl_inv t (xs @ [x]) \<and> changes_only (set (x # xs)) s t"
  by (rule fl_push_inv [OF assms])

theorem push_appends_witness:
  "\<exists>t. fl_push warm 0x80000000 = ok t \<and> fl_inv t (ram_frames @ [0x80000000])"
  using push_appends [OF warm_boots(2) warm_root_free] ram_frames_distinct by auto

text \<open>C7. \<open>claim_continuous\<close> against the naive search: it takes the first run of \<open>frames\<close> frames
  with consecutive addresses, unlinks it and returns its first frame; it reports an error when
  the list has no such run; and when the run found ends the list it stores through the null
  \<open>next\<close> pointer, a page fault at address 0.\<close>

theorem claim_continuous_first_run:
  assumes "fl_inv s xs" "mem s 0 = None" "1 < unat frames"
  shows "run_outcome s xs (unat frames) 0 (claim_continuous s frames)"
  using fl_scan_list_outcome [OF assms] assms(3) by (auto simp: claim_continuous_def)

theorem claim_continuous_first_run_witness:
  "(\<exists>t. claim_continuous warm 3 = ok (Inr (0x80001000, t)) \<and> fl_inv t (drop 3 ram_frames))
   \<and> claim_continuous warm 15 = fail (PageFault 0)
   \<and> claim_continuous warm 16 = ok (Inl ''Couldnt find contiguous frames'')"
proof -
  have "first_run 15 0 ram_frames = Some 0" "first_run 16 0 ram_frames = None"
    by (simp_all add: ram_frames_def page_of_def upt_rec window_def frames_from_def)
  then show ?thesis
    using claim_continuous_first_run [OF warm_boots(2) warm_null, of 3]
      claim_continuous_first_run [OF warm_boots(2) warm_null, of 15]
      claim_continuous_first_run [OF warm_boots(2) warm_null, of 16]
      ram_run ram_frames_distinct by (auto simp: run_outcome_def)
qed

text \<open>C8. \<open>claim_aligned\<close> against the naive search for a run whose first frame is aligned; for a
  single frame it is \<open>claim\<close>, whatever the alignment asked for.\<close>

theorem claim_aligned_first_run:
  assumes "fl_inv s xs" "mem s 0 = None" "0 < unat frames"
  shows "if frames = 1 then claim_aligned s frames align = rbind (fl_claim s) (\<lambda>r. ok (Inr r))
    else run_outcome s xs (unat frames) (align - 1) (claim_aligned s frames align)"
proof (cases "frames = 1")
  case True
  then show ?thesis by (simp add: claim_aligned_def)
next
  case False
  then have "unat frames \<noteq> 1" using of_nat_of_unat [of frames 1] by auto
  then have "1 < unat frames" using assms(3) by simp
  from fl_scan_list_outcome [OF assms(1,2) this] False show ?thesis by (simp add: claim_aligned_def)
qed

theorem claim_aligned_first_run_witness:
  "(\<exists>t. claim_aligned warm 2 0x4000 = ok (Inr (0x80004000, t)))
   \<and> claim_aligned warm 1 0x4000 = rbind (fl_claim warm) (\<lambda>r. ok (Inr r))"
proof -
  have "first_run 2 0x3fff ram_frames = Some 3" "ram_frames ! 3 = 0x80004000"
    by (simp_all add: ram_frames_def page_of_def upt_rec window_def frames_from_def)
  then show ?thesis
    using claim_aligned_first_run [OF warm_boots(2) warm_null, of 2 "0x4000"]
      claim_aligned_first_run [OF warm_boots(2) warm_null, of 1 "0x4000"]
      ram_frames_distinct by (auto simp: run_outcome_def)
qed

text \<open>\<open>claim\<close> of the last free frame: the branch marked FIXME makes the page behind it the
  head of the list, although nobody ever put that page there, with the length at 0 and the tail
  still at the frame handed out.\<close>

theorem claim_last_invents_frame:
  assumes "fl_inv s [x]" "mem s (prev_of (x + 0x1000)) \<noteq> None"
  shows "\<exists>t. fl_claim s = ok (x, t) \<and> fl_head t = x + 0x1000 \<and> fl_tail t = x \<and> fl_len t = 0"
  by (rule fl_claim_last [OF assms])

theorem claim_last_invents_frame_witness:
  "\<exists>t u. fl_init cold 0x80000000 = ok t \<and> fl_claim t = ok (0x80000000, u) \<and> fl_head u = 0x80001000"
proof -
  have "frame_ok cold 0x80000000" by (rule ram_frame) (simp_all add: page_aligned_def)
  moreover have "0 < hhdm cold" by (simp add: cold_def)
  ultimately obtain t where t: "fl_init cold 0x80000000 = ok t" "fl_inv t [0x80000000]" "changes_only {0x80000000} cold t"
    using fl_init_inv by blast
  have "mem cold 0x80001000 \<noteq> None" by (simp add: cold_def ram_def)
  moreover have "dom (mem t) = dom (mem cold)" using t(3) by (simp add: changes_only_def mem_only_def)
  ultimately have "mem t (prev_of (0x80000000 + 0x1000)) \<noteq> None" unfolding slot_0
    using domIff [of "0x80001000" "mem t"] domIff [of "0x80001000" "mem cold"] by simp
  from claim_last_invents_frame [OF t(2) this] t(1) show ?thesis by auto
qed

end
