(* ===== verification/Heap.thy ===== *)
theory Heap
  imports Addresses
begin

text \<open>
  The kernel heap, LSD/src/memory/linked_list.rs: a first-fit allocator whose free regions form a
  singly linked list, each node stored in the region it describes. The model keeps the list as a
  list of regions (start address and size), in the order of the links from \<open>head.next\<close>. The
  lemmas show that no assertion of the code fails on a well-formed heap, that blocks handed out
  are inside the arena, aligned and disjoint from the free regions and from each other, and how
  many free bytes an allocation takes.
\<close>

section \<open>Regions\<close>

record list_node =
  start_addr :: usize
  node_size :: usize

definition end_addr :: "list_node \<Rightarrow> usize" where
  "end_addr r = start_addr r + node_size r"

text \<open>\<open>size_of::<ListNode>()\<close> and \<open>align_of::<ListNode>()\<close> on riscv64.\<close>

definition size_of_node :: usize where "size_of_node = 16"
definition align_of_node :: usize where "align_of_node = 8"

definition add_free_region :: "list_node list \<Rightarrow> usize \<Rightarrow> usize \<Rightarrow> list_node list result" where
  "add_free_region free addr sz =
     rbind (assert_that (align_up addr align_of_node = addr)) (\<lambda>_.
     rbind (assert_that (size_of_node \<le> sz)) (\<lambda>_.
     ok (\<lparr>start_addr = addr, node_size = sz\<rparr> # free)))"

definition heap_init :: "usize \<Rightarrow> usize \<Rightarrow> list_node list result" where
  "heap_init heap_start heap_size = add_free_region [] heap_start heap_size"

definition checked_add :: "usize \<Rightarrow> usize \<Rightarrow> usize option" where
  "checked_add a b = (if a + b < a then None else Some (a + b))"

definition alloc_from_region :: "list_node \<Rightarrow> usize \<Rightarrow> usize \<Rightarrow> usize option" where
  "alloc_from_region region sz align =
     (let alloc_start = align_up (start_addr region) align in
      case checked_add alloc_start sz of
        None \<Rightarrow> None
      | Some alloc_end \<Rightarrow>
          if end_addr region < alloc_end then None
          else
            (let excess_size = end_addr region - alloc_end in
             if 0 < excess_size \<and> excess_size < size_of_node then None
             else Some alloc_start))"

text \<open>The region taken, the start of the allocation in it, and the list without the region.\<close>

fun find_region ::
  "list_node list \<Rightarrow> usize \<Rightarrow> usize \<Rightarrow> (list_node \<times> usize \<times> list_node list) option" where
  "find_region [] sz align = None"
| "find_region (region # rest) sz align =
     (case alloc_from_region region sz align of
        Some alloc_start \<Rightarrow> Some (region, alloc_start, rest)
      | None \<Rightarrow> map_option (\<lambda>(r, a, rs). (r, a, region # rs)) (find_region rest sz align))"

section \<open>GlobalAlloc\<close>

record layout =
  l_size :: usize
  l_align :: usize

text \<open>\<open>Layout::align_to(8)\<close> fails when the size, rounded up to the new alignment, does not fit an
  isize; \<open>pad_to_align\<close> rounds it up.\<close>

definition size_align :: "layout \<Rightarrow> (usize \<times> usize) result" where
  "size_align l =
     (let align = max (l_align l) align_of_node in
      if 0x7fffffffffffffff - (align - 1) < l_size l then fail (Panic ''adjusting alignment failed'')
      else
        (let padded = (l_size l + align - 1) AND NOT (align - 1)
         in ok (max padded size_of_node, align)))"

definition heap_alloc :: "list_node list \<Rightarrow> layout \<Rightarrow> (usize \<times> list_node list) result" where
  "heap_alloc free l =
     rbind (size_align l) (\<lambda>(sz, align).
     case find_region free sz align of
       None \<Rightarrow> ok (0, free)
     | Some (region, alloc_start, rest) \<Rightarrow>
         (case checked_add alloc_start sz of
            None \<Rightarrow> fail (Panic ''overflow'')
          | Some alloc_end \<Rightarrow>
              (let excess_size = end_addr region - alloc_end in
               rbind (if 0 < excess_size then add_free_region rest alloc_end excess_size else ok rest)
                 (\<lambda>free. ok (alloc_start, free)))))"

definition heap_dealloc :: "list_node list \<Rightarrow> usize \<Rightarrow> layout \<Rightarrow> list_node list result" where
  "heap_dealloc free ptr l = rbind (size_align l) (\<lambda>(sz, _). add_free_region free ptr sz)"

section \<open>Alignment\<close>

lemma push_drop_nat: "unat (w AND NOT (mask k)) = unat (w :: u64) div 2 ^ k * 2 ^ k"
proof -
  have "w AND NOT (mask k) = push_bit k (drop_bit k w)"
    by (rule bit_word_eqI) (auto simp: bit_simps dest: bit_imp_le_length)
  moreover have "push_bit k (drop_bit k (unat w)) \<le> unat w"
    by (simp add: push_bit_eq_mult drop_bit_eq_div)
  then have "push_bit k (drop_bit k (unat w)) < 2 ^ 64"
    using unsigned_less [of w, where ?'a = nat] by simp
  ultimately have "unat (w AND NOT (mask k)) = push_bit k (drop_bit k (unat w))"
    by (simp add: unsigned_push_bit_eq unat_drop_bit_eq take_bit_nat_eq_self)
  then show ?thesis by (simp add: push_bit_eq_mult drop_bit_eq_div)
qed

text \<open>Powers of two: the alignments of Rust.\<close>

definition pow2 :: "usize \<Rightarrow> bool" where
  "pow2 al \<longleftrightarrow> (\<exists>k < 64. al = 2 ^ k)"

lemma unat_exp2: "k < 64 \<Longrightarrow> unat (2 ^ k :: u64) = 2 ^ k"
proof -
  assume "k < 64"
  then have "(2 :: nat) ^ k < 2 ^ 64" by (intro power_strict_increasing) simp_all
  moreover have "(2 :: u64) ^ k = of_nat (2 ^ k)" by simp
  ultimately show ?thesis by (simp only: unat_of_nat) simp
qed

lemma pow2_unat: "pow2 al \<Longrightarrow> \<exists>k < 64. unat al = 2 ^ k \<and> al - 1 = mask k"
  by (auto simp: pow2_def mask_eq_exp_minus_1 unat_exp2)

definition round_up :: "nat \<Rightarrow> nat \<Rightarrow> nat" where
  "round_up n a = (n + a - 1) div a * a"

lemma round_up_diff: "0 < a \<Longrightarrow> round_up n a = (n + a - 1) - (n + a - 1) mod a"
  by (simp add: round_up_def minus_mod_eq_div_mult)

lemma round_up_ge: "0 < a \<Longrightarrow> n \<le> round_up n a"
  and round_up_lt: "0 < a \<Longrightarrow> round_up n a < n + a"
proof -
  assume a: "0 < a"
  define r where "r = (n + a - 1) mod a"
  have "r < a" using a by (simp add: r_def)
  moreover have "round_up n a = (n + a - 1) - r" using a by (simp add: round_up_diff r_def)
  ultimately show "n \<le> round_up n a" "round_up n a < n + a" by arith+
qed

lemma round_up_dvd: "a dvd round_up n a"
  by (simp add: round_up_def)

lemma align_up_round:
  assumes "pow2 al" "unat a + unat al \<le> 2 ^ 64"
  shows "unat (align_up a al) = round_up (unat a) (unat al)"
proof -
  obtain k where k: "k < 64" "unat al = 2 ^ k" "al - 1 = mask k" using pow2_unat [OF assms(1)] by blast
  have al: "unat (al - 1) = unat al - 1" using k(2) by (intro unat_minus_one) auto
  have "unat (a + (al - 1)) = unat a + (unat al - 1)"
    using assms(2) k(2) by (subst unat_add_lem [THEN iffD1]) (simp_all add: al)
  then have "unat (align_up a al) = (unat a + (unat al - 1)) div 2 ^ k * 2 ^ k"
    using push_drop_nat [of "a + (al - 1)" k] by (simp add: align_up_def k(3) add_diff_eq [symmetric])
  then show ?thesis by (simp add: round_up_def k(2))
qed

section \<open>The adjusted layout\<close>

text \<open>A layout Rust can build: the alignment is a power of two and the rounded size fits isize.\<close>

definition layout_ok :: "layout \<Rightarrow> bool" where
  "layout_ok l \<longleftrightarrow> pow2 (l_align l) \<and> unat (l_align l) \<le> 2 ^ 63
     \<and> unat (l_size l) + max (unat (l_align l)) 8 \<le> 2 ^ 63"

definition need :: "layout \<Rightarrow> nat" where
  "need l = max (round_up (unat (l_size l)) (max (unat (l_align l)) 8)) 16"

lemma pow2_8: "pow2 8"
  by (auto simp: pow2_def intro!: exI [of _ 3])

lemma max_unat: "unat (max a b) = max (unat a) (unat b)"
  by (simp add: max_def word_le_nat_alt)

lemma size_align_ok:
  assumes "layout_ok l"
  shows "\<exists>sz al. size_align l = ok (sz, al) \<and> unat sz = need l
    \<and> unat al = max (unat (l_align l)) 8 \<and> pow2 al"
proof -
  let ?al = "max (l_align l) 8"
  have al: "pow2 ?al" using assms pow2_8 by (simp add: layout_ok_def max_def)
  have ual: "unat ?al = max (unat (l_align l)) 8" by (simp add: max_unat)
  have fits: "unat (l_size l) + unat ?al \<le> 2 ^ 63" using assms by (simp add: ual layout_ok_def)
  have m: "unat (?al - 1) = unat ?al - 1"
    using ual by (intro unat_minus_one) (metis max.cobounded2 not_numeral_le_zero unat_0)
  then have "?al - 1 \<le> 0x7fffffffffffffff" using fits by (simp add: word_le_nat_alt)
  from unat_sub [OF this] m have no: "\<not> 0x7fffffffffffffff - (?al - 1) < l_size l"
    using fits by (simp add: word_less_nat_alt ual)
  have "unat (align_up (l_size l) ?al) = round_up (unat (l_size l)) (unat ?al)"
    using fits by (intro align_up_round [OF al]) simp
  then have "unat (max (align_up (l_size l) ?al) 16) = need l" by (simp add: max_unat need_def ual)
  moreover have "size_align l = ok (max (align_up (l_size l) ?al) 16, ?al)"
    using no by (simp add: size_align_def align_of_node_def size_of_node_def align_up_def Let_def)
  ultimately show ?thesis using al ual by blast
qed

lemma need_bounds: "unat (l_size l) \<le> need l" "16 \<le> need l"
proof -
  have "0 < max (unat (l_align l)) 8" by (simp add: max_def)
  from round_up_ge [OF this, of "unat (l_size l)"] show "unat (l_size l) \<le> need l" "16 \<le> need l"
    by (simp_all add: need_def)
qed

lemma pow2_dvd_8: "pow2 al \<Longrightarrow> 8 dvd max (unat al) 8"
proof -
  assume "pow2 al"
  then obtain k where k: "unat al = 2 ^ k" using pow2_unat by blast
  show ?thesis
  proof (cases "k < 3")
    case True
    then have "k = 0 \<or> k = 1 \<or> k = 2" by auto
    then show ?thesis using k by auto
  next
    case False
    then have "(2 :: nat) ^ 3 dvd 2 ^ k" by (intro le_imp_power_dvd) simp
    then show ?thesis using k by (simp add: max_def)
  qed
qed

lemma need_dvd: "layout_ok l \<Longrightarrow> 8 dvd need l"
proof -
  assume "layout_ok l"
  then have "8 dvd max (unat (l_align l)) 8" by (intro pow2_dvd_8) (simp add: layout_ok_def)
  then have "8 dvd round_up (unat (l_size l)) (max (unat (l_align l)) 8)"
    using round_up_dvd dvd_trans by blast
  moreover have "(8 :: nat) dvd 16" by simp
  ultimately show ?thesis by (simp add: need_def max_def)
qed

section \<open>The arena\<close>

text \<open>An interval is a start and a length; the intervals of an arena lie in it, are multiples of
  eight, can hold a node, and are apart.\<close>

type_synonym ivl = "nat \<times> nat"

definition apart :: "ivl \<Rightarrow> ivl \<Rightarrow> bool" where
  "apart x y \<longleftrightarrow> fst x + snd x \<le> fst y \<or> fst y + snd y \<le> fst x"

definition ivl_ok :: "nat \<Rightarrow> nat \<Rightarrow> ivl \<Rightarrow> bool" where
  "ivl_ok lo hi x \<longleftrightarrow> lo \<le> fst x \<and> fst x + snd x \<le> hi \<and> 8 dvd fst x \<and> 8 dvd snd x \<and> 16 \<le> snd x"

fun arena :: "nat \<Rightarrow> nat \<Rightarrow> ivl list \<Rightarrow> bool" where
  "arena lo hi [] \<longleftrightarrow> True"
| "arena lo hi (x # xs) \<longleftrightarrow> ivl_ok lo hi x \<and> (\<forall>y \<in> set xs. apart x y) \<and> arena lo hi xs"

definition region_ivl :: "list_node \<Rightarrow> ivl" where
  "region_ivl r = (unat (start_addr r), unat (node_size r))"

definition block_ivl :: "usize \<times> layout \<Rightarrow> ivl" where
  "block_ivl b = (unat (fst b), need (snd b))"

text \<open>The free list beside the blocks in use.\<close>

definition heap_inv :: "nat \<Rightarrow> nat \<Rightarrow> list_node list \<Rightarrow> (usize \<times> layout) list \<Rightarrow> bool" where
  "heap_inv lo hi free live \<longleftrightarrow>
     0 < lo \<and> hi < 2 ^ 64 \<and> (\<forall>b \<in> set live. layout_ok (snd b))
     \<and> arena lo hi (map region_ivl free @ map block_ivl live)"

lemma apart_sym: "apart x y \<longleftrightarrow> apart y x"
  by (auto simp: apart_def)

lemma arena_append:
  "arena lo hi (xs @ ys) \<longleftrightarrow> arena lo hi xs \<and> arena lo hi ys \<and> (\<forall>x \<in> set xs. \<forall>y \<in> set ys. apart x y)"
  by (induction xs) auto

lemma arena_middle: "arena lo hi (xs @ x # ys) \<longleftrightarrow> arena lo hi (x # xs @ ys)"
  by (auto simp: arena_append apart_sym)

lemma arena_ok: "arena lo hi xs \<Longrightarrow> x \<in> set xs \<Longrightarrow> ivl_ok lo hi x"
  by (induction xs) auto

text \<open>Cutting an interval in two, and dropping a part in front.\<close>

lemma arena_shrink:
  "arena lo hi (x # xs) \<Longrightarrow> fst x \<le> fst y \<Longrightarrow> fst y + snd y \<le> fst x + snd x \<Longrightarrow> 8 dvd fst y \<Longrightarrow> 8 dvd snd y
    \<Longrightarrow> 16 \<le> snd y \<Longrightarrow> arena lo hi (y # xs)"
  by (fastforce simp: ivl_ok_def apart_def)

lemma arena_cut:
  assumes "arena lo hi (x # xs)" "fst x \<le> fst y" "fst y + snd y \<le> fst z" "fst z + snd z \<le> fst x + snd x"
    and "8 dvd fst y" "8 dvd snd y" "16 \<le> snd y" "8 dvd fst z" "8 dvd snd z" "16 \<le> snd z"
  shows "arena lo hi (z # y # xs)"
proof -
  have "arena lo hi (y # xs)"
    by (rule arena_shrink [OF assms(1)]) (use assms(2-) in \<open>simp_all\<close>)
  moreover have "arena lo hi (z # xs)"
    by (rule arena_shrink [OF assms(1)]) (use assms(2-) in \<open>simp_all\<close>)
  ultimately have "arena lo hi (y # xs)" "arena lo hi (z # xs)" by simp_all
  then show ?thesis using assms(3) by (auto simp: apart_def)
qed

section \<open>Taking a region\<close>

definition place :: "list_node \<Rightarrow> layout \<Rightarrow> nat" where
  "place r l = round_up (unat (start_addr r)) (max (unat (l_align l)) 8)"

definition excess :: "list_node \<Rightarrow> layout \<Rightarrow> nat" where
  "excess r l = unat (start_addr r) + unat (node_size r) - (place r l + need l)"

definition fits :: "list_node \<Rightarrow> layout \<Rightarrow> bool" where
  "fits r l \<longleftrightarrow> place r l + need l \<le> unat (start_addr r) + unat (node_size r)
     \<and> (excess r l = 0 \<or> 16 \<le> excess r l)"

text \<open>The alignments the arena has room for above it: \<open>align_up\<close> does not wrap.\<close>

definition align_room :: "nat \<Rightarrow> layout \<Rightarrow> bool" where
  "align_room hi l \<longleftrightarrow> hi + max (unat (l_align l)) 8 \<le> 2 ^ 64"

lemma checked_add_nat:
  "checked_add a b = (if unat a + unat b < 2 ^ 64 then Some (a + b) else None)"
proof (cases "unat a + unat b < 2 ^ 64")
  case True
  then have "unat (a + b) = unat a + unat b" by (subst unat_add_lem [THEN iffD1]) simp_all
  with True show ?thesis by (simp add: checked_add_def word_less_nat_alt)
next
  case False
  have "unat a < 2 ^ 64" "unat b < 2 ^ 64" using unsigned_less [of a] unsigned_less [of b] by simp_all
  with False have "unat (a + b) = unat a + unat b - 2 ^ 64"
    by (simp add: unat_word_ariths le_mod_geq)
  with False \<open>unat b < 2 ^ 64\<close> show ?thesis by (simp add: checked_add_def word_less_nat_alt)
qed

lemma end_addr_nat:
  "ivl_ok lo hi (region_ivl r) \<Longrightarrow> hi < 2 ^ 64 \<Longrightarrow> unat (end_addr r) = unat (start_addr r) + unat (node_size r)"
  unfolding end_addr_def by (subst unat_add_lem [THEN iffD1]) (simp_all add: ivl_ok_def region_ivl_def)

lemma alloc_from_region_fits:
  assumes r: "ivl_ok lo hi (region_ivl r)" "hi < 2 ^ 64" and room: "align_room hi l"
    and sz: "unat sz = need l" and al: "unat al = max (unat (l_align l)) 8" "pow2 al"
  shows "alloc_from_region r sz al = (if fits r l then Some (align_up (start_addr r) al) else None)"
    and "unat (align_up (start_addr r) al) = place r l"
proof -
  let ?a = "align_up (start_addr r) al"
  have e: "unat (end_addr r) = unat (start_addr r) + unat (node_size r)" by (rule end_addr_nat [OF r])
  have hi: "unat (start_addr r) + unat (node_size r) \<le> hi" using r(1) by (simp add: ivl_ok_def region_ivl_def)
  have "unat (start_addr r) + unat al \<le> 2 ^ 64" using hi room by (simp add: align_room_def al(1))
  then show a: "unat ?a = place r l" by (simp add: align_up_round [OF al(2)] place_def al(1))
  show "alloc_from_region r sz al = (if fits r l then Some ?a else None)"
  proof (cases "unat ?a + unat sz < 2 ^ 64")
    case False
    then have "\<not> fits r l" using hi r(2) by (simp add: fits_def a sz)
    with False show ?thesis by (simp add: alloc_from_region_def checked_add_nat)
  next
    case True
    then have s: "unat (?a + sz) = place r l + need l"
      by (subst unat_add_lem [THEN iffD1]) (simp_all add: a sz)
    show ?thesis
    proof (cases "end_addr r < ?a + sz")
      case True
      then have "\<not> fits r l" by (simp add: fits_def word_less_nat_alt s e)
      with True \<open>unat ?a + unat sz < 2 ^ 64\<close> show ?thesis by (simp add: alloc_from_region_def checked_add_nat)
    next
      case False
      then have "unat (end_addr r - (?a + sz)) = excess r l"
        by (subst unat_sub) (simp_all add: not_less s e excess_def)
      then have "0 < end_addr r - (?a + sz) \<and> end_addr r - (?a + sz) < 16 \<longleftrightarrow> 0 < excess r l \<and> excess r l < 16"
        by (simp add: word_less_nat_alt)
      moreover have "place r l + need l \<le> unat (start_addr r) + unat (node_size r)"
        using False by (simp add: word_less_nat_alt s e)
      ultimately have "fits r l \<longleftrightarrow> \<not> (0 < end_addr r - (?a + sz) \<and> end_addr r - (?a + sz) < 16)"
        by (auto simp: fits_def)
      then show ?thesis using False \<open>unat ?a + unat sz < 2 ^ 64\<close>
        by (simp add: alloc_from_region_def checked_add_nat size_of_node_def Let_def)
    qed
  qed
qed

text \<open>\<open>find_region\<close> is first fit.\<close>

lemma find_region_None: "find_region free sz al = None \<longleftrightarrow> (\<forall>r \<in> set free. alloc_from_region r sz al = None)"
  by (induction free) (auto split: option.splits)

lemma find_region_Some:
  "find_region free sz al = Some (r, a, rest) \<Longrightarrow>
    \<exists>pre post. free = pre @ r # post \<and> rest = pre @ post \<and> alloc_from_region r sz al = Some a
      \<and> (\<forall>q \<in> set pre. alloc_from_region q sz al = None)"
proof (induction free arbitrary: rest)
  case (Cons q free)
  show ?case
  proof (cases "alloc_from_region q sz al")
    case (Some b)
    with Cons.prems show ?thesis by (intro exI [of _ "[]"] exI [of _ free]) auto
  next
    case None
    with Cons.prems obtain rest' where "find_region free sz al = Some (r, a, rest')" "rest = q # rest'" by auto
    with Cons.IH obtain pre post where "free = pre @ r # post" "rest' = pre @ post"
      "alloc_from_region r sz al = Some a" "\<forall>q \<in> set pre. alloc_from_region q sz al = None" by blast
    with None \<open>rest = q # rest'\<close> show ?thesis by (intro exI [of _ "q # pre"] exI [of _ post]) auto
  qed
qed simp

section \<open>alloc and dealloc\<close>

text \<open>The free list after a block was cut out of the region \<open>r\<close>: what follows the block becomes
  the first region; what precedes it, up to the alignment, is in no region any more.\<close>

definition tail_region :: "list_node \<Rightarrow> layout \<Rightarrow> list_node list" where
  "tail_region r l =
     (if excess r l = 0 then []
      else [\<lparr>start_addr = of_nat (place r l + need l), node_size = of_nat (excess r l)\<rparr>])"

lemma add_free_region_ok:
  "8 dvd unat addr \<Longrightarrow> 16 \<le> unat sz \<Longrightarrow> unat addr + 8 \<le> 2 ^ 64 \<Longrightarrow>
    add_free_region free addr sz = ok (\<lparr>start_addr = addr, node_size = sz\<rparr> # free)"
proof -
  assume a: "8 dvd unat addr" "16 \<le> unat sz" "unat addr + 8 \<le> 2 ^ 64"
  obtain q where q: "unat addr = 8 * q" using a(1) by (auto elim: dvdE)
  have "unat (align_up addr 8) = round_up (unat addr) 8" using align_up_round [OF pow2_8, of addr] a(3) by simp
  also have "\<dots> = unat addr" by (simp add: round_up_def q)
  finally have "align_up addr 8 = addr" by (simp add: unsigned_word_eqI)
  with a(2) show ?thesis
    by (simp add: add_free_region_def align_of_node_def size_of_node_def word_le_nat_alt)
qed

lemma heap_alloc_cut:
  assumes r: "ivl_ok lo hi (region_ivl r)" "hi < 2 ^ 64" and room: "align_room hi l" and l: "layout_ok l"
    and find: "size_align l = ok (sz, al)" "find_region free sz al = Some (r, a, rest)"
    and fit: "fits r l" "unat a = place r l" and sz: "unat sz = need l"
  shows "heap_alloc free l = ok (a, tail_region r l @ rest)"
proof -
  have hi: "unat (start_addr r) + unat (node_size r) \<le> hi" using r(1) by (simp add: ivl_ok_def region_ivl_def)
  have e: "unat (end_addr r) = unat (start_addr r) + unat (node_size r)" by (rule end_addr_nat [OF r])
  have le: "place r l + need l \<le> unat (start_addr r) + unat (node_size r)" using fit(1) by (simp add: fits_def)
  then have s: "unat (a + sz) = place r l + need l"
    using hi r(2) by (subst unat_add_lem [THEN iffD1]) (simp_all add: fit(2) sz)
  then have a': "a + sz = of_nat (place r l + need l)" using of_nat_of_unat [OF s] by simp
  have "a + sz \<le> end_addr r" using le by (simp add: word_le_nat_alt s e)
  then have x: "unat (end_addr r - (a + sz)) = excess r l" by (subst unat_sub) (simp_all add: s e excess_def)
  have ca: "checked_add a sz = Some (a + sz)" using le hi r(2) by (simp add: checked_add_nat fit(2) sz)
  show ?thesis
  proof (cases "excess r l = 0")
    case True
    then have "end_addr r - (a + sz) = 0" using x by (simp add: unat_eq_zero)
    with True show ?thesis by (simp add: heap_alloc_def find ca tail_region_def)
  next
    case False
    then have pos: "0 < end_addr r - (a + sz)" using x by (simp add: word_less_nat_alt)
    have e16: "16 \<le> excess r l" using fit(1) False by (simp add: fits_def)
    have "8 dvd unat (start_addr r)" using r(1) by (simp add: ivl_ok_def region_ivl_def)
    have "8 dvd max (unat (l_align l)) 8" using l by (intro pow2_dvd_8) (simp add: layout_ok_def)
    then have "8 dvd place r l" unfolding place_def by (rule dvd_trans [OF _ round_up_dvd])
    then have d: "8 dvd unat (a + sz)" using need_dvd [OF l] by (simp add: s)
    have "unat (a + sz) + 8 \<le> 2 ^ 64" using e16 le hi r(2) by (simp add: s excess_def)
    from add_free_region_ok [OF d _ this, of "end_addr r - (a + sz)" rest] e16 x
    have "add_free_region rest (a + sz) (end_addr r - (a + sz))
      = ok (\<lparr>start_addr = a + sz, node_size = end_addr r - (a + sz)\<rparr> # rest)" by simp
    moreover have "end_addr r - (a + sz) = of_nat (excess r l)" using of_nat_of_unat [OF x] by simp
    ultimately show ?thesis using False pos a' by (simp add: heap_alloc_def find ca tail_region_def)
  qed
qed

lemma heap_inv_region: "heap_inv lo hi free live \<Longrightarrow> r \<in> set free \<Longrightarrow> ivl_ok lo hi (region_ivl r) \<and> hi < 2 ^ 64"
  by (auto simp: heap_inv_def intro: arena_ok)

lemma place_bounds:
  assumes "layout_ok l"
  shows "unat (start_addr r) \<le> place r l" "8 dvd place r l" "max (unat (l_align l)) 8 dvd place r l"
proof -
  have "0 < max (unat (l_align l)) 8" by (simp add: max_def)
  then show "unat (start_addr r) \<le> place r l" unfolding place_def by (rule round_up_ge)
  show d: "max (unat (l_align l)) 8 dvd place r l" unfolding place_def by (rule round_up_dvd)
  have "8 dvd max (unat (l_align l)) 8" using assms by (intro pow2_dvd_8) (simp add: layout_ok_def)
  then show "8 dvd place r l" using d by (rule dvd_trans)
qed

lemma heap_inv_cut:
  assumes inv: "heap_inv lo hi (pre @ r # post) live" and l: "layout_ok l" and fit: "fits r l"
    and p: "unat p = place r l"
  shows "heap_inv lo hi (tail_region r l @ pre @ post) ((p, l) # live)"
proof -
  let ?rest = "map region_ivl (pre @ post) @ map block_ivl live"
  have r: "ivl_ok lo hi (region_ivl r)" "hi < 2 ^ 64" using heap_inv_region [OF inv, of r] by simp_all
  have "arena lo hi (map region_ivl pre @ region_ivl r # map region_ivl post @ map block_ivl live)"
    using inv by (simp add: heap_inv_def)
  then have a: "arena lo hi (region_ivl r # ?rest)" unfolding arena_middle by simp
  note pl = place_bounds [OF l, of r]
  have le: "place r l + need l \<le> unat (start_addr r) + unat (node_size r)"
    "excess r l = 0 \<or> 16 \<le> excess r l" using fit by (simp_all add: fits_def)
  have d: "8 dvd need l" "16 \<le> need l" using need_dvd [OF l] need_bounds by simp_all
  have ex: "8 dvd excess r l" unfolding excess_def
    using r(1) pl(2) d(1) by (intro dvd_diff_nat dvd_add) (simp_all add: ivl_ok_def region_ivl_def)
  have "arena lo hi (map region_ivl (tail_region r l) @ block_ivl (p, l) # ?rest)"
  proof (cases "excess r l = 0")
    case True
    have "arena lo hi (block_ivl (p, l) # ?rest)"
      by (rule arena_shrink [OF a]) (use pl le d in \<open>simp_all add: block_ivl_def p region_ivl_def\<close>)
    with True show ?thesis by (simp add: tail_region_def)
  next
    case False
    have top: "unat (start_addr r) + unat (node_size r) \<le> hi" using r(1) by (simp add: ivl_ok_def region_ivl_def)
    then have "unat (of_nat (place r l + need l) :: usize) = place r l + need l"
      "unat (of_nat (excess r l) :: usize) = excess r l"
      using le(1) r(2) unfolding unat_of_nat by (simp_all add: excess_def)
    then have t: "region_ivl (hd (tail_region r l)) = (place r l + need l, excess r l)"
      using False by (simp add: tail_region_def region_ivl_def)
    have "arena lo hi ((place r l + need l, excess r l) # (place r l, need l) # ?rest)"
      by (rule arena_cut [OF a]) (use pl le d ex False in \<open>simp_all add: region_ivl_def excess_def\<close>)
    then show ?thesis using False t by (simp add: tail_region_def block_ivl_def p)
  qed
  then have "arena lo hi (map region_ivl (tail_region r l) @ map region_ivl (pre @ post) @ block_ivl (p, l) # map block_ivl live)"
    using arena_middle [of lo hi "map region_ivl (tail_region r l)" "block_ivl (p, l)" ?rest]
      arena_middle [of lo hi "map region_ivl (tail_region r l) @ map region_ivl (pre @ post)" "block_ivl (p, l)"
        "map block_ivl live"] by simp
  then show ?thesis using inv l by (simp add: heap_inv_def)
qed

text \<open>What \<open>alloc\<close> does on a well-formed heap: null when no region fits, else the block at the
  first aligned place of the first region that fits.\<close>

lemma heap_alloc_none:
  assumes inv: "heap_inv lo hi free live" and l: "layout_ok l" "align_room hi l"
    and none: "\<forall>r \<in> set free. \<not> fits r l"
  shows "heap_alloc free l = ok (0, free)"
proof -
  obtain sz al where sa: "size_align l = ok (sz, al)" "unat sz = need l" "unat al = max (unat (l_align l)) 8" "pow2 al"
    using size_align_ok [OF l(1)] by blast
  have "alloc_from_region r sz al = None" if "r \<in> set free" for r
    using alloc_from_region_fits(1) [OF _ _ l(2) sa(2-4), of lo r] heap_inv_region [OF inv that] none that by simp
  then have "find_region free sz al = None" by (simp add: find_region_None)
  with sa(1) show ?thesis by (simp add: heap_alloc_def)
qed

lemma heap_alloc_some:
  assumes inv: "heap_inv lo hi free live" and l: "layout_ok l" "align_room hi l"
    and some: "\<exists>r \<in> set free. fits r l"
  shows "\<exists>pre r post p. free = pre @ r # post \<and> fits r l \<and> (\<forall>q \<in> set pre. \<not> fits q l)
    \<and> unat p = place r l \<and> p \<noteq> 0 \<and> heap_alloc free l = ok (p, tail_region r l @ pre @ post)
    \<and> heap_inv lo hi (tail_region r l @ pre @ post) ((p, l) # live)"
proof -
  obtain sz al where sa: "size_align l = ok (sz, al)" "unat sz = need l" "unat al = max (unat (l_align l)) 8" "pow2 al"
    using size_align_ok [OF l(1)] by blast
  note taken = alloc_from_region_fits [OF _ _ l(2) sa(2-4), of lo]
  have "find_region free sz al \<noteq> None"
    unfolding find_region_None using some taken(1) heap_inv_region [OF inv] by fastforce
  then obtain r a rest where f: "find_region free sz al = Some (r, a, rest)" by auto
  from find_region_Some [OF this] obtain pre post where
    free: "free = pre @ r # post" "rest = pre @ post" "alloc_from_region r sz al = Some a"
    "\<forall>q \<in> set pre. alloc_from_region q sz al = None" by blast
  have r: "ivl_ok lo hi (region_ivl r)" "hi < 2 ^ 64" using heap_inv_region [OF inv, of r] free(1) by simp_all
  have fit: "fits r l" "unat a = place r l" using taken [OF r] free(3) by (auto split: if_splits)
  have pre: "\<forall>q \<in> set pre. \<not> fits q l"
    using taken(1) heap_inv_region [OF inv] free(1,4) by (fastforce split: if_splits)
  have "0 < place r l" using place_bounds(1) [OF l(1), of r] r(1) inv
    by (simp add: heap_inv_def ivl_ok_def region_ivl_def)
  then have "a \<noteq> 0" using fit(2) by auto
  moreover have "heap_alloc free l = ok (a, tail_region r l @ pre @ post)"
    using heap_alloc_cut [OF r l(2,1) sa(1) f fit sa(2)] free(2) by simp
  ultimately show ?thesis
    using heap_inv_cut [OF inv [unfolded free(1)] l(1) fit] fit pre free(1) by blast
qed

lemma heap_dealloc_ok:
  assumes inv: "heap_inv lo hi free (xs @ (p, l) # ys)"
  shows "\<exists>free'. heap_dealloc free p l = ok free' \<and> heap_inv lo hi free' (xs @ ys)
    \<and> free' = \<lparr>start_addr = p, node_size = of_nat (need l)\<rparr> # free"
proof -
  have l: "layout_ok l" using inv by (simp add: heap_inv_def)
  obtain sz al where sa: "size_align l = ok (sz, al)" "unat sz = need l" using size_align_ok [OF l] by blast
  have "arena lo hi (map region_ivl free @ map block_ivl xs @ block_ivl (p, l) # map block_ivl ys)"
    using inv by (simp add: heap_inv_def)
  then have a: "arena lo hi (block_ivl (p, l) # map region_ivl free @ map block_ivl (xs @ ys))"
    using arena_middle [of lo hi "map region_ivl free @ map block_ivl xs"] by simp
  then have b: "ivl_ok lo hi (block_ivl (p, l))" by simp
  have sz: "sz = of_nat (need l)" using of_nat_of_unat [OF sa(2)] by simp
  have hi: "hi < 2 ^ 64" using inv by (simp add: heap_inv_def)
  have "add_free_region free p sz = ok (\<lparr>start_addr = p, node_size = sz\<rparr> # free)"
    using b hi sa(2) by (intro add_free_region_ok) (simp_all add: ivl_ok_def block_ivl_def)
  then have "heap_dealloc free p l = ok (\<lparr>start_addr = p, node_size = of_nat (need l)\<rparr> # free)"
    using sa(1) sz by (simp add: heap_dealloc_def)
  moreover have "region_ivl \<lparr>start_addr = p, node_size = of_nat (need l)\<rparr> = block_ivl (p, l)"
    using sa(2) by (simp add: region_ivl_def block_ivl_def sz [symmetric])
  then have "heap_inv lo hi (\<lparr>start_addr = p, node_size = of_nat (need l)\<rparr> # free) (xs @ ys)"
    using a inv by (auto simp: heap_inv_def)
  ultimately show ?thesis by blast
qed

section \<open>Runs of the allocator\<close>

text \<open>The states a kernel reaches from \<open>init\<close> that only frees blocks it was given, with their
  layouts, and asks for alignments the addresses have room for: the free list and the blocks.\<close>

inductive heap_reach :: "usize \<Rightarrow> usize \<Rightarrow> list_node list \<Rightarrow> (usize \<times> layout) list \<Rightarrow> bool"
  for base sz :: usize where
  start: "heap_init base sz = ok free \<Longrightarrow> heap_reach base sz free []"
| allocates: "heap_reach base sz free live \<Longrightarrow> layout_ok l \<Longrightarrow> align_room (unat base + unat sz) l \<Longrightarrow>
    heap_alloc free l = ok (p, free') \<Longrightarrow> p \<noteq> 0 \<Longrightarrow> heap_reach base sz free' ((p, l) # live)"
| exhausted: "heap_reach base sz free live \<Longrightarrow> layout_ok l \<Longrightarrow> align_room (unat base + unat sz) l \<Longrightarrow>
    heap_alloc free l = ok (0, free') \<Longrightarrow> heap_reach base sz free' live"
| frees: "heap_reach base sz free (xs @ (p, l) # ys) \<Longrightarrow> heap_dealloc free p l = ok free' \<Longrightarrow>
    heap_reach base sz free' (xs @ ys)"

text \<open>Bounds the static array \<open>HEAP\<close> has: not at address zero, not ending at the top, and of a
  size that is a multiple of eight.\<close>

definition heap_bounds :: "usize \<Rightarrow> usize \<Rightarrow> bool" where
  "heap_bounds base sz \<longleftrightarrow> 0 < unat base \<and> unat base + unat sz < 2 ^ 64 \<and> 8 dvd unat sz"

lemma add_free_region_eq_ok:
  assumes "add_free_region free addr sz = ok free'"
  shows "align_up addr 8 = addr" "16 \<le> unat sz" "free' = \<lparr>start_addr = addr, node_size = sz\<rparr> # free"
  using assms
  by (auto simp: add_free_region_def assert_that_def align_of_node_def size_of_node_def word_le_nat_alt
      split: if_splits)

lemma heap_init_inv:
  assumes "heap_init base sz = ok free" "heap_bounds base sz"
  shows "heap_inv (unat base) (unat base + unat sz) free []"
proof -
  have a: "align_up base 8 = base" "16 \<le> unat sz" "free = [\<lparr>start_addr = base, node_size = sz\<rparr>]"
    using add_free_region_eq_ok [of "[]" base sz free] assms(1) by (simp_all add: heap_init_def)
  have "align_up base 8 = (base + 7) AND NOT (mask 3)"
    by (simp add: align_up_def mask_eq_exp_minus_1 add_diff_eq [symmetric])
  then have "unat base = unat (base + 7) div 2 ^ 3 * 2 ^ 3"
    using push_drop_nat [of "base + 7" 3] a(1) by simp
  then have "8 dvd unat base" by (simp add: dvd_def)
  then show ?thesis using a assms(2)
    by (simp add: heap_inv_def heap_bounds_def region_ivl_def ivl_ok_def)
qed

lemma heap_reach_inv:
  assumes "heap_reach base sz free live" "heap_bounds base sz"
  shows "heap_inv (unat base) (unat base + unat sz) free live"
  using assms
proof (induction rule: heap_reach.induct)
  case (start free)
  then show ?case by (intro heap_init_inv)
next
  case (allocates free live l p free')
  have inv: "heap_inv (unat base) (unat base + unat sz) free live" using allocates by simp
  show ?case
  proof (cases "\<exists>r \<in> set free. fits r l")
    case True
    from heap_alloc_some [OF inv allocates.hyps(2,3) True] allocates.hyps(4) show ?thesis by auto
  next
    case False
    with heap_alloc_none [OF inv allocates.hyps(2,3)] allocates.hyps(4,5) show ?thesis by auto
  qed
next
  case (exhausted free live l free')
  have inv: "heap_inv (unat base) (unat base + unat sz) free live" using exhausted by simp
  show ?case
  proof (cases "\<exists>r \<in> set free. fits r l")
    case True
    from heap_alloc_some [OF inv exhausted.hyps(2,3) True] exhausted.hyps(4) show ?thesis by auto
  next
    case False
    with heap_alloc_none [OF inv exhausted.hyps(2,3)] exhausted.hyps(4) inv show ?thesis by auto
  qed
next
  case (frees free xs p l ys free')
  then have "heap_inv (unat base) (unat base + unat sz) free (xs @ (p, l) # ys)" by simp
  from heap_dealloc_ok [OF this] frees.hyps(2) show ?case by auto
qed

definition free_bytes :: "list_node list \<Rightarrow> nat" where
  "free_bytes free = (\<Sum>r \<leftarrow> free. unat (node_size r))"

lemma tail_bytes:
  assumes "ivl_ok lo hi (region_ivl r)" "hi < 2 ^ 64"
  shows "free_bytes (tail_region r l) = excess r l"
proof -
  have "unat (start_addr r) + unat (node_size r) \<le> hi" using assms(1) by (simp add: ivl_ok_def region_ivl_def)
  then have "excess r l \<le> hi" unfolding excess_def by linarith
  then have "unat (of_nat (excess r l) :: usize) = excess r l" using assms(2) by (simp add: unat_of_nat)
  then show ?thesis by (simp add: tail_region_def free_bytes_def)
qed

lemma heap_bytes_taken:
  assumes inv: "heap_inv lo hi (pre @ r # post) live" and l: "layout_ok l" and fit: "fits r l"
  shows "free_bytes (tail_region r l @ pre @ post) + need l + (place r l - unat (start_addr r))
    = free_bytes (pre @ r # post)"
proof -
  have r: "ivl_ok lo hi (region_ivl r)" "hi < 2 ^ 64" using heap_inv_region [OF inv, of r] by simp_all
  have le: "place r l + need l \<le> unat (start_addr r) + unat (node_size r)" using fit by (simp add: fits_def)
  have "excess r l + need l + (place r l - unat (start_addr r)) = unat (node_size r)"
    using le place_bounds(1) [OF l, of r] unfolding excess_def by linarith
  moreover have "free_bytes (tail_region r l @ pre @ post)
      = excess r l + free_bytes pre + free_bytes post"
    using tail_bytes [OF r] by (simp add: free_bytes_def)
  moreover have "free_bytes (pre @ r # post) = unat (node_size r) + free_bytes pre + free_bytes post"
    by (simp add: free_bytes_def)
  ultimately show ?thesis by linarith
qed

section \<open>Properties\<close>

text \<open>C9. In every state a kernel reaches from \<open>init\<close>, whatever it allocates and frees, the free
  regions and the blocks in use lie in the arena and are pairwise disjoint, each of them starts
  at a multiple of eight and can hold a list node; and every further \<open>alloc\<close> of a valid layout
  and every \<open>dealloc\<close> of a block returns: no assertion fails and the overflow panic is dead. The
  heap is not at address 0, ends below 2 ^ 64 and has a size that is a multiple of eight, and the
  alignments asked for fit between its end and 2 ^ 64.\<close>

theorem heap_reach_safe:
  assumes "heap_reach base sz free live" "heap_bounds base sz"
  shows "heap_inv (unat base) (unat base + unat sz) free live
    \<and> (\<forall>l. layout_ok l \<and> align_room (unat base + unat sz) l \<longrightarrow> (\<exists>r. heap_alloc free l = ok r))
    \<and> (\<forall>(p, l) \<in> set live. \<exists>free'. heap_dealloc free p l = ok free')"
proof (intro conjI allI impI ballI)
  show inv: "heap_inv (unat base) (unat base + unat sz) free live" by (rule heap_reach_inv [OF assms])
  show "\<exists>r. heap_alloc free l = ok r" if "layout_ok l \<and> align_room (unat base + unat sz) l" for l
    using heap_alloc_some [OF inv, of l] heap_alloc_none [OF inv, of l] that by blast
  show "case b of (p, l) \<Rightarrow> \<exists>free'. heap_dealloc free p l = ok free'" if "b \<in> set live" for b
  proof (cases b)
    case (Pair p l)
    with that obtain xs ys where "live = xs @ (p, l) # ys" by (auto dest: split_list)
    with heap_dealloc_ok [of _ _ free xs p l ys] inv Pair show ?thesis by auto
  qed
qed

lemma heap_example:
  "heap_reach 0x1008 0x4000 [\<lparr>start_addr = 0x10c0, node_size = 0x3f48\<rparr>] [(0x1040, \<lparr>l_size = 100, l_align = 64\<rparr>)]"
proof -
  have "heap_reach 0x1008 0x4000 [\<lparr>start_addr = 0x1008, node_size = 0x4000\<rparr>] []"
    by (rule start) (simp add: heap_init_def add_free_region_def align_up_def align_of_node_def size_of_node_def)
  moreover have "pow2 64" unfolding pow2_def by (rule exI [of _ 6]) simp
  moreover have "heap_alloc [\<lparr>start_addr = 0x1008, node_size = 0x4000\<rparr>] \<lparr>l_size = 100, l_align = 64\<rparr>
    = ok (0x1040, [\<lparr>start_addr = 0x10c0, node_size = 0x3f48\<rparr>])" by code_simp
  ultimately show ?thesis
    by (intro heap_reach.allocates) (simp_all add: layout_ok_def align_room_def)
qed

theorem heap_reach_safe_witness:
  "heap_inv 0x1008 0x5008 [\<lparr>start_addr = 0x10c0, node_size = 0x3f48\<rparr>] [(0x1040, \<lparr>l_size = 100, l_align = 64\<rparr>)]"
  using heap_reach_safe [OF heap_example] by (simp add: heap_bounds_def)

text \<open>C10. \<open>alloc\<close> is first fit: it returns null, and changes nothing, exactly when no free region
  has room for the adjusted size at its first aligned address with a rest that is empty or can
  hold a node; otherwise the block starts at that address of the first such region, is aligned as
  asked, and only this region leaves the list, its rest (if any) in front.\<close>

theorem heap_alloc_first_fit:
  assumes "heap_inv lo hi free live" "layout_ok l" "align_room hi l"
  shows "if \<exists>r \<in> set free. fits r l
    then \<exists>pre r post p. free = pre @ r # post \<and> fits r l \<and> (\<forall>q \<in> set pre. \<not> fits q l)
      \<and> unat p = place r l \<and> unat (l_align l) dvd unat p \<and> p \<noteq> 0
      \<and> heap_alloc free l = ok (p, tail_region r l @ pre @ post)
      \<and> heap_inv lo hi (tail_region r l @ pre @ post) ((p, l) # live)
    else heap_alloc free l = ok (0, free)"
proof (cases "\<exists>r \<in> set free. fits r l")
  case True
  have "unat (l_align l) dvd max (unat (l_align l)) 8"
  proof (cases "unat (l_align l) \<le> 8")
    case True
    obtain k where k: "unat (l_align l) = 2 ^ k" using assms(2) pow2_unat by (auto simp: layout_ok_def)
    then have "(2 :: nat) ^ k \<le> 2 ^ 3" using True by simp
    then have "k \<le> 3" by (simp only: power_increasing_iff)
    then have "(2 :: nat) ^ k dvd 2 ^ 3" by (rule le_imp_power_dvd)
    then show ?thesis using k True by (simp add: max_def)
  qed (simp add: max_def)
  then have "unat (l_align l) dvd place r l" for r
    using place_bounds(3) [OF assms(2)] dvd_trans by blast
  with heap_alloc_some [OF assms True] True show ?thesis by fastforce
next
  case False
  with heap_alloc_none [OF assms] show ?thesis by simp
qed

theorem heap_alloc_first_fit_witness:
  "heap_alloc [\<lparr>start_addr = 0x10c0, node_size = 0x3f48\<rparr>] \<lparr>l_size = 0x10000, l_align = 8\<rparr>
    = ok (0, [\<lparr>start_addr = 0x10c0, node_size = 0x3f48\<rparr>])"
proof -
  have inv: "heap_inv 0x1008 0x5008 [\<lparr>start_addr = 0x10c0, node_size = 0x3f48\<rparr>] [(0x1040, \<lparr>l_size = 100, l_align = 64\<rparr>)]"
    using heap_reach_inv [OF heap_example] by (simp add: heap_bounds_def)
  show ?thesis
    using heap_alloc_first_fit [OF inv, of "\<lparr>l_size = 0x10000, l_align = 8\<rparr>"] pow2_8
    by (simp add: layout_ok_def align_room_def fits_def place_def need_def round_up_def)
qed

text \<open>Freeing a block does not give back all that its allocation took: the bytes between the
  start of the region and the aligned start of the block are in no region afterwards, so an
  allocation and its release lose exactly that padding.\<close>

theorem heap_loses_padding:
  assumes "heap_inv lo hi (pre @ r # post) live" "layout_ok l" "align_room hi l"
    and "\<forall>q \<in> set pre. \<not> fits q l" "fits r l"
  shows "\<exists>p free1 free2. heap_alloc (pre @ r # post) l = ok (p, free1) \<and> heap_dealloc free1 p l = ok free2
    \<and> free_bytes free2 + (place r l - unat (start_addr r)) = free_bytes (pre @ r # post)"
proof -
  have "\<exists>r \<in> set (pre @ r # post). fits r l" using assms(5) by simp
  from heap_alloc_some [OF assms(1-3) this] obtain pre' r' post' p where
    f: "pre @ r # post = pre' @ r' # post'" "fits r' l" "\<forall>q \<in> set pre'. \<not> fits q l"
    and a: "heap_alloc (pre @ r # post) l = ok (p, tail_region r' l @ pre' @ post')"
      "heap_inv lo hi (tail_region r' l @ pre' @ post') ((p, l) # live)" by blast
  have eq: "pre' = pre \<and> r' = r \<and> post' = post"
    using f assms(4,5) by (auto simp: append_eq_append_conv2 append_eq_Cons_conv Cons_eq_append_conv)
  obtain free2 where d: "heap_dealloc (tail_region r' l @ pre' @ post') p l = ok free2"
    "free2 = \<lparr>start_addr = p, node_size = of_nat (need l)\<rparr> # tail_region r' l @ pre' @ post'"
    using heap_dealloc_ok [of lo hi _ "[]" p l live] a(2) by auto
  obtain sz al where "unat (sz :: usize) = need l" using size_align_ok [OF assms(2)] by blast
  then have "unat (of_nat (need l) :: usize) = need l" by (metis of_nat_of_unat)
  then have "free_bytes free2 = need l + free_bytes (tail_region r l @ pre @ post)"
    using d(2) eq by (simp add: free_bytes_def)
  with heap_bytes_taken [OF assms(1,2,5)] a(1) d(1) eq show ?thesis by auto
qed

theorem heap_loses_padding_witness:
  "\<exists>p free1 free2. heap_alloc [\<lparr>start_addr = 0x1008, node_size = 0x4000\<rparr>] \<lparr>l_size = 100, l_align = 64\<rparr> = ok (p, free1)
    \<and> heap_dealloc free1 p \<lparr>l_size = 100, l_align = 64\<rparr> = ok free2 \<and> free_bytes free2 + 0x38 = 0x4000"
proof -
  have "heap_inv 0x1008 0x5008 ([] @ \<lparr>start_addr = 0x1008, node_size = 0x4000\<rparr> # []) []"
    by (simp add: heap_inv_def region_ivl_def ivl_ok_def)
  moreover have "pow2 64" unfolding pow2_def by (rule exI [of _ 6]) simp
  ultimately show ?thesis
    using heap_loses_padding [of "0x1008" "0x5008" "[]" "\<lparr>start_addr = 0x1008, node_size = 0x4000\<rparr>" "[]" "[]"
        "\<lparr>l_size = 100, l_align = 64\<rparr>"]
    by (simp add: layout_ok_def align_room_def fits_def place_def need_def round_up_def excess_def free_bytes_def)
qed

text \<open>Without room above the arena for the alignment, \<open>align_up\<close> wraps to a low address that
  passes the check against the end of the region: a heap in the top 2 GiB that is asked for an
  alignment of \<open>2 ^ 40\<close> answers null, yet gives up its only region and lists all memory from
  address \<open>2 ^ 40\<close> up to the heap's end as free.\<close>

theorem heap_alloc_wraps:
  "heap_alloc [\<lparr>start_addr = 0xffffffff80000000, node_size = 0x4000\<rparr>] \<lparr>l_size = 16, l_align = 0x10000000000\<rparr>
    = ok (0, [\<lparr>start_addr = 0x10000000000, node_size = 0xfffffeff80004000\<rparr>])"
  by code_simp

end
