(* ===== verification/Task.thy ===== *)
theory Task
  imports Vmm
begin

text \<open>
  Tasks and the round-robin queue, LSD/src/traps/task.rs, with the trap frame of
  LSD/src/traps/mod.rs. The queue is the vector of \<open>TaskQueue\<close> with its index of the current
  task, a usize that the code decrements with wrap-around. Looking for the next task is a loop
  that need not end: the lock of the queue is held meanwhile, so no interrupt handler can make a
  task ready, and the loop is a partial function. The lemmas say which task \<open>advance\<close> picks, when
  it does not return, and what dropping a task does to the index.
\<close>

section \<open>Trap frames and tasks\<close>

text \<open>\<open>GeneralRegisters\<close> has the 31 registers in the order x1 (ra), x2 (sp), ..., x31 (t6).\<close>

type_synonym registers = "nat \<Rightarrow> usize"

record trap_frame =
  sepc :: usize
  regs :: registers

definition reg_sp :: nat where "reg_sp = 2"
definition reg_a0 :: nat where "reg_a0 = 10"
definition reg_a1 :: nat where "reg_a1 = 11"
definition reg_a2 :: nat where "reg_a2 = 12"
definition reg_a3 :: nat where "reg_a3 = 13"

definition frame_default :: trap_frame where
  "frame_default = \<lparr>sepc = 0, regs = (\<lambda>_. 0)\<rparr>"

definition set_reg :: "nat \<Rightarrow> usize \<Rightarrow> trap_frame \<Rightarrow> trap_frame" where
  "set_reg i v f = f\<lparr>regs := (regs f)(i := v)\<rparr>"

datatype privilege = Root | SuperUser | User | Guest

datatype wait_src = WaitNone | CharIn | WaitBreakpoint

text \<open>\<open>thread_manager\<close> and \<open>vmm\<close> are references to vmem arenas: their names.\<close>

record task_data =
  trap_frame :: trap_frame
  task_id :: usize
  task_table :: u64
  task_privilege :: privilege
  waiting_on :: wait_src
  thread_id :: usize
  thread_manager :: nat
  task_vmm :: nat

section \<open>The queue\<close>

record task_queue =
  queue :: "task_data list"
  cur_task_idx :: usize

definition tq_new :: task_queue where
  "tq_new = \<lparr>queue = [], cur_task_idx = 0\<rparr>"

definition current_task :: "task_queue \<Rightarrow> task_data result" where
  "current_task tq = index_at (queue tq) (unat (cur_task_idx tq))"

text \<open>A write through \<open>current_task_mut\<close>.\<close>

definition current_task_mut :: "(task_data \<Rightarrow> task_data) \<Rightarrow> task_queue \<Rightarrow> task_queue result" where
  "current_task_mut f tq =
     rbind (current_task tq) (\<lambda>t.
     ok (tq\<lparr>queue := (queue tq)[unat (cur_task_idx tq) := f t]\<rparr>))"

definition tq_new_task :: "task_data \<Rightarrow> task_queue \<Rightarrow> task_queue" where
  "tq_new_task t tq = tq\<lparr>queue := queue tq @ [t]\<rparr>"

definition find_task :: "usize \<Rightarrow> task_queue \<Rightarrow> task_data option" where
  "find_task i tq = find (\<lambda>t. task_id t = i) (queue tq)"

text \<open>A write through \<open>find_task_mut\<close>: the first task with the id.\<close>

fun update_first :: "('a \<Rightarrow> bool) \<Rightarrow> ('a \<Rightarrow> 'a) \<Rightarrow> 'a list \<Rightarrow> 'a list option" where
  "update_first P f [] = None"
| "update_first P f (x # xs) =
     (if P x then Some (f x # xs) else map_option ((#) x) (update_first P f xs))"

definition find_task_mut :: "usize \<Rightarrow> (task_data \<Rightarrow> task_data) \<Rightarrow> task_queue \<Rightarrow> task_queue option" where
  "find_task_mut i f tq =
     map_option (\<lambda>q. tq\<lparr>queue := q\<rparr>) (update_first (\<lambda>t. task_id t = i) f (queue tq))"

text \<open>The bits of sstatus that \<open>advance\<close> touches.\<close>

definition sstatus_set_sie :: "bool \<Rightarrow> u64 \<Rightarrow> u64" where "sstatus_set_sie = bf_set_flag 1"
definition sstatus_set_spp :: "bool \<Rightarrow> u64 \<Rightarrow> u64" where "sstatus_set_spp = bf_set_flag 8"

text \<open>The loop of \<open>advance\<close> over the index, the flag \<open>sie_set\<close> and the register sstatus.\<close>

partial_function (option) advance_loop ::
  "task_data list \<Rightarrow> usize \<Rightarrow> usize \<Rightarrow> bool \<Rightarrow> u64 \<Rightarrow> (usize \<times> u64) result" where
  "advance_loop q start_idx idx sie_set sstatus =
     (let idx = idx + 1;
          idx = (if unat idx = length q then 0 else idx)
      in rbind (index_at q (unat idx)) (\<lambda>t.
         if waiting_on t = WaitNone then
           ok (idx, if sie_set then sstatus_set_spp False (sstatus_set_sie False sstatus) else sstatus)
         else if idx = start_idx then
           advance_loop q start_idx idx True (sstatus_set_spp True (sstatus_set_sie True sstatus))
         else advance_loop q start_idx idx sie_set sstatus))"

definition tq_advance :: "task_queue \<Rightarrow> u64 \<Rightarrow> (task_queue \<times> u64) result" where
  "tq_advance tq sstatus =
     rbind (advance_loop (queue tq) (cur_task_idx tq) (cur_task_idx tq) False sstatus) (\<lambda>(i, ss).
     ok (tq\<lparr>cur_task_idx := i\<rparr>, ss))"

text \<open>\<open>Vec::swap_remove\<close>: the last element takes the place of the one removed.\<close>

definition swap_remove :: "nat \<Rightarrow> 'a list \<Rightarrow> 'a list result" where
  "swap_remove i xs =
     (if length xs \<le> i then fail (OutOfBounds i (length xs)) else ok (butlast (xs[i := last xs])))"

definition drop_task :: "usize \<Rightarrow> task_queue \<Rightarrow> u64 \<Rightarrow> (task_queue \<times> u64) result" where
  "drop_task task_index tq sstatus =
     rbind (if cur_task_idx tq = task_index then tq_advance tq sstatus else ok (tq, sstatus)) (\<lambda>(tq, ss).
     rbind (swap_remove (unat task_index) (queue tq)) (\<lambda>q.
     ok (tq\<lparr>queue := q, cur_task_idx := cur_task_idx tq - 1\<rparr>, ss)))"

section \<open>What advance picks\<close>

abbreviation ready :: "task_data \<Rightarrow> bool" where
  "ready t \<equiv> waiting_on t = WaitNone"

text \<open>The indices in the order the loop visits them, the current one last.\<close>

definition visit_order :: "nat \<Rightarrow> nat \<Rightarrow> nat list" where
  "visit_order n c = [Suc c..<n] @ [0..<Suc c]"

definition next_ready :: "task_data list \<Rightarrow> nat \<Rightarrow> nat option" where
  "next_ready q c = find (\<lambda>i. ready (q ! i)) (visit_order (length q) c)"

text \<open>A queue the code builds: not empty, its index in range, fewer than \<open>2 ^ 64\<close> tasks.\<close>

definition tq_ok :: "task_queue \<Rightarrow> bool" where
  "tq_ok tq \<longleftrightarrow> unat (cur_task_idx tq) < length (queue tq) \<and> length (queue tq) < 2 ^ 64"

lemma length_visit_order [simp]: "c < n \<Longrightarrow> length (visit_order n c) = n"
  by (simp add: visit_order_def)

lemma nth_visit_order: "c < n \<Longrightarrow> m < n \<Longrightarrow> visit_order n c ! m = (c + Suc m) mod n"
  by (auto simp: visit_order_def nth_append le_mod_geq simp del: upt_Suc)

lemma set_visit_order: "c < n \<Longrightarrow> set (visit_order n c) = {..<n}"
  by (auto simp: visit_order_def simp del: upt_Suc)

lemma advance_index:
  assumes "unat idx < n" "n < 2 ^ 64"
  shows "unat (if unat (idx + 1) = n then 0 else idx + 1 :: usize) = Suc (unat idx) mod n"
proof -
  have "unat (idx + 1) = Suc (unat idx)" using assms by (subst unat_add_lem [THEN iffD1]) simp_all
  then show ?thesis using assms by (auto simp: not_less)
qed

lemma advance_step:
  assumes i: "unat idx < length q" "length q < 2 ^ 64" and n: "n = length q"
  defines "j \<equiv> Suc (unat idx) mod length q"
  shows "advance_loop q c idx b ss =
    (if ready (q ! j) then ok (of_nat j, if b then sstatus_set_spp False (sstatus_set_sie False ss) else ss)
     else if of_nat j = c then advance_loop q c (of_nat j) True (sstatus_set_spp True (sstatus_set_sie True ss))
     else advance_loop q c (of_nat j) b ss)"
proof -
  let ?j = "if unat (idx + 1) = length q then 0 else idx + 1 :: usize"
  have u: "unat ?j = j" unfolding j_def by (rule advance_index [OF i])
  then have w: "?j = of_nat j" by (simp add: of_nat_of_unat)
  have "0 < length q" using i by linarith
  then have "j < length q" unfolding j_def by (rule mod_less_divisor)
  moreover have "unat (of_nat j :: usize) = j" using u unfolding w .
  ultimately have at: "index_at q (unat (of_nat j :: usize)) = ok (q ! j)" by simp
  show ?thesis
    by (subst advance_loop.simps) (simp only: Let_def at rbind_simps w)
qed

lemma advance_walks:
  assumes c: "unat c < length q" "length q < 2 ^ 64"
  shows "m < length q \<Longrightarrow> \<forall>j < m. \<not> ready (q ! (visit_order (length q) (unat c) ! j)) \<Longrightarrow>
    advance_loop q c c False ss = advance_loop q c (of_nat ((unat c + m) mod length q)) False ss"
proof (induction m)
  case 0
  show ?case using c by simp
next
  case (Suc m)
  let ?n = "length q" and ?i = "(unat c + m) mod length q" and ?j = "(unat c + Suc m) mod length q"
  have "0 < ?n" using c by linarith
  then have "?i < ?n" "?j < ?n" by (rule mod_less_divisor)+
  then have u: "unat (of_nat ?i :: usize) = ?i" "unat (of_nat ?j :: usize) = ?j" using c(2) by (simp_all add: unat_of_nat)
  have j: "Suc ?i mod ?n = ?j" by (simp add: mod_Suc_eq)
  have "\<not> ready (q ! ?j)" using Suc.prems c nth_visit_order [of "unat c" ?n m] by auto
  moreover have "?j \<noteq> unat c"
  proof
    assume "?j = unat c"
    then have "(unat c + Suc m) mod ?n = unat c mod ?n" using c by simp
    then have "?n dvd Suc m" using mod_eq_dvd_iff_nat [of "unat c" "unat c + Suc m" ?n] by simp
    with Suc.prems(1) show False by (auto dest: dvd_imp_le)
  qed
  then have "of_nat ?j \<noteq> c" using u(2) by auto
  ultimately have "advance_loop q c (of_nat ?i) False ss = advance_loop q c (of_nat ?j) False ss"
    using advance_step [of "of_nat ?i" q ?n c False ss] c u(1) \<open>?i < ?n\<close> j by simp
  with Suc show ?case by simp
qed

lemma advance_hangs:
  assumes "advance_loop q c idx b ss = Some r"
  shows "unat idx < length q \<and> length q < 2 ^ 64 \<longrightarrow> (\<exists>t \<in> set q. ready t)"
proof (induction rule: advance_loop.raw_induct [OF _ assms])
  case (1 f q c idx b ss y)
  show ?case
  proof (intro impI, rule ccontr)
    assume i: "unat idx < length q \<and> length q < 2 ^ 64" and no: "\<not> (\<exists>t \<in> set q. ready t)"
    let ?j = "if unat (idx + 1) = length q then 0 else idx + 1 :: usize"
    have "unat ?j = Suc (unat idx) mod length q" using i by (intro advance_index) auto
    also have "\<dots> < length q" using i by (cases q) auto
    finally have j: "unat ?j < length q" .
    then have "\<not> ready (q ! unat ?j)" using no nth_mem by blast
    with 1(2) j obtain b' ss' where "f q c ?j b' ss' = Some y"
      unfolding Let_def by (cases "?j = c") (simp_all add: index_at_lt)
    from 1(1) [OF this] i j no show False by blast
  qed
qed

lemma advance_loop_outcome:
  assumes c: "unat c < length q" "length q < 2 ^ 64"
  shows "advance_loop q c c False ss =
    (case next_ready q (unat c) of None \<Rightarrow> hang | Some i \<Rightarrow> ok (of_nat i, ss))"
proof (cases "next_ready q (unat c)")
  case None
  then have "\<not> (\<exists>t \<in> set q. ready t)"
    using c set_visit_order [of "unat c" "length q"]
    by (auto simp: next_ready_def find_None_iff in_set_conv_nth)
  then have "advance_loop q c c False ss = None" using advance_hangs c by (metis not_None_eq)
  with None show ?thesis by simp
next
  case (Some i)
  let ?v = "visit_order (length q) (unat c)"
  from Some obtain m where m: "m < length q" "ready (q ! (?v ! m))" "i = ?v ! m" "\<forall>j < m. \<not> ready (q ! (?v ! j))"
    using c by (auto simp: next_ready_def find_Some_iff)
  let ?i = "(unat c + m) mod length q"
  have "0 < length q" using c by linarith
  then have "?i < length q" by (rule mod_less_divisor)
  then have u: "unat (of_nat ?i :: usize) = ?i" using c(2) by (simp add: unat_of_nat)
  have j: "Suc ?i mod length q = i" using nth_visit_order [OF c(1) m(1)] by (simp add: m(3) mod_Suc_eq)
  have "advance_loop q c c False ss = advance_loop q c (of_nat ?i) False ss"
    by (rule advance_walks [OF c m(1,4)])
  also have "\<dots> = ok (of_nat i, ss)"
    using advance_step [of "of_nat ?i" q "length q" c False ss] c u \<open>?i < length q\<close> j m(2,3) by simp
  finally show ?thesis using Some by simp
qed

lemma tq_advance_outcome:
  assumes "tq_ok tq"
  shows "tq_advance tq ss =
    (case next_ready (queue tq) (unat (cur_task_idx tq)) of
       None \<Rightarrow> hang | Some i \<Rightarrow> ok (tq\<lparr>cur_task_idx := of_nat i\<rparr>, ss))"
  using assms advance_loop_outcome [of "cur_task_idx tq" "queue tq" ss]
  by (auto simp: tq_advance_def tq_ok_def split: option.splits)

lemma next_ready_lt: "next_ready q c = Some i \<Longrightarrow> c < length q \<Longrightarrow> i < length q \<and> ready (q ! i)"
  using set_visit_order [of c "length q"] by (force simp: next_ready_def find_Some_iff)

lemma tq_advance_ok:
  "tq_ok tq \<Longrightarrow> tq_advance tq ss = ok (tq', ss') \<Longrightarrow>
    tq_ok tq' \<and> queue tq' = queue tq \<and> ss' = ss \<and> ready (queue tq ! unat (cur_task_idx tq'))"
  using next_ready_lt [of "queue tq" "unat (cur_task_idx tq)"]
  by (auto simp: tq_advance_outcome tq_ok_def unat_of_nat split: option.splits)

section \<open>Dropping a task\<close>

lemma swap_remove_ok: "i < length xs \<Longrightarrow> swap_remove i xs = ok (butlast (xs[i := last xs]))"
  by (simp add: swap_remove_def)

text \<open>Dropping another task than the current one: the queue loses it, and the index goes down by
  one, wrapping at zero.\<close>

lemma drop_task_other:
  assumes "unat i < length (queue tq)" "cur_task_idx tq \<noteq> i"
  shows "drop_task i tq ss = ok (\<lparr>queue = butlast ((queue tq)[unat i := last (queue tq)]),
    cur_task_idx = cur_task_idx tq - 1\<rparr>, ss)"
  using assms by (simp add: drop_task_def swap_remove_ok)

lemma drop_task_self:
  assumes "tq_ok tq"
  shows "drop_task (cur_task_idx tq) tq ss =
    (case next_ready (queue tq) (unat (cur_task_idx tq)) of
       None \<Rightarrow> hang
     | Some j \<Rightarrow> ok (\<lparr>queue = butlast ((queue tq)[unat (cur_task_idx tq) := last (queue tq)]),
                       cur_task_idx = of_nat j - 1\<rparr>, ss))"
  using assms by (simp add: drop_task_def tq_advance_outcome swap_remove_def tq_ok_def split: option.splits)

text \<open>Where the task at index \<open>c\<close> is after the one at \<open>i\<close> was removed.\<close>

definition moved_to :: "nat \<Rightarrow> nat \<Rightarrow> nat \<Rightarrow> nat" where
  "moved_to n i c = (if c = n - 1 then i else c)"

lemma swap_remove_nth:
  assumes "i < length xs" "c < length xs" "c \<noteq> i"
  shows "butlast (xs[i := last xs]) ! moved_to (length xs) i c = xs ! c
    \<and> moved_to (length xs) i c < length (butlast (xs[i := last xs]))"
proof -
  have n: "xs \<noteq> []" using assms by auto
  show ?thesis using assms n by (auto simp: moved_to_def nth_butlast last_conv_nth [OF n] nth_list_update)
qed

section \<open>Fairness\<close>

text \<open>How far the index \<open>i\<close> is ahead of the current one \<open>c\<close> in the order of the visits, from 1 to \<open>n\<close>.\<close>

definition ahead :: "nat \<Rightarrow> nat \<Rightarrow> nat \<Rightarrow> nat" where
  "ahead n c i = (if c < i then i - c else n + i - c)"

lemma ahead_bounds: "c < n \<Longrightarrow> i < n \<Longrightarrow> 0 < ahead n c i \<and> ahead n c i \<le> n"
  by (auto simp: ahead_def)

lemma visit_order_ahead: "c < n \<Longrightarrow> i < n \<Longrightarrow> visit_order n c ! (ahead n c i - 1) = i"
  by (auto simp: visit_order_def ahead_def nth_append simp del: upt_Suc)

lemma ahead_nth: "c < n \<Longrightarrow> m < n \<Longrightarrow> ahead n c (visit_order n c ! m) = Suc m"
  by (auto simp: visit_order_def ahead_def nth_append simp del: upt_Suc)

lemma ahead_ahead: "c < n \<Longrightarrow> i < n \<Longrightarrow> j < n \<Longrightarrow> ahead n c j < ahead n c i \<Longrightarrow>
    ahead n j i = ahead n c i - ahead n c j"
  by (simp add: ahead_def split: if_splits)

text \<open>No ready task is passed over: the next one is at most as far ahead as any ready one.\<close>

lemma next_ready_nearest:
  assumes "c < length q" "i < length q" "ready (q ! i)"
  obtains j where "next_ready q c = Some j" "j < length q" "ahead (length q) c j \<le> ahead (length q) c i"
proof -
  let ?n = "length q"
  let ?v = "visit_order ?n c"
  have "i \<in> set ?v" using assms set_visit_order by auto
  then have "next_ready q c \<noteq> None" using assms(3) by (auto simp: next_ready_def find_None_iff)
  then obtain j where j: "next_ready q c = Some j" by auto
  then obtain m where m: "m < ?n" "j = ?v ! m" "\<forall>l < m. \<not> ready (q ! (?v ! l))"
    using assms(1) by (auto simp: next_ready_def find_Some_iff)
  have a: "ahead ?n c j = Suc m" using ahead_nth assms(1) m by simp
  have i: "?v ! (ahead ?n c i - 1) = i" using visit_order_ahead assms by simp
  have "\<not> ahead ?n c i - 1 < m" using m(3) i assms(3) by metis
  then have "ahead ?n c j \<le> ahead ?n c i" using a ahead_bounds [OF assms(1,2)] by linarith
  then show ?thesis using that j next_ready_lt [OF j assms(1)] by blast
qed

text \<open>A number of switches in a row.\<close>

fun advances :: "nat \<Rightarrow> task_queue \<Rightarrow> u64 \<Rightarrow> task_queue result" where
  "advances 0 tq ss = ok tq"
| "advances (Suc n) tq ss = rbind (tq_advance tq ss) (\<lambda>(tq, ss). advances n tq ss)"

lemma advances_reach:
  assumes "tq_ok tq" "i < length (queue tq)" "ready (queue tq ! i)"
  shows "\<exists>m tq'. 0 < m \<and> m \<le> ahead (length (queue tq)) (unat (cur_task_idx tq)) i
    \<and> advances m tq ss = ok tq' \<and> unat (cur_task_idx tq') = i"
  using assms
proof (induction "ahead (length (queue tq)) (unat (cur_task_idx tq)) i" arbitrary: tq rule: less_induct)
  case less
  let ?n = "length (queue tq)" and ?c = "unat (cur_task_idx tq)"
  have c: "?c < ?n" "?n < 2 ^ 64" using less.prems(1) by (simp_all add: tq_ok_def)
  obtain j where j: "next_ready (queue tq) ?c = Some j" "j < ?n" "ahead ?n ?c j \<le> ahead ?n ?c i"
    using next_ready_nearest [OF c(1) less.prems(2,3)] .
  let ?t = "tq\<lparr>cur_task_idx := of_nat j\<rparr>"
  have step: "tq_advance tq ss = ok (?t, ss)" using tq_advance_outcome [OF less.prems(1)] j by simp
  have u: "unat (of_nat j :: usize) = j" using j(2) c(2) by (intro unat_of_nat_less) simp
  have pos: "0 < ahead ?n ?c i" "0 < ahead ?n ?c j" using ahead_bounds c j(2) less.prems(2) by blast+
  show ?case
  proof (cases "j = i")
    case True
    then have "advances 1 tq ss = ok ?t" using step by simp
    then show ?thesis using True u pos by (intro exI [of _ 1] exI [of _ ?t]) auto
  next
    case False
    have "ahead ?n ?c j \<noteq> ahead ?n ?c i"
    proof
      assume eq: "ahead ?n ?c j = ahead ?n ?c i"
      show False using False visit_order_ahead [OF c(1) j(2)] visit_order_ahead [OF c(1) less.prems(2)]
        unfolding eq by simp
    qed
    then have "ahead ?n ?c j < ahead ?n ?c i" using j(3) by simp
    then have d: "ahead ?n j i = ahead ?n ?c i - ahead ?n ?c j"
      using ahead_ahead c(1) less.prems(2) j(2) by blast
    have "tq_ok ?t" using u j(2) c(2) by (simp add: tq_ok_def)
    then obtain m tq' where "0 < m" "m \<le> ahead ?n j i" "advances m ?t ss = ok tq'" "unat (cur_task_idx tq') = i"
      using less.hyps [of ?t] less.prems u d pos by auto
    then show ?thesis using step d pos by (intro exI [of _ "Suc m"] exI [of _ tq']) auto
  qed
qed

section \<open>Properties\<close>

text \<open>C11. Round robin: every task that waits for nothing is the current one after at most as many
  switches as there are tasks, whatever the other tasks are.\<close>

theorem advance_is_fair:
  assumes "tq_ok tq" and "i < length (queue tq)" and "waiting_on (queue tq ! i) = WaitNone"
  shows "\<exists>m tq'. 0 < m \<and> m \<le> length (queue tq) \<and> advances m tq ss = ok tq'
    \<and> unat (cur_task_idx tq') = i"
proof -
  have "ahead (length (queue tq)) (unat (cur_task_idx tq)) i \<le> length (queue tq)"
    using ahead_bounds [OF _ assms(2)] assms(1) by (simp add: tq_ok_def)
  then show ?thesis using advances_reach [OF assms] order.trans by blast
qed

definition sample_task :: "usize \<Rightarrow> wait_src \<Rightarrow> task_data" where
  "sample_task i w = \<lparr>trap_frame = frame_default, task_id = i, task_table = 0, task_privilege = User,
     waiting_on = w, thread_id = 0, thread_manager = 0, task_vmm = 1\<rparr>"

theorem advance_is_fair_witness:
  "\<exists>m tq'. 0 < m \<and> m \<le> 3 \<and>
     advances m \<lparr>queue = [sample_task 0 WaitNone, sample_task 1 CharIn, sample_task 2 WaitNone],
       cur_task_idx = 2\<rparr> 0 = ok tq' \<and> unat (cur_task_idx tq') = 2"
proof -
  let ?tq = "\<lparr>queue = [sample_task 0 WaitNone, sample_task 1 CharIn, sample_task 2 WaitNone],
       cur_task_idx = 2\<rparr>"
  have "tq_ok ?tq" "2 < length (queue ?tq)" "waiting_on (queue ?tq ! 2) = WaitNone"
    by (simp_all add: tq_ok_def sample_task_def)
  from advance_is_fair [OF this, of 0] have "\<exists>m tq'. 0 < m \<and> m \<le> length (queue ?tq) \<and>
     advances m ?tq 0 = ok tq' \<and> unat (cur_task_idx tq') = 2" .
  moreover have "length (queue ?tq) = 3" by simp
  ultimately show ?thesis by metis
qed

text \<open>C12. Choosing the next task either stops at the first ready one after the current one, in the
  order of the queue with the current one last, and changes neither the queue nor sstatus, or it
  does not return, and this happens exactly when no task is ready.\<close>

theorem advance_picks_next_or_hangs:
  assumes "tq_ok tq"
  shows "case tq_advance tq ss of
      None \<Rightarrow> (\<forall>t \<in> set (queue tq). waiting_on t \<noteq> WaitNone)
    | Some (Inl _) \<Rightarrow> False
    | Some (Inr (tq', ss')) \<Rightarrow> queue tq' = queue tq \<and> ss' = ss
        \<and> unat (cur_task_idx tq') < length (queue tq)
        \<and> waiting_on (queue tq ! unat (cur_task_idx tq')) = WaitNone
        \<and> (\<forall>i < length (queue tq).
             ahead (length (queue tq)) (unat (cur_task_idx tq)) i
               < ahead (length (queue tq)) (unat (cur_task_idx tq)) (unat (cur_task_idx tq'))
             \<longrightarrow> waiting_on (queue tq ! i) \<noteq> WaitNone)"
proof -
  let ?q = "queue tq" and ?c = "unat (cur_task_idx tq)"
  have c: "?c < length ?q" "length ?q < 2 ^ 64" using assms by (simp_all add: tq_ok_def)
  show ?thesis
  proof (cases "next_ready ?q ?c")
    case None
    then have "\<forall>t \<in> set ?q. \<not> ready t"
      using set_visit_order [OF c(1)] by (auto simp: next_ready_def find_None_iff in_set_conv_nth)
    then show ?thesis using tq_advance_outcome [OF assms] None by simp
  next
    case (Some j)
    then have j: "j < length ?q" "ready (?q ! j)" using next_ready_lt c(1) by blast+
    have u: "unat (of_nat j :: usize) = j" using j(1) c(2) by (intro unat_of_nat_less) simp
    have "\<not> ready (?q ! i)" if "i < length ?q" "ahead (length ?q) ?c i < ahead (length ?q) ?c j" for i
      using next_ready_nearest [OF c(1) that(1)] that(2) Some by fastforce
    then show ?thesis using tq_advance_outcome [OF assms] Some j u by simp
  qed
qed

theorem advance_picks_next_or_hangs_witness:
  "tq_advance \<lparr>queue = [sample_task 0 CharIn], cur_task_idx = 0\<rparr> 0 = hang"
proof -
  let ?tq = "\<lparr>queue = [sample_task 0 CharIn], cur_task_idx = 0\<rparr>"
  have "tq_ok ?tq" by (simp add: tq_ok_def)
  from advance_picks_next_or_hangs [OF this, of 0] show ?thesis
    by (auto simp: sample_task_def less_Suc_eq split: option.splits sum.splits)
qed

end
