(* ===== verification/Timing.thy ===== *)
theory Timing
  imports Kernel_Prelude
begin

text \<open>
  Time units, instants and timeouts, LSD/src/timing.rs. \<open>TIMER_SPEED\<close>, the number of timer ticks
  in a second, is the argument \<open>speed\<close>; it is \<open>u64::MAX\<close> until the device tree was read. The counter
  that \<open>rdtime\<close> returns is an argument too. \<open>Duration\<close> of the standard library keeps whole seconds
  and fewer than \<open>10 ^ 9\<close> nanoseconds, ordered by seconds first; \<open>duration_new\<close> carries the
  nanoseconds over and panics when the seconds overflow.
\<close>

section \<open>Units\<close>

datatype time_unit =
    Weeks u64 | Days u64 | Hours u64 | Hectoseconds u64 | Minutes u64 | Decaseconds u64
  | Seconds u64 | Deciseconds u64 | Centiseconds u64 | MilliSeconds u64 | MicroSeconds u64
  | Ticks u64

definition TIMER_SPEED_INIT :: u64 where
  "TIMER_SPEED_INIT = - 1"

fun ticks :: "u64 \<Rightarrow> time_unit \<Rightarrow> u64" where
  "ticks speed (Weeks wks) = speed * wks * 604800"
| "ticks speed (Days days) = speed * days * 86400"
| "ticks speed (Hours hrs) = speed * hrs * 3600"
| "ticks speed (Hectoseconds hs) = speed * hs * 100"
| "ticks speed (Minutes mins) = speed * mins * 60"
| "ticks speed (Decaseconds ds) = speed * ds * 10"
| "ticks speed (Seconds secs) = speed * secs"
| "ticks speed (Deciseconds dis) = speed * dis div 10"
| "ticks speed (Centiseconds cs) = speed * cs div 100"
| "ticks speed (MilliSeconds ms) = speed * ms div 1000"
| "ticks speed (MicroSeconds us) = speed * us div 1000000"
| "ticks speed (Ticks n) = n"

text \<open>The deadline that \<open>Unit::set\<close> hands to the firmware, and the result of the firmware call.\<close>

definition unit_deadline :: "u64 \<Rightarrow> u64 \<Rightarrow> time_unit \<Rightarrow> u64" where
  "unit_deadline speed time u = ticks speed u + time"

definition unit_set :: "(u64 \<Rightarrow> string + unit) \<Rightarrow> u64 \<Rightarrow> u64 \<Rightarrow> time_unit \<Rightarrow> (string + unit) \<times> u64" where
  "unit_set set_timer speed time u =
     (set_timer (unit_deadline speed time u), unit_deadline speed time u)"

section \<open>Durations\<close>

datatype duration = Duration (dur_secs: u64) (dur_nanos: u32)

instantiation duration :: linorder
begin

definition less_eq_duration :: "duration \<Rightarrow> duration \<Rightarrow> bool" where
  "less_eq_duration a b \<longleftrightarrow>
     dur_secs a < dur_secs b \<or> dur_secs a = dur_secs b \<and> dur_nanos a \<le> dur_nanos b"

definition less_duration :: "duration \<Rightarrow> duration \<Rightarrow> bool" where
  "less_duration a b \<longleftrightarrow>
     dur_secs a < dur_secs b \<or> dur_secs a = dur_secs b \<and> dur_nanos a < dur_nanos b"

instance
  by standard (auto simp: less_eq_duration_def less_duration_def duration.expand)

end

definition duration_new :: "u64 \<Rightarrow> u32 \<Rightarrow> duration result" where
  "duration_new secs nanos =
     (if nanos < 1000000000 then ok (Duration secs nanos)
      else if secs + ucast (nanos div 1000000000) < secs then fail (Panic ''overflow in Duration::new'')
      else ok (Duration (secs + ucast (nanos div 1000000000)) (nanos mod 1000000000)))"

definition MICROS_PER_SECOND :: u64 where
  "MICROS_PER_SECOND = 1000000"

definition ticks_per_micro :: "u64 \<Rightarrow> u64" where
  "ticks_per_micro freq = (freq + MICROS_PER_SECOND - 1) div MICROS_PER_SECOND"

definition checked_duration_since :: "u64 \<Rightarrow> u64 \<Rightarrow> u64 \<Rightarrow> duration option result" where
  "checked_duration_since freq self earlier =
     (if self < earlier then ok None
      else let diff = self - earlier in
        rbind (checked_div diff freq) (\<lambda>secs.
        let rems = diff mod freq in
        rbind (checked_div rems (ticks_per_micro freq)) (\<lambda>micros.
        let nanos = micros * 1000 in
        rbind (duration_new secs (ucast nanos)) (\<lambda>d.
        ok (Some d)))))"

definition duration_since :: "u64 \<Rightarrow> u64 \<Rightarrow> u64 \<Rightarrow> duration result" where
  "duration_since freq self earlier =
     rbind (checked_duration_since freq self earlier) (\<lambda>d.
     ok (case d of None \<Rightarrow> Duration 0 0 | Some d \<Rightarrow> d))"

record timeout =
  to_start :: u64
  to_duration :: duration

definition timeout_start :: "u64 \<Rightarrow> duration \<Rightarrow> timeout" where
  "timeout_start now d = \<lparr>to_start = now, to_duration = d\<rparr>"

definition expired :: "u64 \<Rightarrow> u64 \<Rightarrow> timeout \<Rightarrow> bool result" where
  "expired freq now t =
     rbind (duration_since freq now (to_start t)) (\<lambda>d. ok (to_duration t \<le> d))"

section \<open>Exact ticks\<close>

text \<open>How many ticks a unit lasts when nothing wraps, as a rational of the speed.\<close>

fun unit_num :: "time_unit \<Rightarrow> nat" where
  "unit_num (Weeks n) = unat n * 604800"
| "unit_num (Days n) = unat n * 86400"
| "unit_num (Hours n) = unat n * 3600"
| "unit_num (Hectoseconds n) = unat n * 100"
| "unit_num (Minutes n) = unat n * 60"
| "unit_num (Decaseconds n) = unat n * 10"
| "unit_num (Seconds n) = unat n"
| "unit_num (Deciseconds n) = unat n"
| "unit_num (Centiseconds n) = unat n"
| "unit_num (MilliSeconds n) = unat n"
| "unit_num (MicroSeconds n) = unat n"
| "unit_num (Ticks n) = unat n"

fun unit_den :: "time_unit \<Rightarrow> nat" where
  "unit_den (Deciseconds _) = 10"
| "unit_den (Centiseconds _) = 100"
| "unit_den (MilliSeconds _) = 1000"
| "unit_den (MicroSeconds _) = 1000000"
| "unit_den _ = 1"

fun counts_seconds :: "time_unit \<Rightarrow> bool" where
  "counts_seconds (Ticks _) = False"
| "counts_seconds _ = True"

lemma unat_mult_fits: "unat a * unat b < 2 ^ 64 \<Longrightarrow> unat (a * b :: u64) = unat a * unat b"
  by (subst unat_mult_lem [THEN iffD1]) simp_all

lemma unat_mult_const:
  assumes "unat a * k < 2 ^ 64"
  shows "unat (a * of_nat k :: u64) = unat a * k"
proof (cases "unat a = 0")
  case False
  then have "k \<le> unat a * k" by (cases "unat a") simp_all
  then have "k < 2 ^ 64" using assms by (rule le_less_trans)
  then have "unat (of_nat k :: u64) = k" by (intro unat_of_nat_less) simp
  then show ?thesis using assms unat_mult_fits [of a "of_nat k"] by simp
qed (simp add: unat_eq_zero)

lemma ticks_exact:
  assumes "counts_seconds u" and "unat speed * unit_num u < 2 ^ 64"
  shows "unat (ticks speed u) = unat speed * unit_num u div unit_den u"
proof -
  have scale: "unat (speed * n * of_nat k) = unat speed * (unat n * k)"
    if "unat speed * (unat n * k) < 2 ^ 64" "0 < k" for n k
  proof -
    have "unat speed * unat n \<le> unat speed * unat n * k" using that(2) by (cases k) simp_all
    then have "unat speed * unat n < 2 ^ 64" using that(1) by (simp only: mult.assoc)
    then have "unat (speed * n) = unat speed * unat n" by (rule unat_mult_fits)
    then show ?thesis using unat_mult_const [of "speed * n" k] that(1) by (simp add: mult.assoc)
  qed
  show ?thesis
    using assms scale [of _ 604800] scale [of _ 86400] scale [of _ 3600] scale [of _ 100]
      scale [of _ 60] scale [of _ 10] unat_mult_fits [of speed]
    by (cases u) (simp_all add: unat_div)
qed

section \<open>Durations between instants\<close>

definition freq_ok :: "u64 \<Rightarrow> bool" where
  "freq_ok freq \<longleftrightarrow> 0 < unat freq \<and> unat freq \<le> 2 ^ 64 - 1000000"

definition micro_nat :: "nat \<Rightarrow> nat" where
  "micro_nat f = (f + 999999) div 1000000"

lemma unat_ticks_per_micro: "freq_ok freq \<Longrightarrow> unat (ticks_per_micro freq) = micro_nat (unat freq)"
proof -
  assume f: "freq_ok freq"
  have "freq + 1000000 - 1 = freq + (999999 :: u64)" by simp
  moreover have "unat (freq + 999999) = unat freq + 999999"
    using f by (subst unat_add_lem [THEN iffD1]) (simp_all add: freq_ok_def)
  moreover have "unat (1000000 :: u64) = 1000000" by simp
  ultimately have "unat ((freq + 1000000 - 1) div 1000000) = (unat freq + 999999) div 1000000"
    by (simp only: unat_div)
  then show ?thesis unfolding ticks_per_micro_def micro_nat_def MICROS_PER_SECOND_def .
qed

lemma micro_nat_bound: "0 < f \<Longrightarrow> 0 < micro_nat f \<and> f \<le> micro_nat f * 1000000"
proof -
  assume "0 < f"
  have "f + 999999 = micro_nat f * 1000000 + (f + 999999) mod 1000000"
    unfolding micro_nat_def by simp
  moreover have "(f + 999999) mod 1000000 < 1000000" by simp
  ultimately show ?thesis using \<open>0 < f\<close> by linarith
qed

definition micros_of :: "nat \<Rightarrow> nat \<Rightarrow> nat" where
  "micros_of f d = d mod f div micro_nat f"

lemma micros_of_less: "0 < f \<Longrightarrow> micros_of f d < 1000000"
proof -
  assume f: "0 < f"
  then have "d mod f < micro_nat f * 1000000" using micro_nat_bound [OF f] by (meson mod_less_divisor less_le_trans)
  then show ?thesis unfolding micros_of_def by (simp add: less_mult_imp_div_less mult.commute)
qed

lemma duration_since_value:
  assumes f: "freq_ok freq" and le: "earlier \<le> self"
  defines "d \<equiv> unat self - unat earlier"
  shows "duration_since freq self earlier =
    ok (Duration (of_nat (d div unat freq)) (of_nat (micros_of (unat freq) d * 1000)))"
proof -
  let ?diff = "self - earlier" and ?f = "unat freq"
  have f0: "freq \<noteq> 0" "0 < ?f" using f by (auto simp: freq_ok_def)
  have d: "unat ?diff = d" using le by (simp add: d_def unat_sub)
  have t0: "ticks_per_micro freq \<noteq> 0"
    using micro_nat_bound [OF f0(2)] unat_ticks_per_micro [OF f] by auto
  let ?m = "?diff mod freq div ticks_per_micro freq"
  have m: "unat ?m = micros_of ?f d"
    using d unat_ticks_per_micro [OF f] by (simp add: micros_of_def unat_div unat_mod)
  have ml: "micros_of ?f d < 1000000" by (rule micros_of_less [OF f0(2)])
  have n: "?m * 1000 = of_nat (micros_of ?f d * 1000)" using m by (simp flip: m)
  have u: "unat (of_nat (micros_of ?f d * 1000) :: u32) = micros_of ?f d * 1000"
    using ml by (intro unat_of_nat_less) simp
  have "(ucast (of_nat (micros_of ?f d * 1000) :: u64) :: u32) = of_nat (micros_of ?f d * 1000)"
    using ml by (simp add: unsigned_of_nat take_bit_nat_eq_self del: of_nat_mult)
  then have "ucast (?m * 1000) = (of_nat (micros_of ?f d * 1000) :: u32)" unfolding n .
  moreover have "of_nat (micros_of ?f d * 1000) < (1000000000 :: u32)"
    using ml u by (simp add: word_less_nat_alt del: of_nat_mult)
  ultimately have "duration_new (?diff div freq) (ucast (?m * 1000)) =
      ok (Duration (?diff div freq) (of_nat (micros_of ?f d * 1000)))"
    by (simp add: duration_new_def del: of_nat_mult)
  moreover have "?diff div freq = of_nat (d div ?f)"
    using of_nat_of_unat [of "?diff div freq" "d div ?f"] d by (simp add: unat_div)
  moreover have "\<not> self < earlier" using le by simp
  ultimately show ?thesis
    using f0 t0 by (simp add: duration_since_def checked_duration_since_def checked_div_def Let_def
        del: of_nat_mult)
qed

text \<open>The nanoseconds a duration stands for.\<close>

definition nanos_of :: "duration \<Rightarrow> nat" where
  "nanos_of d = unat (dur_secs d) * 1000000000 + unat (dur_nanos d)"

definition nanos_between :: "nat \<Rightarrow> nat \<Rightarrow> nat" where
  "nanos_between f d = d div f * 1000000000 + micros_of f d * 1000"

lemma duration_since_nanos:
  assumes f: "freq_ok freq" and le: "earlier \<le> self"
  obtains d where "duration_since freq self earlier = ok d" "dur_nanos d < 1000000000"
    "nanos_of d = nanos_between (unat freq) (unat self - unat earlier)"
proof -
  let ?d = "unat self - unat earlier" and ?f = "unat freq"
  have f0: "0 < ?f" using f by (simp add: freq_ok_def)
  have "unat self < 2 ^ 64" using unsigned_less [of self, where 'a = nat] by simp
  have "?d div ?f \<le> ?d" by simp
  also have "?d < 2 ^ 64" using \<open>unat self < 2 ^ 64\<close> by simp
  finally have "unat (of_nat (?d div ?f) :: u64) = ?d div ?f" by (intro unat_of_nat_less) simp
  moreover have n: "micros_of ?f ?d * 1000 < 1000000000" using micros_of_less [OF f0, of ?d] by simp
  then have "unat (of_nat (micros_of ?f ?d * 1000) :: u32) = micros_of ?f ?d * 1000"
    by (intro unat_of_nat_less) simp
  ultimately show ?thesis
    using that [OF duration_since_value [OF f le]] n
    by (simp add: nanos_of_def nanos_between_def word_less_nat_alt del: of_nat_mult)
qed

lemma nanos_between_mono:
  assumes "0 < f" "d \<le> e"
  shows "nanos_between f d \<le> nanos_between f e"
proof (cases "d div f = e div f")
  case True
  then have "d mod f \<le> e mod f" using assms(2) by (metis add_le_cancel_left div_mult_mod_eq)
  then show ?thesis using True by (simp add: nanos_between_def micros_of_def div_le_mono)
next
  case False
  then have "Suc (d div f) \<le> e div f" using div_le_mono [OF assms(2), of f] by simp
  then have "Suc (d div f) * 1000000000 \<le> e div f * 1000000000" by (rule mult_le_mono1)
  then show ?thesis using micros_of_less [OF assms(1), of d] by (simp add: nanos_between_def)
qed

lemma duration_le_nanos:
  assumes "dur_nanos a < 1000000000" "dur_nanos b < 1000000000"
  shows "a \<le> b \<longleftrightarrow> nanos_of a \<le> nanos_of b"
  using assms
  by (auto simp: less_eq_duration_def nanos_of_def word_less_nat_alt word_le_nat_alt word_unat_eq_iff)

lemma split_nanos: "d * 1000000000 = d div f * 1000000000 * f + d mod f * (1000000000 :: nat)"
proof -
  have "d * 1000000000 = (d div f * f + d mod f) * 1000000000" by simp
  also have "\<dots> = d div f * f * 1000000000 + d mod f * 1000000000" by (rule add_mult_distrib)
  also have "d div f * f * 1000000000 = d div f * 1000000000 * f" by (simp only: ac_simps)
  finally show ?thesis .
qed

lemma nanos_between_low:
  assumes "0 < f"
  shows "nanos_between f d * f \<le> d * 1000000000"
proof -
  let ?t = "micro_nat f" and ?r = "d mod f"
  have t: "f \<le> ?t * 1000000" using micro_nat_bound [OF assms] by simp
  have "?r div ?t * 1000 * f \<le> ?r div ?t * 1000 * (?t * 1000000)" by (intro mult_le_mono2 t)
  also have "\<dots> = ?r div ?t * ?t * 1000000000" by simp
  also have "\<dots> \<le> ?r * 1000000000" by (intro mult_le_mono1) simp
  finally have "micros_of f d * 1000 * f \<le> ?r * 1000000000" by (simp add: micros_of_def)
  then show ?thesis unfolding split_nanos [of d f] by (simp add: nanos_between_def add_mult_distrib)
qed

lemma nanos_between_high:
  assumes "0 < f" "1000000 dvd f"
  shows "d * 1000000000 < (nanos_between f d + 1000) * f"
proof -
  let ?t = "micro_nat f" and ?r = "d mod f"
  obtain k where k: "f = 1000000 * k" using assms(2) by blast
  have "?t = k" using assms(1) unfolding micro_nat_def k by simp
  then have t: "f = ?t * 1000000" "0 < ?t" using k assms(1) by auto
  have "?r < (?r div ?t + 1) * ?t" using t(2) by (metis div_mult_mod_eq add_mult_distrib mult_1 nat_add_left_cancel_less mod_less_divisor)
  then have "?r * 1000000000 < (?r div ?t + 1) * ?t * 1000000000" by simp
  also have "\<dots> = (micros_of f d + 1) * 1000 * (?t * 1000000)"
    by (simp only: micros_of_def mult.assoc mult.commute [of 1000])
  also have "\<dots> = (micros_of f d + 1) * 1000 * f" using t(1) by simp
  finally have "?r * 1000000000 < (micros_of f d + 1) * 1000 * f" .
  then show ?thesis unfolding split_nanos [of d f] by (simp add: nanos_between_def add_mult_distrib)
qed

section \<open>Properties\<close>

text \<open>A unit that lasts a number of seconds, or a decimal fraction of one, is the exact number
  of ticks, rounded down, as long as the product of speed and unit fits in 64 bits.\<close>

theorem timer_ticks_exact:
  assumes "counts_seconds u" and "unat speed * unit_num u < 2 ^ 64"
  shows "unat (ticks speed u) * unit_den u \<le> unat speed * unit_num u
    \<and> unat speed * unit_num u < (unat (ticks speed u) + 1) * unit_den u"
proof -
  have "0 < unit_den u" by (cases u) simp_all
  then show ?thesis unfolding ticks_exact [OF assms] by (simp add: dividend_less_div_times)
qed

theorem timer_ticks_exact_witness:
  "unat (ticks 10000000 (MilliSeconds 1)) * 1000 \<le> 10000000 \<and>
   10000000 < (unat (ticks 10000000 (MilliSeconds 1)) + 1) * 1000"
  using timer_ticks_exact [of "MilliSeconds 1" 10000000] by simp

text \<open>C21. For a usable timer frequency the duration between two instants in order is returned, is
  never longer than the time that passed, and when the frequency is a whole number of MHz it is
  less than a microsecond shorter.\<close>

theorem duration_since_accuracy:
  assumes "freq_ok freq" and "earlier \<le> self"
  shows "\<exists>d. duration_since freq self earlier = ok d \<and> dur_nanos d < 1000000000
    \<and> nanos_of d * unat freq \<le> (unat self - unat earlier) * 1000000000
    \<and> (1000000 dvd unat freq \<longrightarrow>
         (unat self - unat earlier) * 1000000000 < (nanos_of d + 1000) * unat freq)"
proof -
  have "0 < unat freq" using assms(1) by (simp add: freq_ok_def)
  then show ?thesis
    using duration_since_nanos [OF assms] nanos_between_low nanos_between_high by metis
qed

theorem duration_since_accuracy_witness:
  "\<exists>d. duration_since 10000000 25000007 5 = ok d \<and> dur_nanos d < 1000000000
    \<and> nanos_of d * 10000000 \<le> 25000002 * 1000000000
    \<and> 25000002 * 1000000000 < (nanos_of d + 1000) * 10000000"
  using duration_since_accuracy [of 10000000 5 25000007] by (simp add: freq_ok_def)

text \<open>A timeout that has expired stays expired while the counter does not wrap.\<close>

theorem timeout_stays_expired:
  assumes "freq_ok freq" and "to_start t \<le> now" and "now \<le> later"
    and "dur_nanos (to_duration t) < 1000000000" and "expired freq now t = ok True"
  shows "expired freq later t = ok True"
proof -
  let ?n = "\<lambda>now. nanos_between (unat freq) (unat now - unat (to_start t))"
  obtain d where d: "duration_since freq now (to_start t) = ok d" "dur_nanos d < 1000000000" "nanos_of d = ?n now"
    using duration_since_nanos [OF assms(1,2)] .
  obtain e where e: "duration_since freq later (to_start t) = ok e" "dur_nanos e < 1000000000" "nanos_of e = ?n later"
    using duration_since_nanos [OF assms(1) order.trans [OF assms(2,3)]] .
  have "to_duration t \<le> d" using assms(5) d(1) by (simp add: expired_def)
  moreover have "?n now \<le> ?n later"
    using assms(1,3) by (intro nanos_between_mono) (auto simp: freq_ok_def word_le_nat_alt)
  ultimately have "to_duration t \<le> e"
    using assms(4) d(2,3) e(2,3) by (simp add: duration_le_nanos)
  then show ?thesis using e(1) by (simp add: expired_def)
qed

theorem timeout_stays_expired_witness:
  "expired 10000000 90000000 (timeout_start 5 (Duration 2 0)) = ok True"
proof (rule timeout_stays_expired)
  show "expired 10000000 30000000 (timeout_start 5 (Duration 2 0)) = ok True" by code_simp
qed (simp_all add: freq_ok_def timeout_start_def)

text \<open>Until the timer frequency was read from the device tree, measuring the time between two
  instants in order divides by zero: the rounding up of the initial frequency wraps to zero.\<close>

theorem no_duration_before_timebase:
  "checked_duration_since TIMER_SPEED_INIT self earlier =
     (if self < earlier then ok None else fail DivideByZero)"
proof -
  have "ticks_per_micro TIMER_SPEED_INIT = 0" by code_simp
  moreover have "TIMER_SPEED_INIT \<noteq> 0" by code_simp
  ultimately show ?thesis by (simp add: checked_duration_since_def checked_div_def)
qed

end
