(* ===== verification/Scheduler.thy ===== *)
theory Scheduler
  imports Task Timing
begin

text \<open>
  The kernel state that traps work on, and the functions of LSD/src/traps/task.rs that lock the
  task queue. \<open>kernel\<close> puts together the memory of \<open>Machine\<close> and the statics of the kernel:
  \<open>CURRENT_USER_TASK\<close> with the state of its lock, \<open>INPUT_AWAIT_LIST\<close>, the UART with its lock and
  everything written to it, \<open>INT_HANDLERS\<close>, the register sstatus and the deadline of the timer.

  The spin lock of \<open>CURRENT_USER_TASK\<close> is explicit: a second lock of it by its holder never
  returns. Traps run with interrupts disabled on the hart they are modelled for, so nothing else
  releases it meanwhile.

  Crates the kernel only calls are arguments, collected in the record \<open>outside\<close>: the arenas of
  \<open>vmem\<close> (named by a number, with an abstract state), the firmware's \<open>set_timer\<close>, the time
  counter, the claim register of the PLIC and the data register of the UART.
\<close>

section \<open>State\<close>

datatype rwlock = Readers nat | Writer

datatype handler = Unknown_Handler | Uart_Handler

text \<open>A byte written to the UART, or a formatted line of the kernel with its numbers.\<close>

datatype out = Byte u8 | Msg string "u64 list"

record 'v kernel =
  mach :: machine
  tasks :: task_queue
  task_lock :: rwlock
  await :: "usize list"
  sstatus :: u64
  uart_locked :: bool
  uart_base :: u64
  console :: "out list"
  arenas :: 'v
  timer_speed :: u64
  timer_at :: "u64 option"
  handlers :: "handler list"
  completed :: "nat list"

record 'v outside =
  vmem_alloc :: "nat \<Rightarrow> usize \<Rightarrow> 'v \<Rightarrow> (usize \<times> 'v) option"
  set_timer :: "u64 \<Rightarrow> string + unit"
  rdtime :: u64
  plic_claim :: "nat option"
  uart_data :: u8

section \<open>Locks and output\<close>

definition lock_read :: "'v kernel \<Rightarrow> 'v kernel result" where
  "lock_read k = (case task_lock k of Readers n \<Rightarrow> ok (k\<lparr>task_lock := Readers (Suc n)\<rparr>) | Writer \<Rightarrow> hang)"

definition unlock_read :: "'v kernel \<Rightarrow> 'v kernel" where
  "unlock_read k = (case task_lock k of Readers n \<Rightarrow> k\<lparr>task_lock := Readers (n - 1)\<rparr> | Writer \<Rightarrow> k)"

definition lock_write :: "'v kernel \<Rightarrow> 'v kernel result" where
  "lock_write k = (if task_lock k = Readers 0 then ok (k\<lparr>task_lock := Writer\<rparr>) else hang)"

definition unlock_write :: "'v kernel \<Rightarrow> 'v kernel" where
  "unlock_write k = k\<lparr>task_lock := Readers 0\<rparr>"

text \<open>\<open>print!\<close> takes the lock of the UART for one write.\<close>

definition print_out :: "out \<Rightarrow> 'v kernel \<Rightarrow> 'v kernel result" where
  "print_out x k = (if uart_locked k then hang else ok (k\<lparr>console := console k @ [x]\<rparr>))"

lemma unlock_write_simps [simp]:
  "task_lock (unlock_write k) = Readers 0" "tasks (unlock_write k) = tasks k"
  "await (unlock_write k) = await k" "mach (unlock_write k) = mach k"
  "sstatus (unlock_write k) = sstatus k"
  by (simp_all add: unlock_write_def)

section \<open>The locked operations on the queue\<close>

definition update_current :: "trap_frame \<Rightarrow> 'v kernel \<Rightarrow> 'v kernel result" where
  "update_current frame k =
     rbind (lock_write k) (\<lambda>k.
     rbind (current_task_mut (\<lambda>t. t\<lparr>trap_frame := frame\<rparr>) (tasks k)) (\<lambda>q.
     ok (unlock_write (k\<lparr>tasks := q\<rparr>))))"

definition advance_task :: "trap_frame \<Rightarrow> 'v kernel \<Rightarrow> (trap_frame \<times> 'v kernel) result" where
  "advance_task frame k =
     rbind (lock_write k) (\<lambda>k.
     rbind (current_task_mut (\<lambda>t. t\<lparr>trap_frame := frame\<rparr>) (tasks k)) (\<lambda>q.
     rbind (tq_advance q (sstatus k)) (\<lambda>(q, ss).
     rbind (current_task q) (\<lambda>new_task.
     ok (trap_frame new_task,
         unlock_write (k\<lparr>tasks := q, sstatus := ss, mach := satp_csrw (task_table new_task) (mach k)\<rparr>))))))"

definition new_task :: "task_data \<Rightarrow> 'v kernel \<Rightarrow> 'v kernel result" where
  "new_task t k = rbind (lock_write k) (\<lambda>k. ok (unlock_write (k\<lparr>tasks := tq_new_task t (tasks k)\<rparr>)))"

definition drop_task_at :: "usize \<Rightarrow> 'v kernel \<Rightarrow> 'v kernel result" where
  "drop_task_at i k =
     rbind (lock_write k) (\<lambda>k.
     rbind (drop_task i (tasks k) (sstatus k)) (\<lambda>(q, ss).
     ok (unlock_write (k\<lparr>tasks := q, sstatus := ss\<rparr>))))"

definition full_drop_task :: "usize \<Rightarrow> 'v kernel \<Rightarrow> 'v kernel result" where
  "full_drop_task = drop_task_at"

section \<open>What the operations do on a free lock\<close>

definition kernel_ok :: "'v kernel \<Rightarrow> bool" where
  "kernel_ok k \<longleftrightarrow> tq_ok (tasks k) \<and> task_lock k = Readers 0"

definition cur :: "'v kernel \<Rightarrow> nat" where
  "cur k = unat (cur_task_idx (tasks k))"

abbreviation running :: "'v kernel \<Rightarrow> task_data" where
  "running k \<equiv> queue (tasks k) ! cur k"

text \<open>The queue once the frame of the running task was saved.\<close>

definition saved :: "trap_frame \<Rightarrow> 'v kernel \<Rightarrow> task_data list" where
  "saved frame k = (queue (tasks k))[cur k := (running k)\<lparr>trap_frame := frame\<rparr>]"

lemma kernel_ok_cur [simp, dest]: "kernel_ok k \<Longrightarrow> cur k < length (queue (tasks k))"
  by (simp add: kernel_ok_def tq_ok_def cur_def)

lemma kernel_ok_lock [simp]: "kernel_ok k \<Longrightarrow> task_lock k = Readers 0"
  by (simp add: kernel_ok_def)

lemma lock_write_free [simp]: "task_lock k = Readers 0 \<Longrightarrow> lock_write k = ok (k\<lparr>task_lock := Writer\<rparr>)"
  by (simp add: lock_write_def)

lemma lock_read_free [simp]: "task_lock k = Readers n \<Longrightarrow> lock_read k = ok (k\<lparr>task_lock := Readers (Suc n)\<rparr>)"
  by (simp add: lock_read_def)

lemma lock_write_held: "task_lock k \<noteq> Readers 0 \<Longrightarrow> lock_write k = hang"
  by (simp add: lock_write_def)

lemma current_task_ok:
  "kernel_ok k \<Longrightarrow> current_task (tasks k) = ok (running k)"
  "kernel_ok k \<Longrightarrow> current_task_mut f (tasks k) =
     ok ((tasks k)\<lparr>queue := (queue (tasks k))[cur k := f (running k)]\<rparr>)"
  by (auto simp: current_task_def current_task_mut_def cur_def kernel_ok_def tq_ok_def)

lemma update_current_ok:
  assumes "kernel_ok k"
  shows "update_current frame k = ok (k\<lparr>tasks := (tasks k)\<lparr>queue := saved frame k\<rparr>\<rparr>)"
  using assms by (simp add: update_current_def current_task_ok saved_def unlock_write_def)

lemma length_saved [simp]: "length (saved frame k) = length (queue (tasks k))"
  by (simp add: saved_def)

lemma ready_saved: "ready (saved frame k ! i) = ready (queue (tasks k) ! i)"
  by (cases "cur k < length (queue (tasks k))"; cases "i = cur k") (simp_all add: saved_def list_update_beyond)

lemma next_ready_cong:
  "length q = length q' \<Longrightarrow> (\<And>i. ready (q ! i) = ready (q' ! i)) \<Longrightarrow> next_ready q c = next_ready q' c"
  by (simp add: next_ready_def)

definition next_task :: "'v kernel \<Rightarrow> nat option" where
  "next_task k = next_ready (queue (tasks k)) (cur k)"

lemma next_task_lt:
  "next_task k = Some i \<Longrightarrow> kernel_ok k \<Longrightarrow> i < length (queue (tasks k)) \<and> ready (queue (tasks k) ! i)"
  by (auto simp: next_task_def dest: next_ready_lt)

text \<open>The state after a switch to the task at \<open>i\<close>.\<close>

definition switched :: "trap_frame \<Rightarrow> nat \<Rightarrow> 'v kernel \<Rightarrow> 'v kernel" where
  "switched frame i k = k\<lparr>tasks := \<lparr>queue = saved frame k, cur_task_idx = of_nat i\<rparr>,
     mach := satp_csrw (task_table (queue (tasks k) ! i)) (mach k)\<rparr>"

lemma advance_task_ok:
  assumes "kernel_ok k"
  shows "advance_task frame k =
    (case next_task k of None \<Rightarrow> hang | Some i \<Rightarrow> ok (trap_frame (saved frame k ! i), switched frame i k))"
proof -
  let ?k = "k\<lparr>task_lock := Writer\<rparr>" and ?q = "(tasks k)\<lparr>queue := saved frame k\<rparr>"
  have q: "tq_ok ?q" using assms by (simp add: kernel_ok_def tq_ok_def)
  have n: "next_ready (saved frame k) (unat (cur_task_idx (tasks k))) = next_task k"
    unfolding next_task_def cur_def [symmetric] by (rule next_ready_cong) (simp_all add: ready_saved)
  have adv: "tq_advance ?q (sstatus k) =
      (case next_task k of None \<Rightarrow> hang | Some i \<Rightarrow> ok (?q\<lparr>cur_task_idx := of_nat i\<rparr>, sstatus k))"
    using tq_advance_outcome [OF q] n by simp
  have mut: "current_task_mut (\<lambda>t. t\<lparr>trap_frame := frame\<rparr>) (tasks k) = ok ?q"
    using assms by (simp add: current_task_ok saved_def)
  show ?thesis
  proof (cases "next_task k")
    case None
    then show ?thesis using assms adv mut by (simp add: advance_task_def)
  next
    case (Some i)
    have i: "i < length (queue (tasks k))" using next_task_lt [OF Some assms] by simp
    then have u: "unat (of_nat i :: usize) = i"
      using assms by (intro unat_of_nat_less) (simp add: kernel_ok_def tq_ok_def)
    have t: "task_table (saved frame k ! i) = task_table (queue (tasks k) ! i)"
      by (cases "i = cur k") (use assms i in \<open>auto simp: saved_def\<close>)
    have "current_task (?q\<lparr>cur_task_idx := of_nat i\<rparr>) = ok (saved frame k ! i)"
      using i u by (simp add: current_task_def)
    then show ?thesis using assms adv mut Some t
      by (simp add: advance_task_def switched_def unlock_write_def)
  qed
qed

lemma switched_simps [simp]:
  "queue (tasks (switched frame i k)) = saved frame k" "task_lock (switched frame i k) = task_lock k"
  "await (switched frame i k) = await k" "sstatus (switched frame i k) = sstatus k"
  "satp (mach (switched frame i k)) = task_table (queue (tasks k) ! i)"
  "cur_task_idx (tasks (switched frame i k)) = of_nat i"
  by (simp_all add: switched_def satp_csrw_def flush_tlb_def)

lemma switched_ok:
  assumes "kernel_ok k" "i < length (queue (tasks k))"
  shows "kernel_ok (switched frame i k)" "cur (switched frame i k) = i"
proof -
  have "unat (of_nat i :: usize) = i"
    using assms by (intro unat_of_nat_less) (simp add: kernel_ok_def tq_ok_def)
  then show "kernel_ok (switched frame i k)" "cur (switched frame i k) = i"
    using assms by (simp_all add: kernel_ok_def tq_ok_def cur_def)
qed

lemma new_task_ok:
  "task_lock k = Readers 0 \<Longrightarrow> new_task t k = ok (k\<lparr>tasks := tq_new_task t (tasks k)\<rparr>)"
  by (simp add: new_task_def unlock_write_def)

lemma drop_task_at_ok:
  "task_lock k = Readers 0 \<Longrightarrow> drop_task_at i k =
     rbind (drop_task i (tasks k) (sstatus k)) (\<lambda>(q, ss). ok (k\<lparr>tasks := q, sstatus := ss\<rparr>))"
  by (auto simp: drop_task_at_def unlock_write_def intro!: rbind_cong)

lemma drop_task_held: "task_lock k \<noteq> Readers 0 \<Longrightarrow> drop_task_at i k = hang"
  by (simp add: drop_task_at_def lock_write_held)

section \<open>What leaves the tasks alone\<close>

text \<open>The part of the state the scheduler depends on.\<close>

definition same_tasks :: "'v kernel \<Rightarrow> 'v kernel \<Rightarrow> bool" where
  "same_tasks k k' \<longleftrightarrow> tasks k' = tasks k \<and> task_lock k' = task_lock k"

lemma same_tasks_simps [simp]:
  "same_tasks k k" "same_tasks k (k'\<lparr>mach := m\<rparr>) = same_tasks k k'"
  "same_tasks k (k'\<lparr>console := c\<rparr>) = same_tasks k k'" "same_tasks k (k'\<lparr>arenas := v\<rparr>) = same_tasks k k'"
  by (simp_all add: same_tasks_def)

lemma same_tasks_trans [trans]: "same_tasks k l \<Longrightarrow> same_tasks l m \<Longrightarrow> same_tasks k m"
  by (simp add: same_tasks_def)

lemma rfold_keeps:
  assumes "rfold f xs k = ok k'" "\<And>x l m. f x l = ok m \<Longrightarrow> same_tasks l m"
  shows "same_tasks k k'"
  using rfold_invariant [OF assms(1), of "same_tasks k"] assms(2) same_tasks_trans by fastforce

end
