(* ===== verification/Bytes.thy ===== *)
theory Bytes
  imports Address_Space
begin

text \<open>
  Bytes of memory in the 8-byte cells of \<open>Machine\<close>, little endian, and copying them one by one as
  the loops \<open>*ptr.add(i) = ..\<close> of the DMA regions and of the program loader do. The locale \<open>store\<close>
  is memory as those loops use it: what was put at an address is read there, and nothing else
  changes.
\<close>

section \<open>Stores\<close>

locale store =
  fixes get :: "'s \<Rightarrow> 'a \<Rightarrow> 'v result"
    and put :: "'s \<Rightarrow> 'a \<Rightarrow> 'v \<Rightarrow> 's result"
  assumes get_put: "put s a v = ok t \<Longrightarrow> get t a = ok v"
    and get_put_other: "put s a v = ok t \<Longrightarrow> b \<noteq> a \<Longrightarrow> get t b = get s b"
begin

lemma copy_other:
  assumes "rfold (\<lambda>i s. put s (adr i) (f i)) is s = ok t" and "b \<notin> adr ` set is"
  shows "get t b = get s b"
  using assms
proof (induction "is" arbitrary: s)
  case (Cons i "is")
  from Cons.prems(1) obtain u where u: "put s (adr i) (f i) = ok u" "rfold (\<lambda>i s. put s (adr i) (f i)) is u = ok t"
    by (auto simp: rbind_eq_ok)
  from Cons.IH [OF u(2)] Cons.prems(2) get_put_other [OF u(1), of b] show ?case by simp
qed simp

lemma copy_get:
  assumes "rfold (\<lambda>i s. put s (adr i) (f i)) is s = ok t" and "inj_on adr (set is)" "distinct is" "i \<in> set is"
  shows "get t (adr i) = ok (f i)"
  using assms
proof (induction "is" arbitrary: s)
  case (Cons j "is")
  from Cons.prems(1) obtain u where u: "put s (adr j) (f j) = ok u" "rfold (\<lambda>i s. put s (adr i) (f i)) is u = ok t"
    by (auto simp: rbind_eq_ok)
  show ?case
  proof (cases "i = j")
    case True
    have "adr j \<notin> adr ` set is" using Cons.prems by auto
    from copy_other [OF u(2) this] get_put [OF u(1)] True show ?thesis by simp
  next
    case False
    with Cons u(2) show ?thesis by simp
  qed
qed simp

end

interpretation cells: store rd wr
proof
  fix s a v t assume "wr s a v = ok t"
  then have t: "t = s\<lparr>mem := (mem s)(a \<mapsto> v)\<rparr>" by (simp add: wr_def split: if_splits)
  then show "rd t a = ok v" by simp
  show "rd t b = rd s b" if "b \<noteq> a" for b using t that by (simp add: rd_def)
qed

section \<open>Bytes in cells\<close>

definition byte_cell :: "u64 \<Rightarrow> u64" where
  "byte_cell a = a AND NOT 7"

definition byte_shift :: "u64 \<Rightarrow> nat" where
  "byte_shift a = 8 * unat (a AND 7)"

definition rd_byte :: "machine \<Rightarrow> u64 \<Rightarrow> u8 result" where
  "rd_byte s a = rbind (rd s (byte_cell a)) (\<lambda>v. ok (ucast (drop_bit (byte_shift a) v)))"

definition put_byte :: "nat \<Rightarrow> u8 \<Rightarrow> u64 \<Rightarrow> u64" where
  "put_byte k b w = (w AND NOT (push_bit k 0xff)) OR push_bit k (ucast b)"

definition wr_byte :: "machine \<Rightarrow> u64 \<Rightarrow> u8 \<Rightarrow> machine result" where
  "wr_byte s a b = rbind (rd s (byte_cell a)) (\<lambda>w. wr s (byte_cell a) (put_byte (byte_shift a) b w))"

lemma byte_shift_bound: "\<exists>i < 8. byte_shift a = 8 * i"
proof -
  have "unat (a AND 7) < 8"
  proof -
    have "a AND 7 = take_bit 3 a" by (simp add: take_bit_eq_mask mask_eq_exp_minus_1)
    then have "unat (a AND 7) = take_bit 3 (unat a)" by (simp only: unsigned_take_bit_eq)
    then show ?thesis using take_bit_nat_less_exp [of 3 "unat a"] by simp
  qed
  then show ?thesis by (auto simp: byte_shift_def)
qed

lemma byte_address_split: "byte_cell a + (a AND 7) = a"
proof -
  have "byte_cell a AND (a AND 7) = 0" by (simp add: byte_cell_def ac_simps)
  then have "byte_cell a + (a AND 7) = byte_cell a OR (a AND 7)" by (rule disjunctive_add_eq_or)
  also have "\<dots> = a" unfolding byte_cell_def by (rule bit_eqI) (auto simp: bit_simps)
  finally show ?thesis .
qed

lemma byte_address_inj:
  assumes "byte_cell a = byte_cell b" "byte_shift a = byte_shift b"
  shows "a = b"
proof -
  have "unat (a AND 7) = unat (b AND 7)" using assms(2) by (simp add: byte_shift_def)
  then have "a AND 7 = b AND 7" by (rule unsigned_word_eqI)
  then show ?thesis by (metis byte_address_split assms(1))
qed

lemma bit_put_byte:
  "bit (put_byte k b w) n \<longleftrightarrow> n < 64 \<and> (if k \<le> n \<and> n < k + 8 then bit b (n - k) else bit w n)"
proof -
  have "put_byte k b w = (w AND NOT (push_bit k (mask 8))) OR push_bit k (ucast b)"
    by (simp add: put_byte_def mask_eq_exp_minus_1)
  moreover have "\<not> bit b (n - k)" if "\<not> n < k + 8" "k \<le> n" using that bit_imp_le_length [of b "n - k"] by auto
  moreover have "\<not> bit w n" if "\<not> n < 64" using that bit_imp_le_length [of w n] by auto
  ultimately show ?thesis by (auto simp: bit_simps)
qed

lemma get_put_byte: "k \<le> 56 \<Longrightarrow> ucast (drop_bit k (put_byte k b w)) = b"
  by (rule bit_eqI) (auto simp: bit_simps bit_put_byte)

lemma get_put_byte_other:
  assumes "i < 8" "j < 8" "i \<noteq> j"
  shows "(ucast (drop_bit (8 * i) (put_byte (8 * j) b w)) :: u8) = ucast (drop_bit (8 * i) w)"
proof (rule bit_eqI)
  fix n assume "possible_bit TYPE(u8) n"
  then have n: "n < 8" by simp
  then have "8 * i + n < 64" "\<not> (8 * j \<le> 8 * i + n \<and> 8 * i + n < 8 * j + 8)" using assms by auto
  with n show "bit (ucast (drop_bit (8 * i) (put_byte (8 * j) b w)) :: u8) n = bit (ucast (drop_bit (8 * i) w) :: u8) n"
    by (auto simp: bit_simps bit_put_byte)
qed

interpretation bytes: store rd_byte wr_byte
proof
  fix s a v t assume "wr_byte s a v = ok t"
  then obtain w where w: "rd s (byte_cell a) = ok w" "wr s (byte_cell a) (put_byte (byte_shift a) v w) = ok t"
    by (auto simp: wr_byte_def rbind_eq_ok)
  obtain i where i: "i < 8" "byte_shift a = 8 * i" using byte_shift_bound by blast
  show "rd_byte t a = ok v"
    using cells.get_put [OF w(2)] i by (simp add: rd_byte_def get_put_byte)
  show "rd_byte t b = rd_byte s b" if "b \<noteq> a" for b
  proof (cases "byte_cell b = byte_cell a")
    case True
    obtain j where j: "j < 8" "byte_shift b = 8 * j" using byte_shift_bound by blast
    have "i \<noteq> j" using byte_address_inj [of b a] True that i j by auto
    then show ?thesis using cells.get_put [OF w(2)] w(1) True i j
      by (simp add: rd_byte_def get_put_byte_other)
  next
    case False
    then show ?thesis using cells.get_put_other [OF w(2)] by (simp add: rd_byte_def)
  qed
qed

section \<open>Bytes of pages\<close>

lemma unat_byte_cell: "unat (byte_cell a) = unat a div 8 * 8"
proof -
  have "byte_cell a = a AND NOT (mask 3)" by (simp add: byte_cell_def mask_eq_exp_minus_1)
  also have "\<dots> = push_bit 3 (drop_bit 3 a)" by (rule bit_word_eqI) (auto simp: bit_simps)
  finally have "unat (byte_cell a) = unat a div 8 * 8 mod 2 ^ 64"
    by (simp add: push_bit_eq_mult unat_word_ariths unat_drop_bit_eq drop_bit_eq_div mod_mult_left_eq)
  moreover have "unat a < 2 ^ 64" using unsigned_less [of a] by simp
  then have "unat a div 8 * 8 < 2 ^ 64" using div_times_less_eq_dividend [of "unat a" 8] by (rule le_less_trans [rotated])
  ultimately show ?thesis by simp
qed

lemma byte_in_page:
  assumes "page_aligned p" "j < 4096"
  shows "byte_cell (p + of_nat j) = slot p (j div 8)"
proof -
  obtain k where k: "unat p = 4096 * k" using assms(1) by (auto simp: page_aligned_mod)
  have "unat (p + of_nat j) = unat p + j"
    using page_room [OF assms(1)] assms(2) by (simp add: unat_word_ariths unat_of_nat)
  then have "unat (byte_cell (p + of_nat j)) = (4096 * k + j) div 8 * 8" by (simp add: unat_byte_cell k)
  also have "\<dots> = 4096 * k + 8 * (j div 8)"
    using div_mult_self1 [of 8 j "512 * k"] by (simp add: algebra_simps)
  also have "\<dots> = unat (slot p (j div 8))" using assms(2) by (simp add: unat_slot [OF assms(1)] k)
  finally show ?thesis by (rule unsigned_word_eqI)
qed

definition same_free :: "machine \<Rightarrow> machine \<Rightarrow> bool" where
  "same_free s t \<longleftrightarrow> fl_head t = fl_head s \<and> fl_tail t = fl_tail s \<and> fl_len t = fl_len s"

lemma wr_byte_page:
  assumes "frame_ok s x" "j < 4096"
  shows "\<exists>t. wr_byte s (x + of_nat j) v = ok t \<and> changes_only {x} s t \<and> same_free s t"
proof -
  have a: "page_aligned x" and m: "page_mapped (mem s) x" using assms(1) by (simp_all add: frame_ok_def)
  obtain w where w: "mem s (slot x (j div 8)) = Some w" using page_mappedD [OF m, of "j div 8"] assms(2)
    by (auto simp: less_mult_imp_div_less)
  then have "wr_byte s (x + of_nat j) v = ok (s\<lparr>mem := (mem s)(slot x (j div 8) \<mapsto> put_byte (byte_shift (x + of_nat j)) v w)\<rparr>)"
    by (simp add: wr_byte_def byte_in_page [OF a assms(2)])
  then show ?thesis using changes_only_set_cell [OF assms(1), of "j div 8"] assms(2) by (simp add: same_free_def)
qed

text \<open>A loop of byte writes inside a run of frames.\<close>

lemma run_byte:
  fixes x :: u64
  assumes "i < 4096 * n"
  shows "x + of_nat i = (x + 0x1000 * of_nat (i div 4096)) + of_nat (i mod 4096)" "i div 4096 < n" "i mod 4096 < 4096"
proof -
  have "(of_nat i :: u64) = of_nat (4096 * (i div 4096) + i mod 4096)" by simp
  then show "x + of_nat i = (x + 0x1000 * of_nat (i div 4096)) + of_nat (i mod 4096)"
    by (simp only: of_nat_add of_nat_mult) simp
  show "i div 4096 < n" "i mod 4096 < 4096" using assms by (simp_all add: less_mult_imp_div_less mult.commute)
qed

lemma copy_run:
  assumes "\<And>k. k < n \<Longrightarrow> frame_ok s (x + 0x1000 * of_nat k)" and "\<And>i. i \<in> set is \<Longrightarrow> i < 4096 * n"
  shows "\<exists>t. rfold (\<lambda>i s. wr_byte s (x + of_nat i) (f i)) is s = ok t
    \<and> changes_only ((\<lambda>k. x + 0x1000 * of_nat k) ` {..<n}) s t \<and> same_free s t"
  using assms
proof (induction "is" arbitrary: s)
  case Nil
  then show ?case by (simp add: same_free_def)
next
  case (Cons i "is")
  let ?p = "\<lambda>k. x + 0x1000 * of_nat k"
  note i = Cons.prems(2) [OF list.set_intros(1)]
  note b = run_byte(1) [OF i, of x] run_byte(2,3) [OF i]
  obtain u where u: "wr_byte s (x + of_nat i) (f i) = ok u" "changes_only {?p (i div 4096)} s u" "same_free s u"
    unfolding b(1) using wr_byte_page [OF Cons.prems(1) [OF b(2)] b(3)] by blast
  have ok': "\<And>k. k < n \<Longrightarrow> frame_ok u (?p k)" using Cons.prems(1) changes_only_frame_ok [OF u(2)] by blast
  obtain t where t: "rfold (\<lambda>i s. wr_byte s (x + of_nat i) (f i)) is u = ok t"
    "changes_only (?p ` {..<n}) u t" "same_free u t"
    using Cons.IH [OF ok'] Cons.prems(2) by auto
  have "changes_only (?p ` {..<n}) s t"
    using changes_only_step [OF u(2) t(2)] b(2) by auto
  then show ?case using u t by (auto simp: same_free_def)
qed

end
