(* ===== verification/Syscalls.thy ===== *)
theory Syscalls
  imports Scheduler Bytes
begin

text \<open>
  The system calls, LSD/src/arch/riscv/syscalls.rs, and the UART interrupt handler of
  LSD/src/uart.rs that ends a wait for input. A call reads its numbers from a0 and a1 and its
  arguments from a2 and a3 of the trap frame, and returns the frame that the trap shim restores.
  A pointer is an address, and bytes are read from the 8-byte cells of \<open>Machine\<close>.
\<close>

section \<open>Input and output\<close>

text \<open>\<open>for i in 0..len { print!("{}", *ptr.add(i) as char) }\<close>: the UART gets the low byte of each
  char, which is the byte itself.\<close>

definition print_bytes :: "u64 \<Rightarrow> nat \<Rightarrow> 'v kernel \<Rightarrow> 'v kernel result" where
  "print_bytes ptr len = rfold (\<lambda>i k.
     rbind (rd_byte (mach k) (ptr + of_nat i)) (\<lambda>b. print_out (Byte b) k)) [0..<len]"

definition kernel_io :: "trap_frame \<Rightarrow> 'v kernel \<Rightarrow> (trap_frame \<times> 'v kernel) result" where
  "kernel_io frame k =
     (if regs frame reg_a1 = 1 then
        rbind (virt_to_phys (mach k) (regs frame reg_a2)) (\<lambda>r.
        rbind (unwrap_res r) (\<lambda>phys.
        rbind (print_bytes (pa_as_ptr (mach k) phys) (unat (regs frame reg_a3)) k) (\<lambda>k.
        ok (frame, k))))
      else if regs frame reg_a1 = 2 then
        rbind (lock_read k) (\<lambda>k.
        rbind (current_task (tasks k)) (\<lambda>t.
        let k = unlock_read (k\<lparr>await := await k @ [task_id t]\<rparr>) in
        rbind (lock_write k) (\<lambda>k.
        rbind (current_task_mut (\<lambda>t. t\<lparr>waiting_on := CharIn\<rparr>) (tasks k)) (\<lambda>q.
        advance_task frame (unlock_write (k\<lparr>tasks := q\<rparr>))))))
      else fail (Panic ''Unrecognized io subcall''))"

section \<open>Tasks\<close>

definition div_ceil :: "usize \<Rightarrow> usize \<Rightarrow> usize" where
  "div_ceil a b = (if 0 < a mod b then a div b + 1 else a div b)"

text \<open>\<open>(start..end).step_by(0x1000)\<close>\<close>

definition step_pages :: "u64 \<Rightarrow> u64 \<Rightarrow> u64 list" where
  "step_pages start end =
     (if start < end then map (\<lambda>i. start + 0x1000 * of_nat i) [0..<(unat (end - start) + 0xfff) div 0x1000]
      else [])"

text \<open>\<open>claims.next().unwrap()\<close> for the page with number \<open>i\<close>: the lazy iterator ends after \<open>frames\<close>.\<close>

definition next_claim :: "usize \<Rightarrow> nat \<Rightarrow> 'v kernel \<Rightarrow> (u64 \<times> 'v kernel) result" where
  "next_claim frames i k =
     (if i < unat frames then
        rbind (fl_claim (mach k)) (\<lambda>(p, s). ok (p - hhdm s, k\<lparr>mach := s\<rparr>))
      else fail UnwrapNone)"

definition heap_flags :: u64 where
  "heap_flags = flag_READ OR flag_WRITE OR flag_USER"

definition extend_page :: "u64 \<Rightarrow> usize \<Rightarrow> nat \<times> u64 \<Rightarrow> 'v kernel \<Rightarrow> 'v kernel result" where
  "extend_page table frames = (\<lambda>(i, vaddr) k.
     rbind (print_out (Msg ''Test with vaddr'' [vaddr]) k) (\<lambda>k.
     rbind (next_claim frames i k) (\<lambda>(paddr, k).
     rbind (print_out (Msg ''Test with vaddr'' [vaddr]) k) (\<lambda>k.
     let level = load_level (mach k) in
     rbind (print_out (Msg ''Test with vaddr'' [vaddr]) k) (\<lambda>k.
     rbind (vmm_map (mach k) table vaddr paddr level Level1 heap_flags) (\<lambda>s.
     print_out (Msg ''Test with vaddr'' [vaddr]) (k\<lparr>mach := flush_tlb None None s\<rparr>)))))))"

definition extend_heap :: "'v outside \<Rightarrow> trap_frame \<Rightarrow> 'v kernel \<Rightarrow> (trap_frame \<times> 'v kernel) result" where
  "extend_heap e frame k =
     (let bytes = regs frame reg_a2; frames = div_ceil bytes 0x1000 in
      rbind (lock_read k) (\<lambda>k.
      rbind (current_task (tasks k)) (\<lambda>cur_task.
      rbind (unwrap_opt (vmem_alloc e (task_vmm cur_task) (frames * 0x1000) (arenas k))) (\<lambda>(vaddr, v).
      let k = k\<lparr>arenas := v\<rparr>;
          frame = set_reg reg_a0 vaddr frame;
          vaddrs = step_pages vaddr (vaddr + frames * 0x1000);
          table = push_bit 12 (satp_get_ppn (task_table cur_task)) in
      rbind (print_out (Msg ''extending heap on current task'' []) k) (\<lambda>k.
      rbind (rfold (extend_page table frames) (enumerate 0 vaddrs) k) (\<lambda>k.
      rbind (print_out (Msg ''extending heap on current task'' []) k) (\<lambda>k.
      ok (frame, unlock_read k))))))))"

definition spawn_thread :: "'v outside \<Rightarrow> trap_frame \<Rightarrow> 'v kernel \<Rightarrow> (trap_frame \<times> 'v kernel) result" where
  "spawn_thread e frame k =
     rbind (update_current frame k) (\<lambda>k.
     rbind (lock_write k) (\<lambda>k.
     rbind (current_task (tasks k)) (\<lambda>cur_task.
     let frame = set_reg reg_a0 0 frame in
     rbind (unwrap_opt (vmem_alloc e (thread_manager cur_task) 1 (arenas k))) (\<lambda>(tid, v).
     let clone = cur_task\<lparr>thread_id := tid,
           trap_frame := set_reg reg_a1 tid (set_reg reg_a0 (task_id cur_task) (trap_frame cur_task))\<rparr> in
     rbind (new_task clone (unlock_write (k\<lparr>arenas := v\<rparr>))) (\<lambda>k.
     ok (frame, k))))))"

definition drop_thread :: "trap_frame \<Rightarrow> 'v kernel \<Rightarrow> (trap_frame \<times> 'v kernel) result" where
  "drop_thread frame k =
     rbind (lock_read k) (\<lambda>k.
     let index = cur_task_idx (tasks k) in
     rbind (advance_task frame (unlock_read k)) (\<lambda>(frame, k).
     rbind (drop_task_at index k) (\<lambda>k. ok (frame, k))))"

definition end_program :: "trap_frame \<Rightarrow> 'v kernel \<Rightarrow> (trap_frame \<times> 'v kernel) result" where
  "end_program frame k =
     rbind (lock_read k) (\<lambda>k.
     rbind (current_task (tasks k)) (\<lambda>current.
     let ident = task_id current in
     rbind (advance_task frame (unlock_read k)) (\<lambda>(frame, k).
     rbind (lock_write k) (\<lambda>k.
     rbind (rfold (\<lambda>(index, entry) k.
              if task_id entry = ident then
                if thread_id entry = 0 then full_drop_task (of_nat index) k
                else drop_task_at (of_nat index) k
              else ok k) (enumerate 0 (rev (queue (tasks k)))) k) (\<lambda>k.
     ok (frame, unlock_write k))))))"

definition kernel_task :: "'v outside \<Rightarrow> trap_frame \<Rightarrow> 'v kernel \<Rightarrow> (trap_frame \<times> 'v kernel) result" where
  "kernel_task e frame k =
     (let call = regs frame reg_a1 in
      if call = 0 then advance_task frame k
      else if call = 1 then extend_heap e frame k
      else if call = 2 then spawn_thread e frame k
      else if call = 3 then drop_thread frame k
      else if call = 4 then end_program frame k
      else fail (Panic ''Unrecognized task subcall''))"

definition syscall_core :: "'v outside \<Rightarrow> trap_frame \<Rightarrow> 'v kernel \<Rightarrow> (trap_frame \<times> 'v kernel) result" where
  "syscall_core e frame k =
     (if regs frame reg_a0 = 0 then kernel_io frame k
      else if regs frame reg_a0 = 1 then kernel_task e frame k
      else fail (Panic ''Unrecognized syscall root''))"

section \<open>The UART interrupt\<close>

text \<open>What happens to the first task that has an id of the waiting list.\<close>

definition take_char :: "u8 \<Rightarrow> task_data \<Rightarrow> task_data" where
  "take_char input t =
     (if waiting_on t = CharIn
      then t\<lparr>trap_frame := set_reg reg_a0 (ucast input) (trap_frame t), waiting_on := WaitNone\<rparr>
      else t)"

definition wake_entry :: "u8 \<Rightarrow> usize \<Rightarrow> 'v kernel \<Rightarrow> 'v kernel result" where
  "wake_entry input entry_id k =
     rbind (lock_write k) (\<lambda>k.
     rbind (unwrap_opt (find_task_mut entry_id (take_char input) (tasks k))) (\<lambda>q.
     ok (unlock_write (k\<lparr>tasks := q\<rparr>))))"

definition uart_handler :: "'v outside \<Rightarrow> 'v kernel \<Rightarrow> 'v kernel result" where
  "uart_handler e k =
     (if uart_locked k then hang
      else rbind (rfold (wake_entry (uart_data e)) (await k) k) (\<lambda>k. ok (k\<lparr>await := []\<rparr>)))"

section \<open>Lemmas\<close>

lemma unlock_read_locked [simp]: "unlock_read (k\<lparr>task_lock := Readers (Suc n)\<rparr>) = k\<lparr>task_lock := Readers n\<rparr>"
  by (simp add: unlock_read_def)

lemma kernel_same_lock: "task_lock k = l \<Longrightarrow> k\<lparr>task_lock := l\<rparr> = k"
  by simp

lemma kernel_io_wait:
  assumes "kernel_ok k" "regs frame reg_a1 = 2"
  shows "kernel_io frame k = advance_task frame (k\<lparr>await := await k @ [task_id (running k)],
    tasks := (tasks k)\<lparr>queue := (queue (tasks k))[cur k := (running k)\<lparr>waiting_on := CharIn\<rparr>]\<rparr>\<rparr>)"
proof -
  have l: "task_lock k = Readers 0" using assms(1) by simp
  let ?k = "k\<lparr>await := await k @ [task_id (running k)],
    tasks := (tasks k)\<lparr>queue := (queue (tasks k))[cur k := (running k)\<lparr>waiting_on := CharIn\<rparr>]\<rparr>\<rparr>"
  have e: "?k\<lparr>task_lock := Readers 0\<rparr> = ?k" using l by (intro kernel_same_lock) simp
  show ?thesis using l assms(2) current_task_ok [OF assms(1)]
    by (simp add: kernel_io_def unlock_read_def unlock_write_def Let_def e)
qed

lemma drop_thread_ok:
  assumes "kernel_ok k"
  shows "drop_thread frame k =
    (case next_task k of None \<Rightarrow> hang
     | Some i \<Rightarrow> rbind (drop_task (cur_task_idx (tasks k)) (tasks (switched frame i k)) (sstatus k)) (\<lambda>(q, ss).
         ok (trap_frame (saved frame k ! i), (switched frame i k)\<lparr>tasks := q, sstatus := ss\<rparr>)))"
proof -
  have l: "k\<lparr>task_lock := Readers 0\<rparr> = k" using assms by (intro kernel_same_lock) simp
  show ?thesis
    using assms by (cases "next_task k")
      (auto simp: drop_thread_def advance_task_ok Let_def l drop_task_at_ok intro!: rbind_cong)
qed

text \<open>The loop of \<open>end_program\<close> with the lock held, over a queue that has a task with the id.\<close>

lemma end_loop_hangs:
  assumes "ident \<in> task_id ` snd ` set xs" and "task_lock k = Writer"
  shows "rfold (\<lambda>(index, entry) k. if task_id entry = ident then
      if thread_id entry = 0 then full_drop_task (of_nat index) k else drop_task_at (of_nat index) k
    else ok k) xs k = hang"
  using assms
proof (induction xs)
  case (Cons x xs)
  obtain i t where x: "x = (i, t)" by (cases x)
  show ?case
  proof (cases "task_id t = ident")
    case True
    then show ?thesis using Cons.prems(2) by (simp add: x full_drop_task_def drop_task_held)
  next
    case False
    then have "ident \<in> task_id ` snd ` set xs" using Cons.prems(1) by (auto simp: x)
    from Cons.IH [OF this Cons.prems(2)] show ?thesis using False by (simp add: x)
  qed
qed simp

section \<open>Printing\<close>

lemma print_bytes_ok:
  assumes "\<not> uart_locked k" and "\<And>i. i < n \<Longrightarrow> rd_byte (mach k) (ptr + of_nat i) = ok (b i)"
  shows "print_bytes ptr n k = ok (k\<lparr>console := console k @ map (\<lambda>i. Byte (b i)) [0..<n]\<rparr>)"
  using assms(2)
proof (induction n)
  case 0
  then show ?case by (simp add: print_bytes_def)
next
  case (Suc n)
  then show ?case using assms(1) by (simp add: print_bytes_def rfold_append print_out_def)
qed

section \<open>Waking tasks\<close>

definition first_at :: "('a \<Rightarrow> bool) \<Rightarrow> 'a list \<Rightarrow> nat \<Rightarrow> bool" where
  "first_at P xs j \<longleftrightarrow> j < length xs \<and> P (xs ! j) \<and> (\<forall>l < j. \<not> P (xs ! l))"

lemma first_at_Cons: "first_at P (x # xs) j \<longleftrightarrow> (if P x then j = 0 else (\<exists>i. j = Suc i \<and> first_at P xs i))"
  by (cases j) (auto simp: first_at_def All_less_Suc2)

lemma update_first_None: "update_first P f xs = None \<longleftrightarrow> (\<forall>x \<in> set xs. \<not> P x)"
  by (induction xs) auto

lemma update_first_Some:
  "update_first P f xs = Some ys \<Longrightarrow>
    length ys = length xs \<and> (\<forall>j < length xs. ys ! j = (if first_at P xs j then f (xs ! j) else xs ! j))"
proof (induction xs arbitrary: ys)
  case (Cons x xs)
  show ?case
  proof (cases "P x")
    case True
    then show ?thesis using Cons.prems by (auto simp: first_at_Cons nth_Cons')
  next
    case False
    then obtain zs where zs: "update_first P f xs = Some zs" "ys = x # zs" using Cons.prems by auto
    show ?thesis using Cons.IH [OF zs(1)] False zs(2) by (auto simp: first_at_Cons nth_Cons split: nat.split)
  qed
qed simp

lemma first_at_cong:
  assumes "length ys = length xs" "\<And>j. j < length xs \<Longrightarrow> P (ys ! j) = P (xs ! j)"
  shows "first_at P ys j = first_at P xs j"
  using assms by (auto simp: first_at_def)

lemma take_char_simps [simp]:
  "task_id (take_char b t) = task_id t" "take_char b (take_char b t) = take_char b t"
  by (simp_all add: take_char_def)

definition woken :: "u8 \<Rightarrow> usize set \<Rightarrow> task_data list \<Rightarrow> task_data list \<Rightarrow> bool" where
  "woken b ids q q' \<longleftrightarrow> length q' = length q \<and>
     (\<forall>j < length q. q' ! j = (if \<exists>i \<in> ids. first_at (\<lambda>t. task_id t = i) q j then take_char b (q ! j) else q ! j))"

lemma woken_ids: "woken b ids q q' \<Longrightarrow> j < length q \<Longrightarrow> task_id (q' ! j) = task_id (q ! j)"
  by (simp add: woken_def)

lemma woken_step:
  assumes w: "woken b ids q q'" and u: "update_first (\<lambda>t. task_id t = i) (take_char b) q' = Some r"
  shows "woken b (insert i ids) q r"
proof -
  have l: "length q' = length q" using w by (simp add: woken_def)
  have f: "first_at (\<lambda>t. task_id t = i) q' j = first_at (\<lambda>t. task_id t = i) q j" for j
    by (rule first_at_cong [OF l]) (simp add: woken_ids [OF w])
  have r: "length r = length q" "\<And>j. j < length q \<Longrightarrow>
      r ! j = (if first_at (\<lambda>t. task_id t = i) q j then take_char b (q' ! j) else q' ! j)"
    using update_first_Some [OF u] l f by auto
  show ?thesis using r w by (auto simp: woken_def)
qed

lemma wake_all:
  assumes "task_lock k = Readers 0" "woken b ids q (queue (tasks k))"
    and "\<forall>i \<in> set xs. \<exists>t \<in> set q. task_id t = i"
  shows "\<exists>r. rfold (wake_entry b) xs k = ok (k\<lparr>tasks := (tasks k)\<lparr>queue := r\<rparr>\<rparr>)
    \<and> woken b (ids \<union> set xs) q r"
  using assms
proof (induction xs arbitrary: k ids)
  case Nil
  then show ?case by (intro exI [of _ "queue (tasks k)"]) simp
next
  case (Cons x xs)
  obtain t where "t \<in> set q" "task_id t = x" using Cons.prems(3) by auto
  then obtain j where j: "j < length q" "task_id (q ! j) = x" by (metis in_set_conv_nth)
  have l: "length (queue (tasks k)) = length q" using Cons.prems(2) by (simp add: woken_def)
  have "task_id (queue (tasks k) ! j) = x" using woken_ids [OF Cons.prems(2) j(1)] j(2) by simp
  then have "update_first (\<lambda>t. task_id t = x) (take_char b) (queue (tasks k)) \<noteq> None"
    unfolding update_first_None using j(1) l nth_mem by fastforce
  then obtain r where r: "update_first (\<lambda>t. task_id t = x) (take_char b) (queue (tasks k)) = Some r" by auto
  let ?k = "k\<lparr>tasks := (tasks k)\<lparr>queue := r\<rparr>\<rparr>"
  have w: "woken b (insert x ids) q (queue (tasks ?k))" using woken_step [OF Cons.prems(2) r] by simp
  obtain r' where r': "rfold (wake_entry b) xs ?k = ok (?k\<lparr>tasks := (tasks ?k)\<lparr>queue := r'\<rparr>\<rparr>)"
      "woken b (insert x ids \<union> set xs) q r'"
    using Cons.IH [OF _ w] Cons.prems by auto
  have "wake_entry b x k = ok ?k"
    using Cons.prems(1) r by (simp add: wake_entry_def find_task_mut_def unlock_write_def)
  then show ?case using r' by (intro exI [of _ r']) simp
qed

lemma wake_absent:
  assumes "task_lock k = Readers 0" "\<exists>i \<in> set xs. \<forall>t \<in> set (queue (tasks k)). task_id t \<noteq> i"
  shows "rfold (wake_entry b) xs k = fail UnwrapNone"
  using assms
proof (induction xs arbitrary: k)
  case (Cons x xs)
  show ?case
  proof (cases "update_first (\<lambda>t. task_id t = x) (take_char b) (queue (tasks k))")
    case None
    then show ?thesis using Cons.prems(1) by (simp add: wake_entry_def find_task_mut_def)
  next
    case (Some r)
    let ?k = "k\<lparr>tasks := (tasks k)\<lparr>queue := r\<rparr>\<rparr>"
    have r: "length r = length (queue (tasks k))"
        "\<And>j. j < length r \<Longrightarrow> task_id (r ! j) = task_id (queue (tasks k) ! j)"
      using update_first_Some [OF Some] by auto
    then have "map task_id r = map task_id (queue (tasks k))" by (intro nth_equalityI) simp_all
    from arg_cong [OF this, of set] have ids: "task_id ` set r = task_id ` set (queue (tasks k))" by simp
    have "\<not> (\<forall>t \<in> set (queue (tasks k)). task_id t \<noteq> x)"
    proof
      assume "\<forall>t \<in> set (queue (tasks k)). task_id t \<noteq> x"
      then have "update_first (\<lambda>t. task_id t = x) (take_char b) (queue (tasks k)) = None"
        by (subst update_first_None)
      with Some show False by simp
    qed
    then obtain i where i: "i \<in> set xs" "i \<notin> task_id ` set (queue (tasks k))" using Cons.prems(2) by auto
    have "i \<notin> task_id ` set r" using i(2) unfolding ids .
    then have "\<exists>i \<in> set xs. \<forall>t \<in> set (queue (tasks ?k)). task_id t \<noteq> i" using i(1) by (intro bexI [of _ i]) auto
    then have "rfold (wake_entry b) xs ?k = fail UnwrapNone" using Cons.IH [of ?k] Cons.prems(1) by simp
    moreover have "wake_entry b x k = ok ?k"
      using Cons.prems(1) Some by (simp add: wake_entry_def find_task_mut_def unlock_write_def)
    ultimately show ?thesis by simp
  qed
qed simp

lemma uart_handler_wakes:
  assumes "task_lock k = Readers 0" "\<not> uart_locked k"
    and "\<forall>i \<in> set (await k). \<exists>t \<in> set (queue (tasks k)). task_id t = i"
  obtains r where "uart_handler e k = ok (k\<lparr>tasks := (tasks k)\<lparr>queue := r\<rparr>, await := []\<rparr>)"
    "woken (uart_data e) (set (await k)) (queue (tasks k)) r"
proof -
  have "woken (uart_data e) {} (queue (tasks k)) (queue (tasks k))" by (simp add: woken_def)
  from wake_all [OF assms(1) this assms(3)] show ?thesis using that assms(2) by (auto simp: uart_handler_def)
qed

lemma end_program_hangs:
  assumes "kernel_ok k" and "regs frame reg_a1 = 4"
  shows "kernel_task e frame k = hang"
proof -
  have k: "k\<lparr>task_lock := Readers 0\<rparr> = k" using assms(1) by (intro kernel_same_lock) simp
  show ?thesis
  proof (cases "next_task k")
    case None
    then show ?thesis using assms
      by (simp add: kernel_task_def end_program_def advance_task_ok current_task_ok k)
  next
    case (Some i)
    let ?q = "saved frame k"
    have "snd ` set (enumerate 0 (rev ?q)) = set (map snd (enumerate 0 (rev ?q)))" by (rule set_map [symmetric])
    then have "snd ` set (enumerate 0 (rev ?q)) = set ?q" by simp
    moreover have "?q ! cur k \<in> set ?q" using assms(1) by simp
    moreover have "task_id (?q ! cur k) = task_id (running k)" using assms(1) by (simp add: saved_def)
    ultimately have "task_id (running k) \<in> task_id ` snd ` set (enumerate 0 (rev ?q))"
      by (metis image_eqI)
    then show ?thesis using assms Some
      by (simp add: kernel_task_def end_program_def advance_task_ok current_task_ok k end_loop_hangs)
  qed
qed

section \<open>Extending the heap\<close>

lemma read_table_unmapped: "mem s t = None \<Longrightarrow> read_table s t = fail (PageFault t)"
  unfolding read_table_def upt_conv_Cons [of 0 512, OF zero_less_numeral] rmap.simps
  by (simp only: slot_0 rd_None rbind_simps of_nat_0)

lemma vmm_map_unmapped:
  assumes "mem s t = None"
  shows "vmm_map s t v p l k f = fail (PageFault t)"
proof -
  note r = read_table_unmapped [OF assms]
  show ?thesis unfolding vmm_map.simps [of s t v p l k f] Let_def r by simp
qed

lemma step_pages_head:
  fixes v sz :: u64
  assumes "v < v + sz"
  shows "\<exists>vs. enumerate 0 (step_pages v (v + sz)) = (0, v) # vs"
proof -
  have "0 < unat sz" using assms by (cases "sz = 0") (auto simp: unat_gt_0)
  then have "0 < (unat sz + 0xfff) div 0x1000" by simp
  then have "\<exists>m. (unat sz + 0xfff) div 0x1000 = Suc m" by (cases "(unat sz + 0xfff) div 0x1000") auto
  then obtain m where "(unat sz + 0xfff) div 0x1000 = Suc m" ..
  then show ?thesis using assms by (simp add: step_pages_def upt_rec [of 0])
qed

lemma extend_page_unmapped:
  assumes "\<not> uart_locked k" "0 < unat frames" "fl_inv (mach k) (x # y # ys)" "mem (mach k) t = None"
  shows "extend_page t frames (0, v) k = fail (PageFault t)"
proof -
  obtain s where s: "fl_claim (mach k) = ok (x, s)" "changes_only {y} (mach k) s"
    using fl_claim_inv [OF assms(3)] by blast
  have "dom (mem s) = dom (mem (mach k))" using s(2) by (simp add: changes_only_def mem_only_def)
  then have "mem s t = None" using assms(4) by (metis domIff)
  then show ?thesis
    using assms(1,2) s(1) by (simp add: extend_page_def next_claim_def print_out_def vmm_map_unmapped)
qed

lemma extend_heap_unmapped:
  fixes k :: "'v kernel" and frame :: trap_frame
  defines "sz \<equiv> div_ceil (regs frame reg_a2) 0x1000 * 0x1000"
    and "root \<equiv> push_bit 12 (satp_get_ppn (task_table (running k)))"
  assumes k: "kernel_ok k" "\<not> uart_locked k"
    and v: "vmem_alloc e (task_vmm (running k)) sz (arenas k) = Some (v, a)" "v < v + sz"
    and fl: "fl_inv (mach k) (x # y # ys)" and m: "mem (mach k) root = None"
  shows "extend_heap e frame k = fail (PageFault root)"
proof -
  let ?f = "div_ceil (regs frame reg_a2) 0x1000"
  have f: "0 < unat ?f" using v(2) by (cases "?f = 0") (auto simp: sz_def unat_gt_0)
  obtain vs where vs: "enumerate 0 (step_pages v (v + sz)) = (0, v) # vs"
    using step_pages_head [OF v(2)] by blast
  let ?k = "k\<lparr>task_lock := Readers 1, arenas := a, console := console k @ [Msg ''extending heap on current task'' []]\<rparr>"
  have "extend_page root ?f (0, v) ?k = fail (PageFault root)"
    by (rule extend_page_unmapped) (use k f fl m in simp_all)
  then show ?thesis
    using k v(1) vs current_task_ok(1) [OF k(1)]
    by (simp add: extend_heap_def Let_def print_out_def sz_def root_def)
qed

end
