(* ===== verification/Traps.thy ===== *)
theory Traps
  imports Syscalls
begin

text \<open>
  Trap causes and the trap handler, LSD/src/traps/mod.rs, with the dispatch of external interrupts
  of LSD/src/traps/plic.rs. \<open>trap_handler\<close> gets the saved frame and the cause and returns the frame
  that the shim restores. A trap it does not handle is printed and the hart pauses for ever: the
  call does not return.
\<close>

section \<open>Causes\<close>

datatype trap =
    UserSoftwareInterrupt | SupervisorSoftwareInterrupt | MachineSoftwareInterrupt
  | UserTimerInterrupt | SupervisorTimerInterrupt | MachineTimerInterrupt
  | UserExternalInterrupt | SupervisorExternalInterrupt | MachineExternalInterrupt
  | InstructionAddressMisaligned | InstructionAccessFault | IllegalInstruction | Breakpoint
  | LoadAddressMisaligned | LoadAccessFault | StoreAddressMisaligned | StoreAccessFault
  | UserModeEnvironmentCall | SupervisorModeEnvironmentCall | MachineModeEnvironmentCall
  | InstructionPageFault | LoadPageFault | StorePageFault | Reserved

definition INTERRUPT_BIT :: usize where
  "INTERRUPT_BIT = push_bit 63 1"

text \<open>The discriminants of the enum.\<close>

fun trap_code :: "trap \<Rightarrow> usize" where
  "trap_code UserSoftwareInterrupt = INTERRUPT_BIT OR 0"
| "trap_code SupervisorSoftwareInterrupt = INTERRUPT_BIT OR 1"
| "trap_code MachineSoftwareInterrupt = INTERRUPT_BIT OR 3"
| "trap_code UserTimerInterrupt = INTERRUPT_BIT OR 4"
| "trap_code SupervisorTimerInterrupt = INTERRUPT_BIT OR 5"
| "trap_code MachineTimerInterrupt = INTERRUPT_BIT OR 7"
| "trap_code UserExternalInterrupt = INTERRUPT_BIT OR 8"
| "trap_code SupervisorExternalInterrupt = INTERRUPT_BIT OR 9"
| "trap_code MachineExternalInterrupt = INTERRUPT_BIT OR 11"
| "trap_code InstructionAddressMisaligned = 0"
| "trap_code InstructionAccessFault = 1"
| "trap_code IllegalInstruction = 2"
| "trap_code Breakpoint = 3"
| "trap_code LoadAddressMisaligned = 4"
| "trap_code LoadAccessFault = 5"
| "trap_code StoreAddressMisaligned = 6"
| "trap_code StoreAccessFault = 7"
| "trap_code UserModeEnvironmentCall = 8"
| "trap_code SupervisorModeEnvironmentCall = 9"
| "trap_code MachineModeEnvironmentCall = 11"
| "trap_code InstructionPageFault = 12"
| "trap_code LoadPageFault = 13"
| "trap_code StorePageFault = 15"
| "trap_code Reserved = - 1"

definition from_cause :: "usize \<Rightarrow> trap" where
  "from_cause cause =
     (if cause = 0x8000000000000000 then UserSoftwareInterrupt
      else if cause = 0x8000000000000001 then SupervisorSoftwareInterrupt
      else if cause = 0x8000000000000003 then MachineSoftwareInterrupt
      else if cause = 0x8000000000000004 then UserTimerInterrupt
      else if cause = 0x8000000000000005 then SupervisorTimerInterrupt
      else if cause = 0x8000000000000007 then MachineTimerInterrupt
      else if cause = 0x8000000000000008 then UserExternalInterrupt
      else if cause = 0x8000000000000009 then SupervisorExternalInterrupt
      else if cause = 0x800000000000000B then MachineExternalInterrupt
      else if cause = 0 then InstructionAddressMisaligned
      else if cause = 1 then InstructionAccessFault
      else if cause = 2 then IllegalInstruction
      else if cause = 3 then Breakpoint
      else if cause = 4 then LoadAddressMisaligned
      else if cause = 5 then LoadAccessFault
      else if cause = 6 then StoreAddressMisaligned
      else if cause = 7 then StoreAccessFault
      else if cause = 8 then UserModeEnvironmentCall
      else if cause = 9 then SupervisorModeEnvironmentCall
      else if cause = 11 then MachineModeEnvironmentCall
      else if cause = 12 then InstructionPageFault
      else if cause = 13 then LoadPageFault
      else if cause = 15 then StorePageFault
      else Reserved)"

lemma from_cause_code [simp]: "from_cause (trap_code t) = t"
  by (cases t) (simp_all add: from_cause_def INTERRUPT_BIT_def)

lemma code_from_cause: "from_cause c \<noteq> Reserved \<Longrightarrow> trap_code (from_cause c) = c"
  by (auto simp: from_cause_def INTERRUPT_BIT_def split: if_splits)

section \<open>External interrupts\<close>

fun run_handler :: "'v outside \<Rightarrow> handler \<Rightarrow> 'v kernel \<Rightarrow> 'v kernel result" where
  "run_handler e Unknown_Handler k = fail (Panic ''Unknown external interrupt'')"
| "run_handler e Uart_Handler k = uart_handler e k"

definition handle_external :: "'v outside \<Rightarrow> 'v kernel \<Rightarrow> 'v kernel result" where
  "handle_external e k =
     (case plic_claim e of
        None \<Rightarrow> fail (Panic ''No claim available'')
      | Some i \<Rightarrow>
          rbind (index_at (handlers k) i) (\<lambda>h.
          rbind (run_handler e h k) (\<lambda>k. ok (k\<lparr>completed := completed k @ [i]\<rparr>))))"

section \<open>The handler\<close>

definition UART_MMIO :: usize where
  "UART_MMIO = 0xffffffff90000000"

definition trap_handler ::
  "'v outside \<Rightarrow> trap_frame \<Rightarrow> usize \<Rightarrow> usize \<Rightarrow> 'v kernel \<Rightarrow> (trap_frame \<times> 'v kernel) result" where
  "trap_handler e frame scause stval k =
     (case from_cause scause of
        SupervisorTimerInterrupt \<Rightarrow>
          (let (r, deadline) = unit_set (set_timer e) (timer_speed k) (rdtime e) (MilliSeconds 1) in
           rbind (unwrap_res r) (\<lambda>_. advance_task frame (k\<lparr>timer_at := Some deadline\<rparr>)))
      | StorePageFault \<Rightarrow>
          if stval = UART_MMIO then
            (let k = k\<lparr>uart_locked := False, uart_base := 0x10000000 + hhdm (mach k)\<rparr> in
             rbind (print_out (Msg ''Failed to map UART, using HHDM UART'' []) k) (\<lambda>k.
             ok (frame, k\<lparr>uart_locked := True\<rparr>)))
          else hang
      | SupervisorExternalInterrupt \<Rightarrow> rbind (handle_external e k) (\<lambda>k. ok (frame, k))
      | UserModeEnvironmentCall \<Rightarrow> syscall_core e (frame\<lparr>sepc := sepc frame + 4\<rparr>) k
      | Breakpoint \<Rightarrow>
          rbind (lock_write k) (\<lambda>k.
          rbind (current_task_mut (\<lambda>t. t\<lparr>waiting_on := WaitBreakpoint\<rparr>) (tasks k)) (\<lambda>q.
          advance_task frame (unlock_write (k\<lparr>tasks := q\<rparr>))))
      | _ \<Rightarrow> hang)"

section \<open>Sequences of traps\<close>

text \<open>A number of traps one after the other. Between two traps the program runs, so a trap comes with
  any frame, and the devices may answer differently each time. System call 3, dropping the current
  thread, is left out: it breaks the index of the current task.\<close>

definition drops_thread :: "usize \<Rightarrow> trap_frame \<Rightarrow> bool" where
  "drops_thread scause frame \<longleftrightarrow>
     from_cause scause = UserModeEnvironmentCall \<and> regs frame reg_a0 = 1 \<and> regs frame reg_a1 = 3"

inductive trap_steps :: "nat \<Rightarrow> 'v kernel \<Rightarrow> 'v kernel \<Rightarrow> bool" where
  none: "trap_steps 0 k k"
| trap: "trap_steps n k k' \<Longrightarrow> \<not> drops_thread scause frame \<Longrightarrow>
    trap_handler e frame scause stval k' = ok (g, k'') \<Longrightarrow> trap_steps (Suc n) k k''"

inductive_cases trap_stepsE: "trap_steps (Suc n) k k''"

text \<open>What a trap does to the state the scheduler depends on: it keeps it well formed and adds at
  most so many tasks.\<close>

definition grown :: "nat \<Rightarrow> 'v kernel \<Rightarrow> 'v kernel \<Rightarrow> bool" where
  "grown n k k' \<longleftrightarrow> kernel_ok k' \<and> length (queue (tasks k')) \<le> length (queue (tasks k)) + n"

lemma same_tasks_grown: "kernel_ok k \<Longrightarrow> same_tasks k k' \<Longrightarrow> grown 0 k k'"
  by (simp add: same_tasks_def grown_def kernel_ok_def)

lemma print_out_same: "print_out x k = ok k' \<Longrightarrow> same_tasks k0 k \<Longrightarrow> same_tasks k0 k'"
  by (auto simp: print_out_def split: if_splits)

lemma print_bytes_same: "print_bytes ptr n k = ok k' \<Longrightarrow> same_tasks k k'"
  unfolding print_bytes_def
  by (erule rfold_invariant [where P = "same_tasks k"]) (auto simp: rbind_eq_ok dest: print_out_same)

lemma next_claim_same: "next_claim frames i k = ok (p, k') \<Longrightarrow> same_tasks k0 k \<Longrightarrow> same_tasks k0 k'"
  by (auto simp: next_claim_def rbind_eq_ok split: if_splits)

lemma extend_page_same: "extend_page table frames x k = ok k' \<Longrightarrow> same_tasks k0 k \<Longrightarrow> same_tasks k0 k'"
  by (cases x) (auto simp: extend_page_def rbind_eq_ok Let_def dest!: print_out_same next_claim_same)

lemma advance_task_grown:
  assumes "kernel_ok k" "advance_task g k = ok (h, k')"
  shows "grown 0 k k'"
proof -
  obtain i where i: "next_task k = Some i" "k' = switched g i k"
    using assms advance_task_ok [of k g] by (auto split: option.splits)
  with next_task_lt [OF i(1) assms(1)] switched_ok(1) [OF assms(1)] show ?thesis by (simp add: grown_def)
qed

lemma waiting_grown:
  assumes "kernel_ok k" "tasks k1 = (tasks k)\<lparr>queue := (queue (tasks k))[i := t]\<rparr>"
    "task_lock k1 = Readers 0" "advance_task g k1 = ok (h, k')"
  shows "grown 0 k k'"
proof -
  have "kernel_ok k1" using assms(1-3) by (simp add: kernel_ok_def tq_ok_def)
  from advance_task_grown [OF this assms(4)] show ?thesis by (simp add: grown_def assms(2))
qed

lemma kernel_io_same: "kernel_io frame k = ok (g, k') \<Longrightarrow> regs frame reg_a1 \<noteq> 2 \<Longrightarrow> same_tasks k k'"
  by (auto simp: kernel_io_def rbind_eq_ok split: if_splits dest: print_bytes_same)

lemma kernel_io_grown:
  assumes "kernel_ok k" "kernel_io frame k = ok (g, k')"
  shows "grown 0 k k'"
proof (cases "regs frame reg_a1 = 2")
  case True
  then show ?thesis
    using waiting_grown [OF assms(1) _ _ assms(2) [unfolded kernel_io_wait [OF assms(1) True]]] assms(1) by simp
next
  case False
  then show ?thesis by (rule same_tasks_grown [OF assms(1) kernel_io_same [OF assms(2)]])
qed

lemma extend_heap_same:
  assumes k: "kernel_ok k" and e: "extend_heap e frame k = ok (g, k')"
  shows "same_tasks k k'"
proof -
  let ?l = "k\<lparr>task_lock := Readers 1\<rparr>"
  obtain k1 k2 k3 v table frames xs where
    "print_out (Msg ''extending heap on current task'' []) (?l\<lparr>arenas := v\<rparr>) = ok k1"
    "rfold (extend_page table frames) xs k1 = ok k2"
    "print_out (Msg ''extending heap on current task'' []) k2 = ok k3" "k' = unlock_read k3"
    using e k by (auto simp: extend_heap_def rbind_eq_ok Let_def split: prod.splits)
  note s = this
  have "same_tasks ?l k1" using print_out_same [OF s(1)] by simp
  then have "same_tasks ?l k2"
    by (rule rfold_invariant [where P = "same_tasks ?l", OF s(2)]) (rule extend_page_same)
  then have "same_tasks ?l k3" by (rule print_out_same [OF s(3)])
  then show ?thesis using k s(4) by (simp add: same_tasks_def unlock_read_def)
qed

lemma extend_heap_grown: "kernel_ok k \<Longrightarrow> extend_heap e frame k = ok (g, k') \<Longrightarrow> grown 0 k k'"
  by (rule same_tasks_grown [OF _ extend_heap_same])

lemma spawn_thread_queue:
  assumes k: "kernel_ok k" and e: "spawn_thread e frame k = ok (g, k')"
  obtains t where "queue (tasks k') = saved frame k @ [t]" "cur_task_idx (tasks k') = cur_task_idx (tasks k)"
    "task_lock k' = Readers 0"
  using e k by (auto simp: spawn_thread_def update_current_ok rbind_eq_ok new_task_def unlock_write_def
      tq_new_task_def Let_def split: prod.splits)

lemma spawn_thread_grown:
  assumes k: "kernel_ok k" and e: "spawn_thread e frame k = ok (g, k')"
    and room: "length (queue (tasks k)) + 1 < 2 ^ 64"
  shows "grown 1 k k'"
  by (rule spawn_thread_queue [OF k e]) (use k room in \<open>simp add: grown_def kernel_ok_def tq_ok_def\<close>)

lemma uart_handler_woken:
  assumes k: "kernel_ok k" and e: "uart_handler e k = ok k'"
  obtains q where "k' = k\<lparr>tasks := (tasks k)\<lparr>queue := q\<rparr>, await := []\<rparr>"
    "woken (uart_data e) (set (await k)) (queue (tasks k)) q"
proof -
  have l: "task_lock k = Readers 0" using k by simp
  have u: "\<not> uart_locked k" using e by (auto simp: uart_handler_def)
  have "\<forall>i \<in> set (await k). \<exists>t \<in> set (queue (tasks k)). task_id t = i"
    using wake_absent [OF l, of "await k"] e u by (fastforce simp: uart_handler_def)
  from uart_handler_wakes [OF l u this, of e] obtain q
    where q: "uart_handler e k = ok (k\<lparr>tasks := (tasks k)\<lparr>queue := q\<rparr>, await := []\<rparr>)"
      "woken (uart_data e) (set (await k)) (queue (tasks k)) q" .
  then have "k' = k\<lparr>tasks := (tasks k)\<lparr>queue := q\<rparr>, await := []\<rparr>" using e by simp
  then show ?thesis using q(2) by (rule that)
qed

lemma handle_external_woken:
  assumes k: "kernel_ok k" and e: "handle_external e k = ok k'"
  obtains q where "tasks k' = (tasks k)\<lparr>queue := q\<rparr>" "task_lock k' = task_lock k"
    "woken (uart_data e) (set (await k)) (queue (tasks k)) q"
proof -
  obtain h k1 where h: "run_handler e h k = ok k1" "tasks k' = tasks k1" "task_lock k' = task_lock k1"
    using e by (auto simp: handle_external_def rbind_eq_ok split: option.splits)
  then have "uart_handler e k = ok k1" by (cases h) auto
  then obtain q where q: "k1 = k\<lparr>tasks := (tasks k)\<lparr>queue := q\<rparr>, await := []\<rparr>"
    "woken (uart_data e) (set (await k)) (queue (tasks k)) q" by (rule uart_handler_woken [OF k])
  show ?thesis by (rule that [OF _ _ q(2)]) (simp_all only: h(2,3) q(1), simp_all)
qed

lemma handle_external_grown:
  assumes k: "kernel_ok k" and e: "handle_external e k = ok k'"
  shows "grown 0 k k'"
  by (rule handle_external_woken [OF k e])
    (use k in \<open>simp add: grown_def kernel_ok_def tq_ok_def woken_def\<close>)

lemma grown_mono: "grown m k k' \<Longrightarrow> m \<le> n \<Longrightarrow> grown n k k'"
  by (auto simp: grown_def)

lemma grown_Suc: "grown 0 k k' \<Longrightarrow> grown 1 k k'"
  using grown_mono [of 0 k k' 1] by simp

lemma syscall_grown:
  assumes k: "kernel_ok k" and e: "syscall_core e frame k = ok (g, k')"
    and room: "length (queue (tasks k)) + 1 < 2 ^ 64"
    and no: "\<not> (regs frame reg_a0 = 1 \<and> regs frame reg_a1 = 3)"
  shows "grown 1 k k'"
proof (cases "regs frame reg_a0 = 0")
  case True
  then have "grown 0 k k'" using e by (intro kernel_io_grown [OF k]) (simp add: syscall_core_def)
  then show ?thesis by (rule grown_mono) simp
next
  case False
  then have t: "kernel_task e frame k = ok (g, k')" "regs frame reg_a1 \<noteq> 3"
    using e no by (auto simp: syscall_core_def split: if_splits)
  then have "regs frame reg_a1 \<noteq> 4" using end_program_hangs [OF k] by auto
  with t show ?thesis
    using grown_Suc [OF advance_task_grown [OF k]] grown_Suc [OF extend_heap_grown [OF k]]
      spawn_thread_grown [OF k _ room]
    unfolding kernel_task_def Let_def by (auto split: if_splits)
qed

lemma timer_tick:
  assumes "kernel_ok k" and "\<And>t. set_timer e t = Inr ()"
  shows "trap_handler e frame (trap_code SupervisorTimerInterrupt) stval k =
    (case next_task k of
       None \<Rightarrow> hang
     | Some i \<Rightarrow> ok (trap_frame (saved frame k ! i),
         (switched frame i k)\<lparr>timer_at := Some (timer_speed k div 1000 + rdtime e)\<rparr>))"
proof -
  let ?k = "k\<lparr>timer_at := Some (timer_speed k div 1000 + rdtime e)\<rparr>"
  have "kernel_ok ?k" using assms(1) by (simp add: kernel_ok_def)
  moreover have "next_task ?k = next_task k" "saved frame ?k = saved frame k"
    by (simp_all add: next_task_def cur_def saved_def)
  ultimately have "advance_task frame ?k = (case next_task k of None \<Rightarrow> hang
      | Some i \<Rightarrow> ok (trap_frame (saved frame k ! i), switched frame i ?k))"
    using advance_task_ok [of ?k frame] by (simp split: option.split)
  then show ?thesis
    by (simp add: trap_handler_def unit_set_def unit_deadline_def assms(2) switched_def saved_def cur_def
        del: trap_code.simps split: option.splits)
qed

lemma trap_handler_grown:
  assumes k: "kernel_ok k" and h: "trap_handler e frame scause stval k = ok (g, k')"
    and room: "length (queue (tasks k)) + 1 < 2 ^ 64" and no: "\<not> drops_thread scause frame"
  shows "grown 1 k k'"
proof (cases "from_cause scause")
  case SupervisorTimerInterrupt
  then have "advance_task frame (k\<lparr>timer_at := Some (unit_deadline (timer_speed k) (rdtime e) (MilliSeconds 1))\<rparr>)
      = ok (g, k')"
    using h by (auto simp: trap_handler_def unit_set_def rbind_eq_ok simp del: ticks.simps)
  from advance_task_grown [OF _ this] have "grown 0 k k'" using k by (simp add: grown_def kernel_ok_def)
  then show ?thesis by (rule grown_mono) simp
next
  case SupervisorExternalInterrupt
  then have "handle_external e k = ok k'" using h by (auto simp: trap_handler_def rbind_eq_ok)
  from handle_external_grown [OF k this] show ?thesis by (rule grown_mono) simp
next
  case Breakpoint
  then have "advance_task frame (k\<lparr>tasks := (tasks k)\<lparr>queue := (queue (tasks k))
      [cur k := (running k)\<lparr>waiting_on := WaitBreakpoint\<rparr>]\<rparr>, task_lock := Readers 0\<rparr>) = ok (g, k')"
    using h k by (simp add: trap_handler_def current_task_ok unlock_write_def)
  then have "grown 0 k k'" by (intro waiting_grown [OF k]) simp_all
  then show ?thesis by (rule grown_mono) simp
next
  case UserModeEnvironmentCall
  then have s: "syscall_core e (frame\<lparr>sepc := sepc frame + 4\<rparr>) k = ok (g, k')"
    using h by (simp add: trap_handler_def)
  show ?thesis
    by (rule syscall_grown [OF k s room]) (use no UserModeEnvironmentCall in \<open>simp add: drops_thread_def\<close>)
next
  case StorePageFault
  then have "same_tasks k k'" using h
    by (auto simp: trap_handler_def rbind_eq_ok print_out_def same_tasks_def split: if_splits)
  then show ?thesis using grown_mono [OF same_tasks_grown [OF k]] by simp
qed (use h in \<open>simp_all add: trap_handler_def\<close>)

lemma trap_steps_grown:
  "trap_steps n k k' \<Longrightarrow> kernel_ok k \<Longrightarrow> length (queue (tasks k)) + n < 2 ^ 64 \<Longrightarrow> grown n k k'"
proof (induction rule: trap_steps.induct)
  case (none k)
  then show ?case by (simp add: grown_def)
next
  case (trap n k k' scause frame e stval g k'')
  then have g: "grown n k k'" by simp
  then have "grown 1 k' k''"
    using trap by (intro trap_handler_grown [OF _ trap.hyps(3) _ trap.hyps(2)]) (simp_all add: grown_def)
  with g show ?case by (simp add: grown_def)
qed

section \<open>The task another task's trap leaves\<close>

text \<open>What a trap of another task leaves of the task at index \<open>c\<close>: the task is untouched, or it was
  woken with a byte; and either the same task goes on, or the trap returned the frame of a ready task
  and put its table into satp.\<close>

definition leaves :: "nat \<Rightarrow> 'v kernel \<Rightarrow> trap_frame \<times> 'v kernel \<Rightarrow> bool" where
  "leaves c k r \<longleftrightarrow> c < length (queue (tasks (snd r)))
     \<and> (queue (tasks (snd r)) ! c = queue (tasks k) ! c
        \<or> (\<exists>b. queue (tasks (snd r)) ! c = take_char b (queue (tasks k) ! c)))
     \<and> (cur (snd r) = cur k
        \<or> fst r = trap_frame (running (snd r)) \<and> satp (mach (snd r)) = task_table (running (snd r))
          \<and> ready (running (snd r)))"

lemma same_tasks_leaves: "same_tasks k k' \<Longrightarrow> c < length (queue (tasks k)) \<Longrightarrow> leaves c k (g, k')"
  by (simp add: leaves_def same_tasks_def cur_def)

lemma advance_task_cases:
  assumes "kernel_ok k" "advance_task g k = ok (h, k')"
  obtains i where "next_task k = Some i" "i < length (queue (tasks k))" "h = trap_frame (saved g k ! i)"
    "k' = switched g i k" "kernel_ok k'" "cur k' = i" "ready (queue (tasks k) ! i)"
proof -
  obtain i where i: "next_task k = Some i" "h = trap_frame (saved g k ! i)" "k' = switched g i k"
    using assms advance_task_ok [of k g] by (auto split: option.splits)
  with next_task_lt [OF i(1) assms(1)] switched_ok [OF assms(1), of i g] that show ?thesis by simp
qed

text \<open>Where a switch leads.\<close>

lemma advance_task_resumes:
  assumes "kernel_ok k" "advance_task g k = ok (h, k')"
  shows "h = trap_frame (running k')" "satp (mach k') = task_table (running k')" "ready (running k')"
proof -
  obtain i where i: "i < length (queue (tasks k))" "h = trap_frame (saved g k ! i)"
    "k' = switched g i k" "cur k' = i" "ready (queue (tasks k) ! i)"
    using advance_task_cases [OF assms] .
  have "task_table (saved g k ! i) = task_table (queue (tasks k) ! i)"
    by (cases "i = cur k") (use i in \<open>auto simp: saved_def\<close>)
  then show "h = trap_frame (running k')" "satp (mach k') = task_table (running k')" "ready (running k')"
    using i ready_saved [of g k i] by simp_all
qed

lemma advance_leaves:
  assumes k: "kernel_ok k1" and adv: "advance_task g k1 = ok r"
    and c: "cur k1 = cur k" "cur k \<noteq> c" "c < length (queue (tasks k1))"
    and q: "queue (tasks k1) ! c = queue (tasks k) ! c"
  shows "leaves c k r"
proof -
  obtain h k' where r: "r = (h, k')" by (cases r)
  obtain i where "k' = switched g i k1" using advance_task_cases [OF k adv [unfolded r]] .
  then have "queue (tasks k') = saved g k1" by simp
  then show ?thesis using advance_task_resumes [OF k adv [unfolded r]] c q unfolding r
    by (simp add: leaves_def saved_def)
qed

lemma waiting_leaves:
  assumes "kernel_ok k" "tasks k1 = (tasks k)\<lparr>queue := (queue (tasks k))[cur k := t]\<rparr>"
    "task_lock k1 = Readers 0" "advance_task g k1 = ok r" "cur k \<noteq> c" "c < length (queue (tasks k))"
  shows "leaves c k r"
proof (rule advance_leaves)
  show "kernel_ok k1" using assms(1-3) by (simp add: kernel_ok_def tq_ok_def)
  show "advance_task g k1 = ok r" by (rule assms(4))
qed (use assms in \<open>simp_all add: cur_def\<close>)

lemma kernel_io_leaves:
  assumes k: "kernel_ok k" and e: "kernel_io frame k = ok r" and c: "cur k \<noteq> c" "c < length (queue (tasks k))"
  shows "leaves c k r"
proof (cases "regs frame reg_a1 = 2")
  case True
  from waiting_leaves [OF k _ _ e [unfolded kernel_io_wait [OF k True]] c] show ?thesis using k by simp
next
  case False
  then show ?thesis using same_tasks_leaves [OF kernel_io_same c(2)] e by (cases r) blast
qed

lemma spawn_thread_leaves:
  assumes k: "kernel_ok k" and e: "spawn_thread e frame k = ok r" and c: "cur k \<noteq> c" "c < length (queue (tasks k))"
  shows "leaves c k r"
proof -
  obtain g k' where r: "r = (g, k')" by (cases r)
  obtain t where "queue (tasks k') = saved frame k @ [t]" "cur_task_idx (tasks k') = cur_task_idx (tasks k)"
    using spawn_thread_queue [OF k e [unfolded r]] .
  then show ?thesis using c unfolding r by (simp add: leaves_def saved_def cur_def nth_append)
qed

lemma syscall_leaves:
  assumes k: "kernel_ok k" and e: "syscall_core e frame k = ok r" and c: "cur k \<noteq> c" "c < length (queue (tasks k))"
    and no: "\<not> (regs frame reg_a0 = 1 \<and> regs frame reg_a1 = 3)"
  shows "leaves c k r"
proof (cases "regs frame reg_a0 = 0")
  case True
  then show ?thesis using e by (intro kernel_io_leaves [OF k _ c]) (simp add: syscall_core_def)
next
  case False
  then have t: "kernel_task e frame k = ok r" "regs frame reg_a1 \<noteq> 3"
    using e no by (auto simp: syscall_core_def split: if_splits)
  then have "regs frame reg_a1 \<noteq> 4" using end_program_hangs [OF k] by auto
  then consider "advance_task frame k = ok r" | "extend_heap e frame k = ok r" | "spawn_thread e frame k = ok r"
    using t unfolding kernel_task_def Let_def by (auto split: if_splits)
  then show ?thesis
  proof cases
    case 1
    then show ?thesis by (rule advance_leaves [OF k _ refl c]) simp
  next
    case 2
    then show ?thesis using same_tasks_leaves [OF extend_heap_same [OF k] c(2)] by (cases r) blast
  qed (rule spawn_thread_leaves [OF k _ c])
qed

lemma handle_external_leaves:
  assumes k: "kernel_ok k" and e: "handle_external e k = ok k'" and c: "c < length (queue (tasks k))"
  shows "leaves c k (g, k')"
proof -
  obtain q where q: "tasks k' = (tasks k)\<lparr>queue := q\<rparr>" "woken (uart_data e) (set (await k)) (queue (tasks k)) q"
    using handle_external_woken [OF k e] .
  then have "length q = length (queue (tasks k))"
    "q ! c = queue (tasks k) ! c \<or> q ! c = take_char (uart_data e) (queue (tasks k) ! c)"
    using c by (auto simp: woken_def)
  then show ?thesis using q(1) c by (auto simp: leaves_def cur_def)
qed

lemma trap_handler_leaves:
  assumes k: "kernel_ok k" and h: "trap_handler e frame scause stval k = ok r"
    and c: "cur k \<noteq> c" "c < length (queue (tasks k))" and no: "\<not> drops_thread scause frame"
  shows "leaves c k r"
proof (cases "from_cause scause")
  case SupervisorTimerInterrupt
  let ?k = "k\<lparr>timer_at := Some (unit_deadline (timer_speed k) (rdtime e) (MilliSeconds 1))\<rparr>"
  have "advance_task frame ?k = ok r"
    using h SupervisorTimerInterrupt by (auto simp: trap_handler_def unit_set_def rbind_eq_ok simp del: ticks.simps)
  then show ?thesis by (rule advance_leaves [rotated]) (use k c in \<open>simp_all add: kernel_ok_def cur_def\<close>)
next
  case SupervisorExternalInterrupt
  then obtain k' where "handle_external e k = ok k'" "r = (frame, k')" using h by (auto simp: trap_handler_def rbind_eq_ok)
  then show ?thesis using handle_external_leaves [OF k _ c(2)] by simp
next
  case Breakpoint
  then have "advance_task frame (k\<lparr>tasks := (tasks k)\<lparr>queue := (queue (tasks k))
      [cur k := (running k)\<lparr>waiting_on := WaitBreakpoint\<rparr>]\<rparr>, task_lock := Readers 0\<rparr>) = ok r"
    using h k by (simp add: trap_handler_def current_task_ok unlock_write_def)
  then show ?thesis by (rule waiting_leaves [OF k _ _ _ c, rotated 2]) simp_all
next
  case UserModeEnvironmentCall
  then have "syscall_core e (frame\<lparr>sepc := sepc frame + 4\<rparr>) k = ok r" using h by (simp add: trap_handler_def)
  then show ?thesis
    by (rule syscall_leaves [OF k _ c]) (use no UserModeEnvironmentCall in \<open>simp add: drops_thread_def\<close>)
next
  case StorePageFault
  then have "same_tasks k (snd r)" using h
    by (auto simp: trap_handler_def rbind_eq_ok print_out_def same_tasks_def split: if_splits)
  then show ?thesis using same_tasks_leaves [OF _ c(2), of "snd r" "fst r"] by simp
qed (use h in \<open>simp_all add: trap_handler_def\<close>)

end
