(* ===== verification/Kernel_Example.thy ===== *)
theory Kernel_Example
  imports Traps Boot_Example
begin

text \<open>
  A small kernel on which the hypotheses of the kernel properties hold: the machine \<open>warm\<close>, three
  tasks of which the middle one waits for input, the first one running, and an arena that hands
  out consecutive numbers.
\<close>

definition task_of :: "usize \<Rightarrow> wait_src \<Rightarrow> usize \<Rightarrow> task_data" where
  "task_of i w x = \<lparr>trap_frame = \<lparr>sepc = x, regs = (\<lambda>r. x + of_nat r)\<rparr>, task_id = i, task_table = 0,
     task_privilege = User, waiting_on = w, thread_id = 0, thread_manager = 0, task_vmm = 1\<rparr>"

definition kernel_of :: "task_data list \<Rightarrow> usize \<Rightarrow> usize kernel" where
  "kernel_of q i = \<lparr>mach = warm, tasks = \<lparr>queue = q, cur_task_idx = i\<rparr>, task_lock = Readers 0,
     await = [], sstatus = 0, uart_locked = False, uart_base = UART_MMIO, console = [], arenas = 7,
     timer_speed = 10000000, timer_at = None,
     handlers = (replicate 64 Unknown_Handler)[10 := Uart_Handler], completed = []\<rparr>"

definition three :: "usize kernel" where
  "three = kernel_of [task_of 0 WaitNone 100, task_of 1 CharIn 200, task_of 2 WaitNone 300] 0"

definition lone :: "usize kernel" where
  "lone = kernel_of [task_of 0 WaitNone 100] 0"

definition board :: "usize outside" where
  "board = \<lparr>vmem_alloc = (\<lambda>_ size a. Some (a, a + size)), set_timer = (\<lambda>_. Inr ()), rdtime = 50,
     plic_claim = Some 10, uart_data = 0x41\<rparr>"

text \<open>The frame of a call: its numbers in a0 and a1, its arguments in a2 and a3.\<close>

definition call_frame :: "usize \<Rightarrow> usize \<Rightarrow> usize \<Rightarrow> usize \<Rightarrow> trap_frame" where
  "call_frame a b c d =
     set_reg reg_a0 a (set_reg reg_a1 b (set_reg reg_a2 c (set_reg reg_a3 d frame_default)))"

lemma call_frame_regs [simp]:
  "regs (call_frame a b c d) reg_a0 = a" "regs (call_frame a b c d) reg_a1 = b"
  "regs (call_frame a b c d) reg_a2 = c" "regs (call_frame a b c d) reg_a3 = d"
  by (simp_all add: call_frame_def set_reg_def reg_a0_def reg_a1_def reg_a2_def reg_a3_def)

lemma three_ok [simp]: "kernel_ok three" "cur three = 0" "next_task three = Some 2"
  "mach three = warm" "sstatus three = 0" "await three = []" "\<not> uart_locked three" "arenas three = 7"
  "queue (tasks three) = [task_of 0 WaitNone 100, task_of 1 CharIn 200, task_of 2 WaitNone 300]"
  by (simp_all add: three_def kernel_of_def kernel_ok_def tq_ok_def cur_def next_task_def next_ready_def
      visit_order_def task_of_def upt_rec)

lemma lone_ok [simp]: "kernel_ok lone" "cur lone = 0" "next_task lone = Some 0"
  "queue (tasks lone) = [task_of 0 WaitNone 100]"
  by (simp_all add: lone_def kernel_of_def kernel_ok_def tq_ok_def cur_def next_task_def next_ready_def
      visit_order_def task_of_def)

end
