(* ===== verification/Kernel_Properties.thy ===== *)
theory Kernel_Properties
  imports Kernel_Example
begin

text \<open>
  The properties of scheduling, system calls and traps, each with a witness on the kernel of
  \<open>Kernel_Example\<close> where it has hypotheses.
\<close>

section \<open>Switching\<close>

text \<open>C13. A timer interrupt sets the next deadline one millisecond ahead and switches to the next
  ready task: its saved frame is returned, its table is in satp after a full fence, and the frame
  of the task that was running is stored in the queue. When no task is ready it does not return.\<close>

theorem timer_tick_switches:
  assumes "kernel_ok k" and "\<And>t. set_timer e t = Inr ()"
  shows "trap_handler e frame (trap_code SupervisorTimerInterrupt) stval k =
    (case next_task k of
       None \<Rightarrow> hang
     | Some i \<Rightarrow> ok (trap_frame (saved frame k ! i),
         (switched frame i k)\<lparr>timer_at := Some (timer_speed k div 1000 + rdtime e)\<rparr>))"
  by (rule timer_tick [OF assms])

theorem timer_tick_switches_witness:
  "\<exists>k'. trap_handler board frame_default (trap_code SupervisorTimerInterrupt) 0 three =
     ok (trap_frame (task_of 2 WaitNone 300), k') \<and> timer_at k' = Some 10050"
  using timer_tick_switches [of three board frame_default 0]
  by (simp add: board_def saved_def del: trap_code.simps) (simp add: three_def kernel_of_def)

text \<open>Other tasks running: a number of traps none of which is taken while the task at index \<open>c\<close> is
  the current one, of any cause, with any frame and any answers of the devices, except the drop of a
  thread. A run is a pair of the frame last returned and the state.\<close>

inductive others_run :: "nat \<Rightarrow> nat \<Rightarrow> trap_frame \<times> 'v kernel \<Rightarrow> trap_frame \<times> 'v kernel \<Rightarrow> bool" for c where
  stay: "others_run c 0 r r"
| other: "others_run c n r (g, k) \<Longrightarrow> cur k \<noteq> c \<Longrightarrow> \<not> drops_thread scause frame \<Longrightarrow>
    trap_handler e frame scause stval k = ok r' \<Longrightarrow> others_run c (Suc n) r r'"

text \<open>The task at \<open>c\<close> as it was left, with frame \<open>f\<close> and waiting for \<open>w\<close>, or woken since.\<close>

definition left_as :: "trap_frame \<Rightarrow> wait_src \<Rightarrow> task_data \<Rightarrow> bool" where
  "left_as f w t \<longleftrightarrow> waiting_on t = w \<and> trap_frame t = f
     \<or> w = CharIn \<and> waiting_on t = WaitNone \<and> (\<exists>b :: u8. trap_frame t = set_reg reg_a0 (ucast b) f)"

lemma left_as_take_char: "left_as f w t \<Longrightarrow> left_as f w (take_char b t)"
  by (auto simp: left_as_def take_char_def)

definition resumes :: "trap_frame \<Rightarrow> wait_src \<Rightarrow> nat \<Rightarrow> trap_frame \<times> 'v kernel \<Rightarrow> bool" where
  "resumes f w c r \<longleftrightarrow> kernel_ok (snd r) \<and> c < length (queue (tasks (snd r)))
     \<and> left_as f w (queue (tasks (snd r)) ! c)
     \<and> (cur (snd r) = c \<longrightarrow> fst r = trap_frame (running (snd r))
        \<and> satp (mach (snd r)) = task_table (running (snd r)) \<and> ready (running (snd r)))"

lemma leaves_resumes:
  assumes "resumes f w c (g, k)" "cur k \<noteq> c" "leaves c k r" "kernel_ok (snd r)"
  shows "resumes f w c r"
  using assms left_as_take_char unfolding resumes_def leaves_def by fastforce

lemma others_run_resumes:
  "others_run c n r r' \<Longrightarrow> resumes f w c r \<Longrightarrow> length (queue (tasks (snd r))) + n < 2 ^ 64 \<Longrightarrow>
    resumes f w c r' \<and> length (queue (tasks (snd r'))) \<le> length (queue (tasks (snd r))) + n"
proof (induction rule: others_run.induct)
  case (other n r g k scause frame e stval r')
  then have i: "resumes f w c (g, k)" "length (queue (tasks k)) \<le> length (queue (tasks (snd r))) + n" by simp_all
  then have k: "kernel_ok k" "c < length (queue (tasks k))" by (simp_all add: resumes_def)
  obtain h k' where r': "r' = (h, k')" by (cases r')
  have g: "grown 1 k k'"
    using other.prems i(2) by (intro trap_handler_grown [OF k(1) other.hyps(4) [unfolded r'] _ other.hyps(3)]) simp
  have "leaves c k r'" by (rule trap_handler_leaves [OF k(1) other.hyps(4,2) k(2) other.hyps(3)])
  from leaves_resumes [OF i(1) other.hyps(2) this] g i(2) show ?case by (simp add: r' grown_def)
qed simp

lemma switch_resumes:
  assumes k: "kernel_ok k" and adv: "advance_task frame k = ok r"
  shows "resumes frame (waiting_on (running k)) (cur k) r" "length (queue (tasks (snd r))) = length (queue (tasks k))"
proof -
  obtain h k' where r: "r = (h, k')" by (cases r)
  obtain i where i: "k' = switched frame i k" "kernel_ok k'"
    using advance_task_cases [OF k adv [unfolded r]] .
  show "length (queue (tasks (snd r))) = length (queue (tasks k))" using i(1) by (simp add: r)
  have "left_as frame (waiting_on (running k)) (queue (tasks k') ! cur k)"
    using k i(1) by (simp add: left_as_def saved_def)
  then show "resumes frame (waiting_on (running k)) (cur k) r"
    using advance_task_resumes [OF k adv [unfolded r]] i k by (auto simp: resumes_def r)
qed

text \<open>C14. A task resumes where it was interrupted: after a switch away from it and any number of
  traps of the other tasks, of any cause and with any frames, except the drop of a thread (C16), the
  frame restored when it is current again is the one saved, and satp holds its table. When it was
  waiting for input, a0 holds the byte it was woken with and the rest of the frame is the one saved.
  The queue must have room for a task per trap.\<close>

theorem task_resumes_its_frame:
  assumes "kernel_ok k" and "advance_task frame k = ok r" and "others_run (cur k) n r (g, k')"
    and "cur k' = cur k" and "length (queue (tasks k)) + n < 2 ^ 64"
  shows "(if waiting_on (running k) = CharIn then \<exists>b :: u8. g = set_reg reg_a0 (ucast b) frame else g = frame)
    \<and> satp (mach k') = task_table (queue (tasks k') ! cur k)"
proof -
  have "resumes frame (waiting_on (running k)) (cur k) (g, k')"
    using others_run_resumes [OF assms(3) switch_resumes(1) [OF assms(1,2)]] switch_resumes(2) [OF assms(1,2)] assms(5)
    by simp
  then show ?thesis using assms(4) by (auto simp: resumes_def left_as_def)
qed

theorem task_resumes_its_frame_witness:
  "\<exists>r k'. advance_task (call_frame 1 2 3 4) three = ok r
     \<and> others_run 0 1 r (call_frame 1 2 3 4, k') \<and> satp (mach k') = 0"
proof -
  let ?f = "call_frame 1 2 3 4" and ?g = frame_default
  let ?k1 = "switched ?f 2 three"
  have k1: "kernel_ok ?k1" "cur ?k1 = 2" by (simp_all add: switched_ok)
  have n: "next_task ?k1 = Some 0"
    by (simp add: next_task_def next_ready_def visit_order_def k1(2) saved_def task_of_def upt_rec)
  have a: "advance_task ?f three = ok (trap_frame (saved ?f three ! 2), ?k1)"
    by (simp add: advance_task_ok)
  obtain h k' where t: "trap_handler board ?g (trap_code SupervisorTimerInterrupt) 0 ?k1 = ok (h, k')"
    "cur k' = 0" "queue (tasks k') = saved ?g ?k1"
    using timer_tick [OF k1(1), of board ?g 0] n switched_ok(2) [OF k1(1), of 0 ?g]
    by (simp add: board_def cur_def del: trap_code.simps)
  have "\<not> drops_thread (trap_code SupervisorTimerInterrupt) ?g"
    unfolding drops_thread_def from_cause_code by simp
  then have o: "others_run (cur three) (Suc 0) (trap_frame (saved ?f three ! 2), ?k1) (h, k')"
    using k1(2) t(1) by (intro other [OF stay]) simp_all
  have w: "waiting_on (running three) = WaitNone" "task_table (queue (tasks k') ! cur three) = 0"
    by (simp_all add: task_of_def t(3) saved_def k1(2))
  have "h = ?f \<and> satp (mach k') = 0"
    using task_resumes_its_frame [OF three_ok(1) a o] t(2) w by simp
  then show ?thesis using a o by auto
qed

section \<open>Threads\<close>

lemma word_pred: "0 < i \<Longrightarrow> i < 2 ^ 64 \<Longrightarrow> unat (of_nat i - 1 :: usize) = i - 1"
  by (cases i) (simp_all add: unat_of_nat_less)

lemma word_pred_0: "unat (of_nat 0 - 1 :: usize) = 2 ^ 64 - 1"
  by (simp add: unsigned_minus_1_eq_mask mask_eq_exp_minus_1)

text \<open>Where the index points after another task was removed: to the same task in one case only.\<close>

lemma index_after_removal:
  assumes "i < n" "c < n" "i \<noteq> c" "n < 2 ^ 64"
  shows "unat (of_nat i - 1 :: usize) = moved_to n c i \<longleftrightarrow> Suc i = n \<and> Suc c = i"
proof (cases i)
  case 0
  have "moved_to n c i < n" using assms by (simp add: moved_to_def)
  then show ?thesis using word_pred_0 0 assms by auto
next
  case (Suc j)
  then have "unat (of_nat i - 1 :: usize) = j" using word_pred [of i] assms by simp
  then show ?thesis using Suc assms by (auto simp: moved_to_def)
qed

text \<open>C16. Dropping the current thread while another task is ready switches to that task and takes
  the dropped one out of the queue, but the index that names the running task names it afterwards
  in one case only: when the dropped task was the last but one and the running task the last. In
  every other case the next trap saves the running task's frame into another task, or finds the
  index out of bounds.\<close>

theorem drop_thread_index:
  assumes "kernel_ok k" and "next_task k = Some i" and "i \<noteq> cur k"
  shows "\<exists>k'. drop_thread frame k = ok (trap_frame (queue (tasks k) ! i), k')
    \<and> length (queue (tasks k')) = length (queue (tasks k)) - 1
    \<and> queue (tasks k') ! moved_to (length (queue (tasks k))) (cur k) i = queue (tasks k) ! i
    \<and> (cur k' = moved_to (length (queue (tasks k))) (cur k) i
       \<longleftrightarrow> Suc i = length (queue (tasks k)) \<and> Suc (cur k) = i)"
proof -
  let ?q = "queue (tasks k)" and ?c = "cur k" and ?s = "saved frame k"
  have c: "?c < length ?q" "length ?q < 2 ^ 64" using assms(1) by (simp_all add: kernel_ok_def tq_ok_def cur_def)
  have i: "i < length ?q" using next_task_lt [OF assms(2,1)] by simp
  then have u: "unat (of_nat i :: usize) = i" using c by (intro unat_of_nat_less) simp
  have si: "?s ! i = ?q ! i" using assms(3) by (simp add: saved_def)
  have idx: "of_nat i \<noteq> cur_task_idx (tasks k)" using u assms(3) by (auto simp: cur_def)
  let ?tq = "\<lparr>queue = butlast (?s[?c := last ?s]), cur_task_idx = of_nat i - 1\<rparr>"
  have "drop_task (cur_task_idx (tasks k)) (tasks (switched frame i k)) (sstatus k) = ok (?tq, sstatus k)"
    using c idx by (subst drop_task_other) (simp_all add: cur_def)
  then have "drop_thread frame k = ok (trap_frame (?q ! i), (switched frame i k)\<lparr>tasks := ?tq, sstatus := sstatus k\<rparr>)"
    using assms(2) si by (simp add: drop_thread_ok [OF assms(1)])
  moreover have "butlast (?s[?c := last ?s]) ! moved_to (length ?q) ?c i = ?q ! i"
    using swap_remove_nth [of ?c ?s i] c i assms(3) si by simp
  moreover have "unat (of_nat i - 1 :: usize) = moved_to (length ?q) ?c i \<longleftrightarrow> Suc i = length ?q \<and> Suc ?c = i"
    using index_after_removal i c assms(3) by simp
  ultimately show ?thesis by (simp add: cur_def)
qed

theorem drop_thread_index_witness:
  "\<exists>k'. drop_thread frame_default three = ok (trap_frame (task_of 2 WaitNone 300), k')
    \<and> length (queue (tasks k')) = 2 \<and> queue (tasks k') ! 0 = task_of 2 WaitNone 300 \<and> cur k' \<noteq> 0"
  using drop_thread_index [of three 2 frame_default] by (auto simp: moved_to_def)

text \<open>When the current thread is the only ready one, dropping it does not stop it: the call
  returns its own frame, so it goes on running although it left the queue.\<close>

theorem dropped_thread_runs_on:
  assumes "kernel_ok k" and "next_task k = Some (cur k)"
  shows "\<exists>k'. drop_thread frame k = ok (frame, k')
    \<and> queue (tasks k') = butlast ((queue (tasks k))[cur k := last (saved frame k)])
    \<and> satp (mach k') = task_table (running k)"
proof -
  let ?s = "saved frame k" and ?c = "cur k"
  have c: "?c < length (queue (tasks k))" using assms(1) by simp
  have sw: "kernel_ok (switched frame ?c k)" "cur (switched frame ?c k) = ?c"
    by (rule switched_ok [OF assms(1) c])+
  have idx: "cur_task_idx (tasks (switched frame ?c k)) = cur_task_idx (tasks k)"
    by (simp add: cur_def)
  have "next_ready ?s ?c = Some ?c"
    using assms(2) unfolding next_task_def by (subst next_ready_cong [of _ "queue (tasks k)"]) (simp_all add: ready_saved)
  then have "drop_task (cur_task_idx (tasks k)) (tasks (switched frame ?c k)) (sstatus k)
      = ok (\<lparr>queue = butlast (?s[?c := last ?s]), cur_task_idx = of_nat ?c - 1\<rparr>, sstatus k)"
    using drop_task_self [of "tasks (switched frame ?c k)" "sstatus k"] sw idx
    by (simp add: kernel_ok_def cur_def)
  moreover have "?s[?c := last ?s] = (queue (tasks k))[?c := last ?s]" by (simp add: saved_def)
  moreover have "trap_frame (?s ! ?c) = frame" using c by (simp add: saved_def)
  ultimately show ?thesis using assms(2) by (simp add: drop_thread_ok [OF assms(1)])
qed

theorem dropped_thread_runs_on_witness:
  "\<exists>k'. drop_thread (call_frame 1 3 0 0) lone = ok (call_frame 1 3 0 0, k') \<and> queue (tasks k') = []"
  using dropped_thread_runs_on [of lone "call_frame 1 3 0 0"] by auto

text \<open>C17. Ending a program never returns: the queue is searched with its lock held, the running
  program is found there, and dropping its task takes the lock again.\<close>

theorem end_program_never_returns:
  assumes "kernel_ok k" and "regs frame reg_a1 = 4"
  shows "kernel_task e frame k = hang"
  by (rule end_program_hangs [OF assms])

theorem end_program_never_returns_witness: "kernel_task board (call_frame 1 4 0 0) three = hang"
  by (rule end_program_never_returns) simp_all

text \<open>The user library's \<open>spawn_thread\<close> (lsd_lib/src/lib.rs) runs the closure and drops the thread
  afterwards when the thread id it reads from a1 is not zero.\<close>

definition lib_runs_closure :: "trap_frame \<Rightarrow> bool" where
  "lib_runs_closure frame \<longleftrightarrow> regs frame reg_a1 \<noteq> 0"

text \<open>C18. Spawning a thread saves the caller's frame and appends a copy of its task that has a new
  thread id and returns the two ids in a0 and a1. The caller gets 0 in a0 but keeps the number of
  the call in a1, so the library takes it for the new thread as well.\<close>

theorem spawn_thread_outcome:
  assumes "kernel_ok k" and "regs frame reg_a1 = 2"
    and "vmem_alloc e (thread_manager (running k)) 1 (arenas k) = Some (tid, v)"
  shows "\<exists>k'. kernel_task e frame k = ok (set_reg reg_a0 0 frame, k')
    \<and> queue (tasks k') = saved frame k @ [(running k)\<lparr>thread_id := tid,
        trap_frame := set_reg reg_a1 tid (set_reg reg_a0 (task_id (running k)) frame)\<rparr>]
    \<and> cur k' = cur k \<and> arenas k' = v \<and> mach k' = mach k
    \<and> lib_runs_closure (set_reg reg_a0 0 frame)"
proof -
  let ?s = "k\<lparr>tasks := (tasks k)\<lparr>queue := saved frame k\<rparr>\<rparr>"
  have k: "kernel_ok ?s" "cur ?s = cur k" using assms(1) by (simp_all add: kernel_ok_def tq_ok_def cur_def)
  have r: "running ?s = (running k)\<lparr>trap_frame := frame\<rparr>"
    using assms(1) k(2) by (simp add: saved_def)
  have c: "current_task (tasks ?s) = ok ((running k)\<lparr>trap_frame := frame\<rparr>)"
    using current_task_ok(1) [OF k(1)] r by simp
  have "lib_runs_closure (set_reg reg_a0 0 frame)"
    using assms(2) by (simp add: lib_runs_closure_def set_reg_def reg_a0_def reg_a1_def)
  then show ?thesis
    using assms c by (simp add: kernel_task_def spawn_thread_def update_current_ok new_task_def unlock_write_def
        tq_new_task_def cur_def del: of_nat_add)
qed

theorem spawn_thread_outcome_witness:
  "\<exists>k'. kernel_task board (call_frame 1 2 0 0) three = ok (call_frame 0 2 0 0, k')
    \<and> length (queue (tasks k')) = 4 \<and> lib_runs_closure (call_frame 0 2 0 0)"
proof -
  have "set_reg reg_a0 0 (call_frame 1 2 0 0) = call_frame 0 2 0 0"
    by (simp add: call_frame_def set_reg_def reg_a0_def)
  moreover have "vmem_alloc board (thread_manager (running three)) 1 (arenas three) = Some (7, 8)"
    by (simp add: board_def)
  ultimately show ?thesis using spawn_thread_outcome [of three "call_frame 1 2 0 0" board 7 8] by auto
qed

text \<open>Extending the heap takes the physical address of the task's root table for a pointer: when
  that address is not mapped, the call faults in the kernel as soon as the arena gave a segment.\<close>

theorem heap_extension_faults:
  assumes "kernel_ok k" and "\<not> uart_locked k" and "regs frame reg_a1 = 1"
    and "vmem_alloc e (task_vmm (running k)) (div_ceil (regs frame reg_a2) 0x1000 * 0x1000) (arenas k)
      = Some (v, a)"
    and "v < v + div_ceil (regs frame reg_a2) 0x1000 * 0x1000"
    and "fl_inv (mach k) (x # y # ys)"
    and "mem (mach k) (push_bit 12 (satp_get_ppn (task_table (running k)))) = None"
  shows "kernel_task e frame k
    = fail (PageFault (push_bit 12 (satp_get_ppn (task_table (running k)))))"
  using extend_heap_unmapped [OF assms(1,2,4-7)] assms(3) by (simp add: kernel_task_def)

theorem heap_extension_faults_witness:
  "kernel_task board (call_frame 1 1 5000 0) three = fail (PageFault 0)"
proof -
  obtain x y ys where f: "ram_frames = x # y # ys"
    using ram_frames_distinct(2) by (auto simp: numeral_eq_Suc length_Suc_conv)
  have d: "div_ceil 5000 0x1000 * 0x1000 = (0x2000 :: usize)" by (simp add: div_ceil_def)
  have "task_table (running three) = 0" by (simp add: task_of_def)
  then have r: "push_bit 12 (satp_get_ppn (task_table (running three))) = 0"
    by (simp add: satp_get_ppn_def bf_get_def)
  show ?thesis
    using heap_extension_faults [of three "call_frame 1 1 5000 0" board 7 "7 + 0x2000" x y ys]
      warm_boots(2) warm_null f d r by (simp add: board_def)
qed

section \<open>Input and output\<close>

text \<open>Printing translates the address of the first byte only: it writes as many bytes as asked
  for from consecutive physical addresses, whatever the program has mapped after its first page.\<close>

theorem print_reads_consecutive_memory:
  assumes "aspace (mach k) A xs D" and "\<not> uart_locked k" and "regs frame reg_a1 = 1"
    and "xlate (depth (mach k)) A (depth (mach k)) (regs frame reg_a2) = Some pa"
    and "\<And>i. i < unat (regs frame reg_a3) \<Longrightarrow> rd_byte (mach k) (pa + hhdm (mach k) + of_nat i) = ok (b i)"
  shows "kernel_io frame k = ok (frame,
    k\<lparr>console := console k @ map (\<lambda>i. Byte (b i)) [0..<unat (regs frame reg_a3)]\<rparr>)"
proof -
  have "virt_to_phys (mach k) (regs frame reg_a2) = ok (Inr pa)"
    using aspace_virt_to_phys [OF assms(1)] assms(4) by simp
  moreover have "print_bytes (pa + hhdm (mach k)) (unat (regs frame reg_a3)) k =
      ok (k\<lparr>console := console k @ map (\<lambda>i. Byte (b i)) [0..<unat (regs frame reg_a3)]\<rparr>)"
    by (rule print_bytes_ok [OF assms(2,5)])
  ultimately show ?thesis using assms(3) by (simp add: kernel_io_def pa_as_ptr_def)
qed

theorem print_reads_consecutive_memory_witness:
  "\<exists>t b. vmm_map warm 0x80000000 0x5000 0 Level3 Level1 flag_READ = ok t
    \<and> kernel_io (call_frame 0 1 0x5000 1) (three\<lparr>mach := t\<rparr>)
      = ok (call_frame 0 1 0x5000 1, three\<lparr>mach := t, console := console three @ [Byte b]\<rparr>)"
proof -
  let ?e = "leaf_entry 0 flag_READ" and ?f = "call_frame 0 1 0x5000 1"
  have d: "depth warm \<le> length ram_frames" "no_superpage (depth warm) (\<lambda>_. None) 0x5000"
    by (simp_all add: ram_frames_distinct no_superpage_def)
  then obtain t n where t: "vmm_map warm (current_table warm) 0x5000 0 (load_level warm) Level1 flag_READ = ok t"
    "aspace t ((\<lambda>_. None)(path 0x5000 (depth warm) 0 \<mapsto> ?e)) (drop n ram_frames) {}"
    "hhdm t = hhdm warm" "levels t = levels warm" "satp t = satp warm"
    using aspace_map [OF warm_aspace read_flags] by blast
  have l: "load_level warm = Level3" "depth t = 3" "depth warm = 3" "current_table t = 0x80000000"
    using t(3-5) by (simp_all add: load_level_lv current_table_def satp_get_ppn_def bf_get_def)
  have p: "push_bit 12 (pte_get_ppn ?e) = 0" by (rule leaf_entry_phys [OF read_flags]) simp_all
  have ns: "no_superpage 3 ((\<lambda>_. None)(path 0x5000 3 0 \<mapsto> ?e)) 0x5000"
    unfolding no_superpage_def
  proof
    fix i :: nat assume "i \<in> {1..<3}"
    then have "3 - i \<noteq> 3 - 0" by auto
    then have "length (path 0x5000 3 i) \<noteq> length (path 0x5000 3 0)" by (simp only: length_path) simp
    then have "path 0x5000 3 i \<noteq> path 0x5000 3 0" by metis
    then show "((\<lambda>_. None)(path 0x5000 3 0 \<mapsto> ?e)) (path 0x5000 3 i) = None" by simp
  qed
  have x: "xlate 3 ((\<lambda>_. None)(path 0x5000 3 0 \<mapsto> ?e)) 3 0x5000 = Some 0"
    using xlate_page [OF ns, of ?e 3] p by simp
  obtain T where "pt_inv t 3 T (drop n ram_frames)" "T [] = Some 0x80000000"
    using t(2) l by (auto simp: aspace_def)
  from pt_inv_entry [OF this, of 0] obtain w where "mem t 0x80000000 = Some w" by (auto simp: slot_0)
  then have b: "rd_byte t (hhdm t) = ok (ucast w)" using t(3) by (simp add: rd_byte_def byte_cell_def byte_shift_def)
  have "kernel_io ?f (three\<lparr>mach := t\<rparr>) = ok (?f, three\<lparr>mach := t, console := console three @ [Byte (ucast w)]\<rparr>)"
    using print_reads_consecutive_memory [of "three\<lparr>mach := t\<rparr>" _ "drop n ram_frames" "{}" ?f 0 "\<lambda>_. ucast w"]
      t(2) x l b by simp
  then show ?thesis using t(1) l by auto
qed

text \<open>C19. The input interrupt gives the byte it read, in a0, to the first task of the queue that has
  an id of the waiting list and makes it ready, changes no other task and empties the list; when an
  id of the list names no task any more, it panics.\<close>

theorem input_interrupt_wakes:
  assumes "kernel_ok k" and "\<not> uart_locked k"
  shows "if \<forall>i \<in> set (await k). \<exists>t \<in> set (queue (tasks k)). task_id t = i
    then \<exists>q. uart_handler e k = ok (k\<lparr>tasks := (tasks k)\<lparr>queue := q\<rparr>, await := []\<rparr>)
      \<and> length q = length (queue (tasks k))
      \<and> (\<forall>j < length q. q ! j =
          (if task_id (queue (tasks k) ! j) \<in> set (await k)
              \<and> (\<forall>l < j. task_id (queue (tasks k) ! l) \<noteq> task_id (queue (tasks k) ! j))
           then take_char (uart_data e) (queue (tasks k) ! j) else queue (tasks k) ! j))
    else uart_handler e k = fail UnwrapNone"
proof (cases "\<forall>i \<in> set (await k). \<exists>t \<in> set (queue (tasks k)). task_id t = i")
  case True
  have l: "task_lock k = Readers 0" using assms(1) by simp
  obtain q where q: "uart_handler e k = ok (k\<lparr>tasks := (tasks k)\<lparr>queue := q\<rparr>, await := []\<rparr>)"
    "woken (uart_data e) (set (await k)) (queue (tasks k)) q"
    using uart_handler_wakes [OF l assms(2) True] .
  show ?thesis unfolding if_P [OF True]
    by (rule exI [of _ q]) (use q in \<open>auto simp: woken_def first_at_def\<close>)
next
  case False
  then show ?thesis using wake_absent [of k "await k"] assms by (auto simp: uart_handler_def)
qed

theorem input_interrupt_wakes_witness:
  "uart_handler board (three\<lparr>await := [5]\<rparr>) = fail UnwrapNone \<and>
   (\<exists>q. uart_handler board (three\<lparr>await := [1]\<rparr>)
      = ok (three\<lparr>tasks := (tasks three)\<lparr>queue := q\<rparr>, await := []\<rparr>)
      \<and> waiting_on (q ! 1) = WaitNone)"
proof -
  have k: "kernel_ok (three\<lparr>await := xs\<rparr>)" "\<not> uart_locked (three\<lparr>await := xs\<rparr>)" for xs
    using three_ok(1,7) by (simp_all add: kernel_ok_def)
  show ?thesis
    using input_interrupt_wakes [OF k, of "[5]" board] input_interrupt_wakes [OF k, of "[1]" board]
    by (auto simp: task_of_def board_def take_char_def less_Suc_eq)
qed

text \<open>The state after the call to wait, at a switch to \<open>j\<close>, and the interrupt that comes then.\<close>

lemma input_wakes:
  fixes k :: "'v kernel" and frame :: trap_frame
  defines "w \<equiv> k\<lparr>await := await k @ [task_id (running k)],
    tasks := (tasks k)\<lparr>queue := (queue (tasks k))[cur k := (running k)\<lparr>waiting_on := CharIn\<rparr>]\<rparr>\<rparr>"
  assumes "kernel_ok k" and "\<not> uart_locked k"
    and "\<forall>i \<in> set (await k). \<exists>t \<in> set (queue (tasks k)). task_id t = i"
    and "j < length (queue (tasks w))" "j \<noteq> cur k"
  shows "\<exists>k''. cur (switched frame j w) \<noteq> cur k \<and> uart_handler e (switched frame j w) = ok k'' \<and> await k'' = []
    \<and> queue (tasks k'') ! cur k =
        (if \<forall>l < cur k. task_id (queue (tasks k) ! l) \<noteq> task_id (running k)
         then (running k)\<lparr>waiting_on := WaitNone, trap_frame := set_reg reg_a0 (ucast (uart_data e)) frame\<rparr>
         else (running k)\<lparr>waiting_on := CharIn, trap_frame := frame\<rparr>)"
proof -
  let ?c = "cur k" and ?s = "switched frame j w"
  have c: "?c < length (queue (tasks k))" using assms(2) by simp
  have k: "kernel_ok w" "cur w = ?c" using assms(2) by (simp_all add: w_def kernel_ok_def tq_ok_def cur_def)
  have s: "kernel_ok ?s" "cur ?s = j" using switched_ok [OF k(1) assms(5)] by simp_all
  have qs: "queue (tasks ?s) = (queue (tasks k))[?c := (running k)\<lparr>waiting_on := CharIn, trap_frame := frame\<rparr>]"
    using c k(2) by (simp add: saved_def w_def cur_def)
  have ids: "task_id (queue (tasks ?s) ! l) = task_id (queue (tasks k) ! l)" for l
    unfolding qs by (cases "l = ?c") (use c in simp_all)
  have len: "length (queue (tasks ?s)) = length (queue (tasks k))" unfolding qs by simp
  have aw: "await ?s = await k @ [task_id (running k)]" by (simp add: w_def)
  have "\<forall>i \<in> set (await ?s). \<exists>t \<in> set (queue (tasks ?s)). task_id t = i"
  proof
    fix a assume "a \<in> set (await ?s)"
    then have "a \<in> set (await k) \<or> a = task_id (running k)" unfolding aw by auto
    then have "\<exists>l < length (queue (tasks k)). task_id (queue (tasks k) ! l) = a"
      using assms(4) c by (metis in_set_conv_nth)
    then obtain l where l: "l < length (queue (tasks ?s))" "task_id (queue (tasks ?s) ! l) = a"
      using ids len by auto
    then show "\<exists>t \<in> set (queue (tasks ?s)). task_id t = a" using nth_mem by blast
  qed
  moreover have "\<not> uart_locked ?s" using assms(3) by (simp add: switched_def w_def)
  ultimately obtain r where r: "uart_handler e ?s = ok (?s\<lparr>tasks := (tasks ?s)\<lparr>queue := r\<rparr>, await := []\<rparr>)"
    "woken (uart_data e) (set (await ?s)) (queue (tasks ?s)) r"
    using uart_handler_wakes [OF kernel_ok_lock [OF s(1)]] by blast
  have "(\<exists>i \<in> set (await ?s). first_at (\<lambda>t. task_id t = i) (queue (tasks ?s)) ?c)
      \<longleftrightarrow> (\<forall>l < ?c. task_id (queue (tasks k) ! l) \<noteq> task_id (running k))"
    using c len ids aw by (auto simp: first_at_def)
  then have "r ! ?c = (if \<forall>l < ?c. task_id (queue (tasks k) ! l) \<noteq> task_id (running k)
      then take_char (uart_data e) (queue (tasks ?s) ! ?c) else queue (tasks ?s) ! ?c)"
    using r(2) c len unfolding woken_def by simp
  then have "r ! ?c = (if \<forall>l < ?c. task_id (queue (tasks k) ! l) \<noteq> task_id (running k)
         then (running k)\<lparr>waiting_on := WaitNone, trap_frame := set_reg reg_a0 (ucast (uart_data e)) frame\<rparr>
         else (running k)\<lparr>waiting_on := CharIn, trap_frame := frame\<rparr>)"
    using c unfolding qs by (auto simp: take_char_def)
  then show ?thesis using s(2) assms(6) r(1) by auto
qed

text \<open>C20. A wait for input and the next input interrupt, when the list names only tasks of the queue
  and the UART is not locked. With another task ready, the call switches to it, and the interrupt
  leaves the waiting task ready with the byte in a0 of the frame it called with if it is the first
  task of the queue with its id; a task that another one with the same id precedes, as an earlier
  thread of its program, stays waiting although the list of waiting ids is empty afterwards. With no
  other task ready the call does not return.\<close>

theorem input_roundtrip:
  assumes "kernel_ok k" and "\<not> uart_locked k" and "regs frame reg_a1 = 2"
    and "\<forall>i \<in> set (await k). \<exists>t \<in> set (queue (tasks k)). task_id t = i"
  shows "if \<exists>i < length (queue (tasks k)). i \<noteq> cur k \<and> waiting_on (queue (tasks k) ! i) = WaitNone
    then \<exists>g k' k''. kernel_io frame k = ok (g, k') \<and> cur k' \<noteq> cur k
      \<and> uart_handler e k' = ok k'' \<and> await k'' = []
      \<and> queue (tasks k'') ! cur k =
          (if \<forall>l < cur k. task_id (queue (tasks k) ! l) \<noteq> task_id (running k)
           then (running k)\<lparr>waiting_on := WaitNone, trap_frame := set_reg reg_a0 (ucast (uart_data e)) frame\<rparr>
           else (running k)\<lparr>waiting_on := CharIn, trap_frame := frame\<rparr>)
    else kernel_io frame k = hang"
proof -
  let ?c = "cur k"
  let ?q = "(queue (tasks k))[?c := (running k)\<lparr>waiting_on := CharIn\<rparr>]"
  let ?k = "k\<lparr>await := await k @ [task_id (running k)], tasks := (tasks k)\<lparr>queue := ?q\<rparr>\<rparr>"
  have c: "?c < length (queue (tasks k))" using assms(1) by simp
  have k: "kernel_ok ?k" "cur ?k = ?c" using assms(1) by (simp_all add: kernel_ok_def tq_ok_def cur_def)
  have io: "kernel_io frame k = advance_task frame ?k" by (rule kernel_io_wait [OF assms(1,3)])
  show ?thesis
  proof (cases "\<exists>i < length (queue (tasks k)). i \<noteq> ?c \<and> ready (queue (tasks k) ! i)")
    case True
    then obtain i where i: "i < length ?q" "i \<noteq> ?c" "ready (?q ! i)" by auto
    then obtain j where j: "next_task ?k = Some j"
      using next_ready_nearest [of ?c ?q i] c k(2) by (auto simp: next_task_def)
    then have adv: "advance_task frame ?k = ok (trap_frame (saved frame ?k ! j), switched frame j ?k)"
      using advance_task_ok [OF k(1)] by simp
    have "j < length ?q" "ready (?q ! j)" using next_task_lt [OF j k(1)] by simp_all
    then have jl: "j < length (queue (tasks ?k))" "j \<noteq> ?c" using c by auto
    from input_wakes [OF assms(1,2,4) jl] io adv show ?thesis unfolding if_P [OF True] by auto
  next
    case False
    have "next_task ?k = None"
    proof (rule ccontr)
      assume "next_task ?k \<noteq> None"
      then obtain j where j: "next_task ?k = Some j" by auto
      have "j < length ?q" "ready (?q ! j)" using next_task_lt [OF j k(1)] by simp_all
      then show False using False c by (cases "j = ?c") auto
    qed
    then show ?thesis unfolding if_not_P [OF False] using io advance_task_ok [OF k(1)] by simp
  qed
qed

theorem input_roundtrip_witness:
  "\<exists>g k' k''. kernel_io (call_frame 0 2 0 0) three = ok (g, k') \<and> uart_handler board k' = ok k''
     \<and> queue (tasks k'') ! 0 = (task_of 0 WaitNone 100)\<lparr>waiting_on := WaitNone,
         trap_frame := call_frame 0x41 2 0 0\<rparr>"
proof -
  have "set_reg reg_a0 0x41 (call_frame 0 2 0 0) = call_frame 0x41 2 0 0"
    by (simp add: call_frame_def set_reg_def)
  moreover have "\<exists>i < length (queue (tasks three)). i \<noteq> cur three \<and> waiting_on (queue (tasks three) ! i) = WaitNone"
    by (rule exI [of _ 2]) (simp add: task_of_def)
  ultimately show ?thesis
    using input_roundtrip [of three "call_frame 0 2 0 0" board] by (auto simp: board_def)
qed

section \<open>Traps\<close>

text \<open>Decoding a cause inverts the discriminants of the trap enum, and every cause the decoder
  recognises is the discriminant of what it answers.\<close>

theorem cause_roundtrip:
  "from_cause (trap_code t) = t \<and>
   (from_cause c \<noteq> Reserved \<longrightarrow> trap_code (from_cause c) = c)"
  using code_from_cause by simp

theorem cause_roundtrip_witness:
  "from_cause 9 \<noteq> Reserved \<and> trap_code (from_cause 9) = (9 :: usize)"
  using cause_roundtrip [of SupervisorModeEnvironmentCall 9] by (simp add: from_cause_def)

text \<open>C15. The kernel keeps its scheduler well formed: after any number of traps of any cause, with
  any frames and answers of the devices, except the drop of a thread, the lock of the queue is free,
  the index names a task of the queue, and the queue has grown by at most a task per trap.\<close>

theorem traps_keep_kernel_ok:
  assumes "trap_steps n k k'" and "kernel_ok k" and "length (queue (tasks k)) + n < 2 ^ 64"
  shows "kernel_ok k' \<and> length (queue (tasks k')) \<le> length (queue (tasks k)) + n"
  using trap_steps_grown [OF assms] by (simp add: grown_def)

theorem traps_keep_kernel_ok_witness:
  "\<exists>k'. trap_steps 1 three k' \<and> kernel_ok k' \<and> cur k' = 2"
proof -
  obtain k' where "trap_handler board frame_default (trap_code SupervisorTimerInterrupt) 0 three =
      ok (trap_frame (saved frame_default three ! 2), k')" "cur k' = 2"
    using timer_tick [of three board frame_default 0] switched_ok [of three 2 frame_default]
    by (simp add: board_def cur_def del: trap_code.simps)
  moreover have "\<not> drops_thread (trap_code SupervisorTimerInterrupt) frame_default"
    unfolding drops_thread_def from_cause_code by simp
  ultimately have t: "trap_steps (Suc 0) three k'" by (intro trap [OF none])
  have "kernel_ok k' \<and> length (queue (tasks k')) \<le> length (queue (tasks three)) + Suc 0"
    by (rule traps_keep_kernel_ok [OF t]) simp_all
  with t \<open>cur k' = 2\<close> show ?thesis by auto
qed

end
