(* ===== verification/Hart.thy ===== *)
theory Hart
  imports Task
begin

text \<open>
  The instructions of the naked functions of the kernel, the trap shim (LSD/src/traps/mod.rs) and
  \<open>TaskData::load\<close> (LSD/src/traps/task.rs), on a hart: its integer and floating-point registers,
  the CSRs these functions touch, the reservation of load-reserved, and memory as 8-byte cells.
  Code is a list of instructions; a forward branch says how many instructions it skips. The
  lemmas are about blocks of code: any run of loads or stores relative to one base register.
\<close>

section \<open>Registers and CSRs\<close>

record hart =
  xregs :: "nat \<Rightarrow> u64"
  fregs :: "nat \<Rightarrow> u64"
  fcsr :: u64
  hmem :: "u64 \<rightharpoonup> u64"
  h_sscratch :: u64
  h_sepc :: u64
  h_scause :: u64
  h_stval :: u64
  h_sstatus :: u64
  h_satp :: u64
  h_fences :: nat
  reservation :: "u64 option"
  h_pc :: u64
  h_user :: bool

datatype csr = Sscratch_csr | Sepc_csr | Scause_csr | Stval_csr | Sstatus_csr | Satp_csr

fun csr_read :: "csr \<Rightarrow> hart \<Rightarrow> u64" where
  "csr_read Sscratch_csr h = h_sscratch h"
| "csr_read Sepc_csr h = h_sepc h"
| "csr_read Scause_csr h = h_scause h"
| "csr_read Stval_csr h = h_stval h"
| "csr_read Sstatus_csr h = h_sstatus h"
| "csr_read Satp_csr h = h_satp h"

fun csr_write :: "csr \<Rightarrow> u64 \<Rightarrow> hart \<Rightarrow> hart" where
  "csr_write Sscratch_csr v h = h\<lparr>h_sscratch := v\<rparr>"
| "csr_write Sepc_csr v h = h\<lparr>h_sepc := v\<rparr>"
| "csr_write Scause_csr v h = h\<lparr>h_scause := v\<rparr>"
| "csr_write Stval_csr v h = h\<lparr>h_stval := v\<rparr>"
| "csr_write Sstatus_csr v h = h\<lparr>h_sstatus := v\<rparr>"
| "csr_write Satp_csr v h = h\<lparr>h_satp := v\<rparr>"

text \<open>Register \<open>x0\<close> is zero whatever is written to it.\<close>

definition set_x :: "nat \<Rightarrow> u64 \<Rightarrow> hart \<Rightarrow> hart" where
  "set_x r v h = (if r = 0 then h else h\<lparr>xregs := (xregs h)(r := v)\<rparr>)"

definition get_x :: "nat \<Rightarrow> hart \<Rightarrow> u64" where
  "get_x r h = (if r = 0 then 0 else xregs h r)"

section \<open>Instructions\<close>

datatype instr =
    Csrrw nat csr nat          \<comment> \<open>\<open>csrrw rd, csr, rs\<close>\<close>
  | Csrr nat csr
  | Csrw csr nat
  | Csrs csr nat
  | Csrc csr nat
  | Sd nat u64 nat             \<comment> \<open>\<open>sd rs, offset(base)\<close>\<close>
  | Ld nat u64 nat
  | Fsd nat u64 nat
  | Fld nat u64 nat
  | Addi nat nat u64
  | Andi nat nat u64
  | Srli nat nat nat
  | Li nat u64
  | Mv nat nat
  | Bne nat nat nat            \<comment> \<open>the number of instructions skipped\<close>
  | Frcsr nat
  | Fscsr nat
  | Sc_d nat nat u64 nat       \<comment> \<open>\<open>sc.d rd, rs, offset(base)\<close>\<close>
  | Sfence_vma
  | Sret

definition mem_ld :: "u64 \<Rightarrow> hart \<Rightarrow> u64 result" where
  "mem_ld a h = (case hmem h a of None \<Rightarrow> fail (PageFault a) | Some v \<Rightarrow> ok v)"

definition mem_sd :: "u64 \<Rightarrow> u64 \<Rightarrow> hart \<Rightarrow> hart result" where
  "mem_sd a v h = (if hmem h a = None then fail (PageFault a) else ok (h\<lparr>hmem := (hmem h)(a \<mapsto> v)\<rparr>))"

text \<open>\<open>sret\<close> jumps to sepc, in user mode unless SPP is set, and puts SPIE into SIE.\<close>

definition do_sret :: "hart \<Rightarrow> hart" where
  "do_sret h = h\<lparr>h_pc := h_sepc h, h_user := \<not> bit (h_sstatus h) 8,
     h_sstatus := bf_set_flag 8 False (bf_set_flag 5 True (bf_set_flag 1 (bit (h_sstatus h) 5) (h_sstatus h)))\<rparr>"

fun step :: "instr \<Rightarrow> hart \<Rightarrow> hart result" where
  "step (Csrrw d c rs) h = ok (set_x d (csr_read c h) (csr_write c (get_x rs h) h))"
| "step (Csrr d c) h = ok (set_x d (csr_read c h) h)"
| "step (Csrw c rs) h = ok (csr_write c (get_x rs h) h)"
| "step (Csrs c rs) h = ok (csr_write c (csr_read c h OR get_x rs h) h)"
| "step (Csrc c rs) h = ok (csr_write c (csr_read c h AND NOT (get_x rs h)) h)"
| "step (Sd rs i b) h = mem_sd (get_x b h + i) (get_x rs h) h"
| "step (Ld d i b) h = rbind (mem_ld (get_x b h + i) h) (\<lambda>v. ok (set_x d v h))"
| "step (Fsd f i b) h = mem_sd (get_x b h + i) (fregs h f) h"
| "step (Fld f i b) h = rbind (mem_ld (get_x b h + i) h) (\<lambda>v. ok (h\<lparr>fregs := (fregs h)(f := v)\<rparr>))"
| "step (Addi d rs i) h = ok (set_x d (get_x rs h + i) h)"
| "step (Andi d rs i) h = ok (set_x d (get_x rs h AND i) h)"
| "step (Srli d rs n) h = ok (set_x d (drop_bit n (get_x rs h)) h)"
| "step (Li d i) h = ok (set_x d i h)"
| "step (Mv d rs) h = ok (set_x d (get_x rs h) h)"
| "step (Bne r s n) h = ok h"
| "step (Frcsr d) h = ok (set_x d (fcsr h) h)"
| "step (Fscsr rs) h = ok (h\<lparr>fcsr := get_x rs h\<rparr>)"
| "step (Sc_d d rs i b) h =
     (if reservation h = Some (get_x b h + i)
      then rbind (mem_sd (get_x b h + i) (get_x rs h) h) (\<lambda>h. ok (set_x d 0 (h\<lparr>reservation := None\<rparr>)))
      else ok (set_x d 1 (h\<lparr>reservation := None\<rparr>)))"
| "step Sfence_vma h = ok (h\<lparr>h_fences := Suc (h_fences h)\<rparr>)"
| "step Sret h = ok (do_sret h)"

fun skips :: "instr \<Rightarrow> hart \<Rightarrow> nat" where
  "skips (Bne r s n) h = (if get_x r h \<noteq> get_x s h then n else 0)"
| "skips _ h = 0"

function exec :: "instr list \<Rightarrow> hart \<Rightarrow> hart result" where
  "exec [] h = ok h"
| "exec (i # is) h = rbind (step i h) (exec (drop (skips i h) is))"
  by pat_completeness auto
termination by (relation "measure (\<lambda>(is, _). length is)") auto

section \<open>Blocks of code\<close>

definition straight :: "instr list \<Rightarrow> bool" where
  "straight is \<longleftrightarrow> (\<forall>i \<in> set is. \<forall>h. skips i h = 0)"

lemma straight_simps [simp]:
  "straight []" "straight (i # is) \<longleftrightarrow> (\<forall>h. skips i h = 0) \<and> straight is"
  "straight (is @ js) \<longleftrightarrow> straight is \<and> straight js"
  "straight (map (\<lambda>i. Sd (r i) (o1 i) b) xs)" "straight (map (\<lambda>i. Ld (r i) (o1 i) b) xs)"
  "straight (map (\<lambda>i. Fsd (r i) (o1 i) b) xs)" "straight (map (\<lambda>i. Fld (r i) (o1 i) b) xs)"
  by (auto simp: straight_def)

lemma exec_append: "straight is \<Longrightarrow> exec (is @ js) h = rbind (exec is h) (exec js)"
  by (induction "is" arbitrary: h) (auto intro!: rbind_cong)

text \<open>The cells of a run of 8-byte slots from a base.\<close>

definition cell :: "u64 \<Rightarrow> nat \<Rightarrow> u64" where
  "cell b i = b + 8 * of_nat i"

lemma cell_inj: "i < 2 ^ 60 \<Longrightarrow> j < 2 ^ 60 \<Longrightarrow> cell b i = cell b j \<longleftrightarrow> i = j"
proof -
  assume b: "i < 2 ^ 60" "j < 2 ^ 60"
  have u: "unat (8 * of_nat n :: u64) = 8 * n" if "n < 2 ^ 60" for n
    using that by (simp add: unat_word_ariths unat_of_nat)
  have "cell b i = cell b j \<longleftrightarrow> (8 * of_nat i :: u64) = 8 * of_nat j" by (simp add: cell_def)
  also have "\<dots> \<longleftrightarrow> unat (8 * of_nat i :: u64) = unat (8 * of_nat j :: u64)" by (simp add: word_unat_eq_iff)
  finally show ?thesis using u b by simp
qed

lemma unat_cell: "unat b + 8 * i < 2 ^ 64 \<Longrightarrow> unat (cell b i) = unat b + 8 * i"
proof -
  assume a: "unat b + 8 * i < 2 ^ 64"
  then have "i < 2 ^ 61" by simp
  then have i: "unat (8 * of_nat i :: u64) = 8 * i" by (simp add: unat_word_ariths unat_of_nat)
  with a show ?thesis unfolding cell_def by (subst unat_add_lem [THEN iffD1]) simp_all
qed

lemma cell_in_image:
  assumes "i < 100" "I \<subseteq> {..<100}"
  shows "cell b i \<in> cell b ` I \<longleftrightarrow> i \<in> I"
proof
  assume "cell b i \<in> cell b ` I"
  then obtain j where j: "j \<in> I" "cell b i = cell b j" by auto
  then have "i = j" using assms by (subst (asm) cell_inj) auto
  with j show "i \<in> I" by simp
qed simp

lemma cell_in_range [simp]:
  "i < 100 \<Longrightarrow> k \<le> 100 \<Longrightarrow> cell b i \<in> cell b ` {j..<k} \<longleftrightarrow> j \<le> i \<and> i < k"
  using cell_in_image [of i "{j..<k}" b] by (auto simp: subset_eq)

definition stored :: "u64 \<Rightarrow> nat set \<Rightarrow> (nat \<Rightarrow> u64) \<Rightarrow> (u64 \<rightharpoonup> u64) \<Rightarrow> (u64 \<rightharpoonup> u64) \<Rightarrow> bool" where
  "stored b I v m m' \<longleftrightarrow>
     (\<forall>i \<in> I. m' (cell b i) = Some (v i)) \<and> (\<forall>a. a \<notin> cell b ` I \<longrightarrow> m' a = m a)"

lemma stored_Nil [simp]: "stored b {} v m m' \<longleftrightarrow> m' = m"
  by (auto simp: stored_def)

lemma stored_insert:
  assumes "stored b I v (m(cell b i \<mapsto> v i)) m'" "i < 2 ^ 60" "\<forall>j \<in> I. j < 2 ^ 60"
  shows "stored b (insert i I) v m m'"
proof -
  have "m' (cell b i) = Some (v i)"
  proof (cases "i \<in> I")
    case False
    then have "cell b i \<notin> cell b ` I" using assms(2,3) by (auto simp: cell_inj image_iff)
    then show ?thesis using assms(1) by (simp add: stored_def)
  qed (use assms(1) in \<open>simp add: stored_def\<close>)
  then show ?thesis using assms(1) by (auto simp: stored_def)
qed

lemma stored_keeps: "stored b I v m m' \<Longrightarrow> a \<notin> cell b ` I \<Longrightarrow> m' a = m a"
  by (simp add: stored_def)

lemma exec_store_block:
  assumes "\<And>i m. i \<in> set xs \<Longrightarrow> step (f i) (h\<lparr>hmem := m\<rparr>) = mem_sd (cell b i) (v i) (h\<lparr>hmem := m\<rparr>)"
    and "\<And>i m. skips (f i) (h\<lparr>hmem := m\<rparr>) = 0"
    and "\<forall>i \<in> set xs. i < 2 ^ 60 \<and> m0 (cell b i) \<noteq> None"
  shows "\<exists>m. exec (map f xs) (h\<lparr>hmem := m0\<rparr>) = ok (h\<lparr>hmem := m\<rparr>) \<and> stored b (set xs) v m0 m"
  using assms(1,3)
proof (induction xs arbitrary: m0)
  case Nil
  then show ?case by (intro exI [of _ m0]) simp
next
  case (Cons x xs)
  let ?m = "m0(cell b x \<mapsto> v x)"
  have "\<forall>i \<in> set xs. i < 2 ^ 60 \<and> ?m (cell b i) \<noteq> None" using Cons.prems(2) by simp
  then have "\<exists>m. exec (map f xs) (h\<lparr>hmem := ?m\<rparr>) = ok (h\<lparr>hmem := m\<rparr>) \<and> stored b (set xs) v ?m m"
    using Cons.prems(1) by (intro Cons.IH) simp_all
  then obtain m where m: "exec (map f xs) (h\<lparr>hmem := ?m\<rparr>) = ok (h\<lparr>hmem := m\<rparr>)"
    "stored b (set xs) v ?m m" by blast
  have "step (f x) (h\<lparr>hmem := m0\<rparr>) = ok (h\<lparr>hmem := ?m\<rparr>)" using Cons.prems by (simp add: mem_sd_def)
  then have "exec (map f (x # xs)) (h\<lparr>hmem := m0\<rparr>) = ok (h\<lparr>hmem := m\<rparr>)"
    using m(1) assms(2) by (simp del: fun_upd_apply)
  moreover have "stored b (set (x # xs)) v m0 m"
    using stored_insert [OF m(2)] Cons.prems(2) by simp
  ultimately show ?case by blast
qed

lemma exec_stores:
  assumes "\<forall>i \<in> set xs. i < 2 ^ 60 \<and> hmem h (cell (get_x b h) i) \<noteq> None"
  obtains m where "exec (map (\<lambda>i. Sd i (8 * of_nat i) b) xs) h = ok (h\<lparr>hmem := m\<rparr>)"
    and "stored (get_x b h) (set xs) (\<lambda>i. get_x i h) (hmem h) m"
proof -
  have g: "get_x r (h\<lparr>hmem := m\<rparr>) = get_x r h" for r m by (simp add: get_x_def)
  have "\<exists>m. exec (map (\<lambda>i. Sd i (8 * of_nat i) b) xs) (h\<lparr>hmem := hmem h\<rparr>) = ok (h\<lparr>hmem := m\<rparr>)
      \<and> stored (get_x b h) (set xs) (\<lambda>i. get_x i h) (hmem h) m"
    by (rule exec_store_block) (use assms in \<open>simp_all add: g cell_def\<close>)
  then show thesis using that by auto
qed

lemma exec_fstores:
  assumes "\<forall>i \<in> set xs. i < 2 ^ 60 \<and> hmem h (cell (get_x b h) i) \<noteq> None"
  obtains m where "exec (map (\<lambda>i. Fsd i (8 * of_nat i) b) xs) h = ok (h\<lparr>hmem := m\<rparr>)"
    and "stored (get_x b h) (set xs) (fregs h) (hmem h) m"
proof -
  have g: "get_x r (h\<lparr>hmem := m\<rparr>) = get_x r h" for r m by (simp add: get_x_def)
  have "\<exists>m. exec (map (\<lambda>i. Fsd i (8 * of_nat i) b) xs) (h\<lparr>hmem := hmem h\<rparr>) = ok (h\<lparr>hmem := m\<rparr>)
      \<and> stored (get_x b h) (set xs) (fregs h) (hmem h) m"
    by (rule exec_store_block) (use assms in \<open>simp_all add: g cell_def\<close>)
  then show thesis using that by auto
qed

lemma exec_loads:
  assumes "\<forall>i \<in> set xs. i \<noteq> 0 \<and> i \<noteq> b \<and> hmem h (cell (get_x b h) i) = Some (v i)"
  shows "exec (map (\<lambda>i. Ld i (8 * of_nat i) b) xs) h
    = ok (h\<lparr>xregs := (\<lambda>r. if r \<in> set xs then v r else xregs h r)\<rparr>)"
  using assms
proof (induction xs arbitrary: h)
  case (Cons x xs)
  let ?h = "h\<lparr>xregs := (xregs h)(x := v x)\<rparr>"
  have b: "get_x b ?h = get_x b h" using Cons.prems by (simp add: get_x_def)
  have s: "step (Ld x (8 * of_nat x) b) h = ok ?h"
    using Cons.prems by (simp add: mem_ld_def cell_def set_x_def)
  have "exec (map (\<lambda>i. Ld i (8 * of_nat i) b) xs) ?h
      = ok (?h\<lparr>xregs := (\<lambda>r. if r \<in> set xs then v r else xregs ?h r)\<rparr>)"
    by (rule Cons.IH) (use Cons.prems b in auto)
  moreover have "(\<lambda>r. if r \<in> set xs then v r else xregs ?h r) = (\<lambda>r. if r \<in> set (x # xs) then v r else xregs h r)"
    by auto
  ultimately show ?case using s by simp
qed simp

lemma exec_floads:
  assumes "\<forall>i \<in> set xs. hmem h (cell (get_x b h) i) = Some (v i)"
  shows "exec (map (\<lambda>i. Fld i (8 * of_nat i) b) xs) h
    = ok (h\<lparr>fregs := (\<lambda>r. if r \<in> set xs then v r else fregs h r)\<rparr>)"
  using assms
proof (induction xs arbitrary: h)
  case (Cons x xs)
  let ?h = "h\<lparr>fregs := (fregs h)(x := v x)\<rparr>"
  have b: "get_x b ?h = get_x b h" by (simp add: get_x_def)
  have s: "step (Fld x (8 * of_nat x) b) h = ok ?h"
    using Cons.prems by (simp add: mem_ld_def cell_def)
  have "exec (map (\<lambda>i. Fld i (8 * of_nat i) b) xs) ?h
      = ok (?h\<lparr>fregs := (\<lambda>r. if r \<in> set xs then v r else fregs ?h r)\<rparr>)"
    by (rule Cons.IH) (use Cons.prems b in auto)
  moreover have "(\<lambda>r. if r \<in> set xs then v r else fregs ?h r) = (\<lambda>r. if r \<in> set (x # xs) then v r else fregs h r)"
    by auto
  ultimately show ?case using s by simp
qed simp

end
