(* ===== verification/Trap_Shim.thy ===== *)
theory Trap_Shim
  imports Hart
begin

text \<open>
  The trap shim \<open>stvec_trap_shim\<close> (LSD/src/traps/mod.rs) and \<open>TaskData::load\<close>
  (LSD/src/traps/task.rs), instruction by instruction. The shim has a part before and a part after
  the call of \<open>trap_handler\<close>; the compiled handler stands for any change of the hart that follows the
  calling convention. A run of 28 or 32 lines of stores or loads of consecutive registers is written
  as a map over the register numbers: \<open>x\<close>\<open>i\<close> at offset \<open>8 * i\<close> of a trap frame.

  The block that sscratch points to holds the top of the interrupt stack, tp and gp of the kernel
  and a cell for the user's stack pointer. The frame lies 256 bytes below the top; when the
  floating-point state is dirty, its 33 words lie below the frame.
\<close>

section \<open>The code\<close>

definition shim_entry :: "instr list" where
  "shim_entry =
     [Csrrw 31 Sscratch_csr 31, Sd 2 24 31, Ld 2 0 31, Addi 2 2 (-256),
      Sd 1 8 2, Ld 1 24 31, Sd 1 16 2]
     @ map (\<lambda>i. Sd i (8 * of_nat i) 2) [3..<31]
     @ [Ld 4 8 31, Ld 3 16 31, Csrrw 31 Sscratch_csr 31, Sd 31 248 2,
        Csrr 31 Sepc_csr, Sd 31 0 2, Mv 10 2, Csrr 11 Scause_csr, Csrr 12 Stval_csr,
        Csrr 8 Sstatus_csr, Srli 8 8 13, Andi 8 8 3, Li 9 3]
     @ Bne 8 9 37
     # Addi 2 2 (-264)
     # map (\<lambda>i. Fsd i (8 * of_nat i) 2) [0..<32]
     @ [Frcsr 6, Sd 6 256 2, Li 6 (push_bit 13 1), Csrc Sstatus_csr 6]"

definition shim_exit :: "instr list" where
  "shim_exit =
     Bne 8 9 35
     # map (\<lambda>i. Fld i (8 * of_nat i) 2) [0..<32]
     @ [Ld 6 256 2, Fscsr 6, Addi 2 2 264]
     @ [Ld 31 0 2, Csrw Sepc_csr 31, Li 31 (push_bit 5 1), Csrs Sstatus_csr 31, Ld 1 8 2]
     @ map (\<lambda>i. Ld i (8 * of_nat i) 2) [3..<32]
     @ [Sc_d 0 0 0 2, Ld 2 16 2, Sret]"

definition load_code :: "instr list" where
  "load_code =
     [Ld 5 0 10, Csrw Sepc_csr 5, Ld 5 264 10, Csrw Satp_csr 5, Sfence_vma]
     @ map (\<lambda>i. Ld i (8 * of_nat i) 10) ([1..<10] @ [11..<32])
     @ [Ld 10 80 10, Sret]"

section \<open>Frames in memory\<close>

text \<open>A \<open>TrapFrame\<close> at an address: sepc and then the registers in order.\<close>

definition frame_at :: "(u64 \<rightharpoonup> u64) \<Rightarrow> u64 \<Rightarrow> trap_frame \<Rightarrow> bool" where
  "frame_at m b f \<longleftrightarrow> m (cell b 0) = Some (sepc f) \<and> (\<forall>i \<in> {1..31}. m (cell b i) = Some (regs f i))"

text \<open>The user state of a hart that has just trapped.\<close>

definition trapped :: "hart \<Rightarrow> trap_frame" where
  "trapped h = \<lparr>sepc = h_sepc h, regs = xregs h\<rparr>"

definition frame_base :: "hart \<Rightarrow> u64" where
  "frame_base h = the (hmem h (h_sscratch h)) - 256"

definition fp_dirty :: "hart \<Rightarrow> bool" where
  "fp_dirty h \<longleftrightarrow> drop_bit 13 (h_sstatus h) AND 3 = 3"

text \<open>A hart ready to trap: the block of sscratch and the stack below its top are mapped, and the
  stack cells are not those of the block.\<close>

definition shim_ready :: "hart \<Rightarrow> bool" where
  "shim_ready h \<longleftrightarrow>
     (\<forall>i < 4. hmem h (cell (h_sscratch h) i) \<noteq> None)
     \<and> (\<forall>i < 65. hmem h (cell (frame_base h - 264) i) \<noteq> None)
     \<and> (\<forall>i < 65. \<forall>j < 4. cell (frame_base h - 264) i \<noteq> cell (h_sscratch h) j)"

lemma fp_frame: "cell (b - 264) (33 + i) = cell b i"
  by (simp add: cell_def algebra_simps)

lemma frame_in_stack: "i < 32 \<Longrightarrow> \<exists>j < 65. cell b i = cell (b - 264) j"
  by (rule exI [of _ "33 + i"]) (simp add: fp_frame)

lemma cell_numerals:
  "b + 8 = cell b 1" "b + 16 = cell b 2" "b + 24 = cell b 3" "b + 80 = cell b 10" "b + 248 = cell b 31"
  "b + 256 = cell b 32" "b + 264 = cell b 33" "cell b 0 = b"
  by (simp_all add: cell_def)

lemma frame_at_cong:
  assumes "\<And>i. i < 32 \<Longrightarrow> m' (cell b i) = m (cell b i)"
  shows "frame_at m' b f = frame_at m b f"
  using assms by (auto simp: frame_at_def)

section \<open>Entry\<close>

definition entry_saved :: "hart \<Rightarrow> (u64 \<rightharpoonup> u64) \<Rightarrow> bool" where
  "entry_saved h m \<longleftrightarrow> frame_at m (frame_base h) (trapped h)
     \<and> (fp_dirty h \<longrightarrow> (\<forall>i < 32. m (cell (frame_base h - 264) i) = Some (fregs h i))
                        \<and> m (cell (frame_base h - 264) 32) = Some (fcsr h))
     \<and> (\<forall>a. a \<notin> cell (frame_base h - 264) ` {..<65} \<and> a \<noteq> cell (h_sscratch h) 3 \<longrightarrow> m a = hmem h a)"

lemma shim_readyD:
  assumes "shim_ready h"
  shows "i < 4 \<Longrightarrow> hmem h (cell (h_sscratch h) i) \<noteq> None"
    and "i < 32 \<Longrightarrow> hmem h (cell (frame_base h) i) \<noteq> None"
    and "i < 33 \<Longrightarrow> hmem h (cell (frame_base h - 264) i) \<noteq> None"
    and "i < 32 \<Longrightarrow> j < 4 \<Longrightarrow> cell (frame_base h) i \<noteq> cell (h_sscratch h) j"
    and "i < 33 \<Longrightarrow> j < 4 \<Longrightarrow> cell (frame_base h - 264) i \<noteq> cell (h_sscratch h) j"
    and "hmem h (h_sscratch h) = Some (frame_base h + 256)"
proof -
  have all: "\<And>i. i < 4 \<Longrightarrow> hmem h (cell (h_sscratch h) i) \<noteq> None"
      "\<And>i. i < 65 \<Longrightarrow> hmem h (cell (frame_base h - 264) i) \<noteq> None"
      "\<And>i j. i < 65 \<Longrightarrow> j < 4 \<Longrightarrow> cell (frame_base h - 264) i \<noteq> cell (h_sscratch h) j"
    using assms unfolding shim_ready_def by blast+
  show "i < 4 \<Longrightarrow> hmem h (cell (h_sscratch h) i) \<noteq> None" by (rule all(1))
  show "i < 32 \<Longrightarrow> hmem h (cell (frame_base h) i) \<noteq> None"
    using all(2) [of "33 + i"] by (simp only: fp_frame) simp
  show "i < 33 \<Longrightarrow> hmem h (cell (frame_base h - 264) i) \<noteq> None" using all(2) by simp
  show "i < 32 \<Longrightarrow> j < 4 \<Longrightarrow> cell (frame_base h) i \<noteq> cell (h_sscratch h) j"
    using all(3) [of "33 + i" j] by (simp only: fp_frame) simp
  show "i < 33 \<Longrightarrow> j < 4 \<Longrightarrow> cell (frame_base h - 264) i \<noteq> cell (h_sscratch h) j" using all(3) by simp
  show "hmem h (h_sscratch h) = Some (frame_base h + 256)"
    using all(1) [of 0] by (auto simp: frame_base_def cell_def)
qed

lemma entry_head:
  assumes "shim_ready h"
  defines "b \<equiv> frame_base h" and "t \<equiv> h_sscratch h"
  shows "exec [Csrrw 31 Sscratch_csr 31, Sd 2 24 31, Ld 2 0 31, Addi 2 2 (-256), Sd 1 8 2, Ld 1 24 31, Sd 1 16 2] h
    = ok (h\<lparr>xregs := (xregs h)(31 := t, 2 := b, 1 := xregs h 2), h_sscratch := xregs h 31,
            hmem := (hmem h)(cell t 3 \<mapsto> xregs h 2, cell b 1 \<mapsto> xregs h 1, cell b 2 \<mapsto> xregs h 2)\<rparr>)"
proof -
  note r = shim_readyD [OF assms(1), folded b_def t_def]
  have top: "hmem h t = Some (b + 256)" by (rule r(6))
  have d: "t + 24 \<noteq> t" "b + 8 \<noteq> t + 24" "b + 16 \<noteq> t + 24" "b + 8 \<noteq> b + 16"
    using r(4) [of 1 3] r(4) [of 2 3] by (simp_all add: cell_def)
  have n: "hmem h (t + 24) \<noteq> None" "hmem h (b + 8) \<noteq> None" "hmem h (b + 16) \<noteq> None"
    using r(1) [of 3] r(2) [of 1] r(2) [of 2] by (simp_all add: cell_def)
  show ?thesis
    using n unfolding cell_def
    by (simp add: top d d(2,3) [symmetric] get_x_def set_x_def mem_sd_def mem_ld_def t_def [symmetric])
qed

lemma fp_area_apart: "i < 33 \<Longrightarrow> j < 32 \<Longrightarrow> cell (b - 264) i \<noteq> cell b j"
  using cell_inj [of i "33 + j" "b - 264"] by (simp add: fp_frame)

lemma frame_cells_sub: "cell b ` {..<32} \<subseteq> cell (b - 264) ` {..<65}"
  using frame_in_stack [of _ b] by auto

text \<open>The stores of the registers: the memory after them.\<close>

definition mid_saved :: "hart \<Rightarrow> (u64 \<rightharpoonup> u64) \<Rightarrow> bool" where
  "mid_saved h m \<longleftrightarrow> (\<forall>i \<in> {1..<31}. m (cell (frame_base h) i) = Some (xregs h i))
     \<and> (\<forall>a. a \<notin> cell (frame_base h) ` {1..<31} \<and> a \<noteq> cell (h_sscratch h) 3 \<longrightarrow> m a = hmem h a)"

lemma straight_head: "straight [Csrrw 31 Sscratch_csr 31, Sd 2 24 31, Ld 2 0 31, Addi 2 2 (-256),
    Sd 1 8 2, Ld 1 24 31, Sd 1 16 2]"
  by simp

lemma entry_registers:
  assumes "shim_ready h"
  defines "b \<equiv> frame_base h" and "t \<equiv> h_sscratch h"
  shows "\<exists>m. exec ([Csrrw 31 Sscratch_csr 31, Sd 2 24 31, Ld 2 0 31, Addi 2 2 (-256), Sd 1 8 2, Ld 1 24 31, Sd 1 16 2]
      @ map (\<lambda>i. Sd i (8 * of_nat i) 2) [3..<31]) h
    = ok (h\<lparr>xregs := (xregs h)(31 := t, 2 := b, 1 := xregs h 2), h_sscratch := xregs h 31, hmem := m\<rparr>)
    \<and> mid_saved h m"
proof -
  note r = shim_readyD [OF assms(1), folded b_def t_def]
  let ?m = "(hmem h)(cell t 3 \<mapsto> xregs h 2, cell b 1 \<mapsto> xregs h 1, cell b 2 \<mapsto> xregs h 2)"
  let ?h = "h\<lparr>xregs := (xregs h)(31 := t, 2 := b, 1 := xregs h 2), h_sscratch := xregs h 31, hmem := ?m\<rparr>"
  have b: "get_x 2 ?h = b" and v: "\<And>i. i \<in> {3..<31} \<Longrightarrow> get_x i ?h = xregs h i" by (simp_all add: get_x_def)
  have "\<forall>i \<in> set [3..<31]. i < 2 ^ 60 \<and> hmem ?h (cell (get_x 2 ?h) i) \<noteq> None"
    unfolding b
  proof
    fix i :: nat assume "i \<in> set [3..<31]"
    then have i: "i < 31" by (simp only: set_upt atLeastLessThan_iff)
    then have "hmem h (cell b i) \<noteq> None" by (intro r(2)) simp
    then show "i < 2 ^ 60 \<and> hmem ?h (cell b i) \<noteq> None" using i by simp
  qed
  from exec_stores [OF this, unfolded b] obtain m where
    m: "exec (map (\<lambda>i. Sd i (8 * of_nat i) 2) [3..<31]) ?h = ok (?h\<lparr>hmem := m\<rparr>)"
      "stored b (set [3..<31]) (\<lambda>i. get_x i ?h) (hmem ?h) m" .
  have hm: "hmem ?h = ?m" by simp
  have m2: "stored b {3..<31} (\<lambda>i. get_x i ?h) ?m m" using m(2) unfolding hm set_upt .
  have old: "m a = ?m a" if "a \<notin> cell b ` {3..<31}" for a using stored_keeps [OF m2 that] .
  have i3: "cell b i \<notin> cell b ` {3..<31}" if "i < 3" for i
    using that by (subst cell_in_range) simp_all
  have "cell t 3 \<noteq> cell b 1" "cell t 3 \<noteq> cell b 2" "cell b 1 \<noteq> cell b 2"
    using r(4) [of 1 3] r(4) [of 2 3] cell_inj [of 1 2 b] by simp_all
  then have "m (cell b 1) = Some (xregs h 1)" "m (cell b 2) = Some (xregs h 2)"
    using old [OF i3] by simp_all
  moreover have "m (cell b i) = Some (xregs h i)" if "i \<in> {3..<31}" for i
    using m2 v [OF that] that unfolding stored_def by metis
  ultimately have frame: "m (cell b i) = Some (xregs h i)" if "i \<in> {1..<31}" for i
    using that by (cases "i = 1 \<or> i = 2") auto
  have rest: "m a = hmem h a" if "a \<notin> cell b ` {1..<31}" "a \<noteq> cell t 3" for a
  proof -
    have "a \<notin> cell b ` {3..<31}" "a \<noteq> cell b 1" "a \<noteq> cell b 2" using that(1) by auto
    then show ?thesis using old [of a] that(2) by simp
  qed
  have "exec ([Csrrw 31 Sscratch_csr 31, Sd 2 24 31, Ld 2 0 31, Addi 2 2 (-256), Sd 1 8 2, Ld 1 24 31, Sd 1 16 2]
      @ map (\<lambda>i. Sd i (8 * of_nat i) 2) [3..<31]) h = ok (?h\<lparr>hmem := m\<rparr>)"
    unfolding exec_append [OF straight_head] entry_head [OF assms(1), folded b_def t_def] rbind_simps m(1)
    by simp
  then show ?thesis using frame rest unfolding mid_saved_def b_def [symmetric] t_def [symmetric] by auto
qed

text \<open>Up to the test of the floating-point state.\<close>

definition entry_regs :: "hart \<Rightarrow> nat \<Rightarrow> u64" where
  "entry_regs h = (xregs h)(31 := h_sepc h, 2 := frame_base h, 1 := xregs h 2,
     4 := the (hmem h (cell (h_sscratch h) 1)), 3 := the (hmem h (cell (h_sscratch h) 2)),
     10 := frame_base h, 11 := h_scause h, 12 := h_stval h,
     8 := drop_bit 13 (h_sstatus h) AND 3, 9 := 3)"

lemma entry_tail:
  assumes "shim_ready h" "mid_saved h m"
  defines "b \<equiv> frame_base h" and "t \<equiv> h_sscratch h"
  shows "exec [Ld 4 8 31, Ld 3 16 31, Csrrw 31 Sscratch_csr 31, Sd 31 248 2,
        Csrr 31 Sepc_csr, Sd 31 0 2, Mv 10 2, Csrr 11 Scause_csr, Csrr 12 Stval_csr,
        Csrr 8 Sstatus_csr, Srli 8 8 13, Andi 8 8 3, Li 9 3]
      (h\<lparr>xregs := (xregs h)(31 := t, 2 := b, 1 := xregs h 2), h_sscratch := xregs h 31, hmem := m\<rparr>)
    = ok (h\<lparr>xregs := entry_regs h, hmem := m(cell b 31 \<mapsto> xregs h 31, cell b 0 \<mapsto> h_sepc h)\<rparr>)"
proof -
  note r = shim_readyD [OF assms(1), folded b_def t_def]
  have keep: "m a = hmem h a" if "a \<notin> cell b ` {1..<31}" "a \<noteq> cell t 3" for a
    using assms(2) that unfolding mid_saved_def b_def t_def by blast
  have "cell t i \<notin> cell b ` {1..<31}" if "i < 4" for i
  proof
    assume "cell t i \<in> cell b ` {1..<31}"
    then obtain j where "j < 31" "cell t i = cell b j" by auto
    then show False using r(4) [of j i] that by simp
  qed
  then have "m (cell t 1) = hmem h (cell t 1)" "m (cell t 2) = hmem h (cell t 2)"
    using keep [of "cell t 1"] keep [of "cell t 2"] cell_inj [of 1 3 t] cell_inj [of 2 3 t] by simp_all
  then obtain vt vg where v: "m (t + 8) = Some vt" "m (t + 16) = Some vg"
    "the (hmem h (t + 8)) = vt" "the (hmem h (t + 16)) = vg"
    using r(1) [of 1] r(1) [of 2] by (auto simp: cell_def)
  have "m (cell b 0) = hmem h (cell b 0)"
    by (rule keep) (subst cell_in_range, use r(4) [of 0 3] in simp_all)
  moreover have "m (cell b 31) = hmem h (cell b 31)"
    by (rule keep) (subst cell_in_range, use r(4) [of 31 3] in simp_all)
  ultimately have n: "m (b + 248) \<noteq> None" "m b \<noteq> None"
    using r(2) [of 0] r(2) [of 31] by (simp_all add: cell_def)
  have d: "b + 248 \<noteq> b" by simp
  show ?thesis
    using n v
    by (simp add: get_x_def set_x_def mem_sd_def mem_ld_def cell_def entry_regs_def b_def [symmetric]
        t_def [symmetric] fun_upd_twist)
qed

lemma entry_regs_simps [simp]:
  "entry_regs h 1 = xregs h 2" "entry_regs h 2 = frame_base h" "entry_regs h 8 = drop_bit 13 (h_sstatus h) AND 3"
  "entry_regs h 9 = 3" "entry_regs h 10 = frame_base h" "entry_regs h 11 = h_scause h" "entry_regs h 12 = h_stval h"
  "entry_regs h 4 = the (hmem h (cell (h_sscratch h) 1))" "entry_regs h 3 = the (hmem h (cell (h_sscratch h) 2))"
  by (simp_all add: entry_regs_def)

text \<open>The floating-point part: a clean state skips it.\<close>

lemma entry_fp_clean:
  assumes "xregs h 8 \<noteq> xregs h 9"
  shows "exec (Bne 8 9 37 # Addi 2 2 (-264) # map (\<lambda>i. Fsd i (8 * of_nat i) 2) [0..<32]
      @ [Frcsr 6, Sd 6 256 2, Li 6 (push_bit 13 1), Csrc Sstatus_csr 6]) h = ok h"
proof -
  have "drop 37 (Addi 2 2 (-264) # map (\<lambda>i. Fsd i (8 * of_nat i) 2) [0..<32]
      @ [Frcsr 6, Sd 6 256 2, Li 6 (push_bit 13 1), Csrc Sstatus_csr 6]) = []" by simp
  then show ?thesis using assms by (simp only: exec.simps skips.simps) (simp add: get_x_def)
qed

lemma entry_fp_dirty:
  assumes "xregs h 8 = xregs h 9" "\<forall>i < 33. hmem h (cell (xregs h 2 - 264) i) \<noteq> None"
  obtains m where "exec (Bne 8 9 37 # Addi 2 2 (-264) # map (\<lambda>i. Fsd i (8 * of_nat i) 2) [0..<32]
      @ [Frcsr 6, Sd 6 256 2, Li 6 (push_bit 13 1), Csrc Sstatus_csr 6]) h
    = ok (h\<lparr>xregs := (xregs h)(2 := xregs h 2 - 264, 6 := push_bit 13 1), hmem := m,
        h_sstatus := h_sstatus h AND NOT (push_bit 13 1)\<rparr>)"
    and "stored (xregs h 2 - 264) {..<33} (\<lambda>i. if i = 32 then fcsr h else fregs h i) (hmem h) m"
proof -
  let ?b = "xregs h 2 - 264" and ?h = "h\<lparr>xregs := (xregs h)(2 := xregs h 2 - 264)\<rparr>"
  let ?fp = "map (\<lambda>i. Fsd i (8 * of_nat i) 2) [0..<32]"
  have b: "get_x 2 ?h = ?b" by (simp add: get_x_def)
  have "\<forall>i \<in> set [0..<32]. i < 2 ^ 60 \<and> hmem ?h (cell (get_x 2 ?h) i) \<noteq> None"
    unfolding b set_upt using assms(2) by simp
  from exec_fstores [OF this, unfolded b set_upt] obtain m where
    m: "exec ?fp ?h = ok (?h\<lparr>hmem := m\<rparr>)" "stored ?b {0..<32} (fregs ?h) (hmem ?h) m" .
  have "cell ?b 32 \<notin> cell ?b ` {0..<32}" by (subst cell_in_range) simp_all
  then have "m (cell ?b 32) \<noteq> None" using stored_keeps [OF m(2)] assms(2) by simp
  then have n: "m (xregs h 2 - 8) \<noteq> None" by (simp add: cell_def)
  let ?m = "m(cell ?b 32 \<mapsto> fcsr h)"
  have t: "exec [Frcsr 6, Sd 6 256 2, Li 6 (push_bit 13 1), Csrc Sstatus_csr 6] (?h\<lparr>hmem := m\<rparr>)
      = ok (h\<lparr>xregs := (xregs h)(2 := ?b, 6 := push_bit 13 1), hmem := ?m,
          h_sstatus := h_sstatus h AND NOT (push_bit 13 1)\<rparr>)"
    using n by (simp add: get_x_def set_x_def mem_sd_def cell_def)
  have "step (Addi 2 2 (-264)) h = ok ?h" by (simp add: get_x_def set_x_def)
  moreover have "exec (?fp @ [Frcsr 6, Sd 6 256 2, Li 6 (push_bit 13 1), Csrc Sstatus_csr 6]) ?h
      = ok (h\<lparr>xregs := (xregs h)(2 := ?b, 6 := push_bit 13 1), hmem := ?m,
          h_sstatus := h_sstatus h AND NOT (push_bit 13 1)\<rparr>)"
    unfolding exec_append [OF straight_simps(6)] m(1) rbind_simps by (rule t)
  ultimately have "exec (Bne 8 9 37 # Addi 2 2 (-264) # ?fp
      @ [Frcsr 6, Sd 6 256 2, Li 6 (push_bit 13 1), Csrc Sstatus_csr 6]) h
    = ok (h\<lparr>xregs := (xregs h)(2 := ?b, 6 := push_bit 13 1), hmem := ?m,
        h_sstatus := h_sstatus h AND NOT (push_bit 13 1)\<rparr>)"
    using assms(1) by (simp only: exec.simps skips.simps step.simps(15) rbind_simps drop_0 get_x_def if_False simp_thms)
      simp
  moreover have "stored ?b {..<33} (\<lambda>i. if i = 32 then fcsr h else fregs h i) (hmem h) ?m"
  proof -
    have "m (cell ?b i) = Some (fregs h i)" if "i < 32" for i using m(2) that by (simp add: stored_def)
    moreover have "cell ?b i \<noteq> cell ?b 32" if "i < 32" for i using cell_inj [of i 32 ?b] that by simp
    moreover have "m a = hmem h a" if "a \<notin> cell ?b ` {..<33}" for a
    proof -
      have "a \<notin> cell ?b ` {0..<32}" using that by auto
      then show ?thesis using stored_keeps [OF m(2)] by simp
    qed
    ultimately show ?thesis unfolding stored_def by (auto simp: less_Suc_eq_le)
  qed
  ultimately show ?thesis by (rule that)
qed

lemma frame_saved:
  assumes "mid_saved h m"
  defines "b \<equiv> frame_base h"
  defines "m' \<equiv> m(cell b 31 \<mapsto> xregs h 31, cell b 0 \<mapsto> h_sepc h)"
  shows "frame_at m' b (trapped h)"
    and "a \<notin> cell b ` {..<32} \<Longrightarrow> a \<noteq> cell (h_sscratch h) 3 \<Longrightarrow> m' a = hmem h a"
proof -
  have "m' (cell b i) = Some (xregs h i)" if "i \<in> {1..31}" for i
  proof (cases "i = 31")
    case True
    then show ?thesis using cell_inj [of 31 0 b] by (simp add: m'_def)
  next
    case False
    then have "i \<in> {1..<31}" using that by auto
    moreover from this have "cell b i \<noteq> cell b 31" "cell b i \<noteq> cell b 0"
      using cell_inj [of i 31 b] cell_inj [of i 0 b] by simp_all
    ultimately show ?thesis using assms(1) by (simp add: m'_def mid_saved_def b_def)
  qed
  then show "frame_at m' b (trapped h)" by (simp add: frame_at_def trapped_def m'_def)
  assume a: "a \<notin> cell b ` {..<32}" "a \<noteq> cell (h_sscratch h) 3"
  then have "a \<notin> cell b ` {1..<31}" "a \<noteq> cell b 31" "a \<noteq> cell b 0" by auto
  then show "m' a = hmem h a" using assms(1) a(2) unfolding mid_saved_def m'_def b_def by simp
qed

definition entry_done :: "hart \<Rightarrow> hart \<Rightarrow> bool" where
  "entry_done h h' \<longleftrightarrow> entry_saved h (hmem h')
     \<and> xregs h' 10 = frame_base h \<and> xregs h' 11 = h_scause h \<and> xregs h' 12 = h_stval h
     \<and> xregs h' 4 = the (hmem h (cell (h_sscratch h) 1)) \<and> xregs h' 3 = the (hmem h (cell (h_sscratch h) 2))
     \<and> xregs h' 2 = (if fp_dirty h then frame_base h - 264 else frame_base h)
     \<and> xregs h' 8 = drop_bit 13 (h_sstatus h) AND 3 \<and> xregs h' 9 = 3
     \<and> h_sscratch h' = h_sscratch h
     \<and> h_sstatus h' = (if fp_dirty h then h_sstatus h AND NOT (push_bit 13 1) else h_sstatus h)"

lemma shim_entry_outcome:
  assumes r: "shim_ready h"
  shows "\<exists>h'. exec shim_entry h = ok h' \<and> entry_done h h'"
proof -
  let ?b = "frame_base h"
  obtain m where m: "exec ([Csrrw 31 Sscratch_csr 31, Sd 2 24 31, Ld 2 0 31, Addi 2 2 (-256), Sd 1 8 2, Ld 1 24 31, Sd 1 16 2]
      @ map (\<lambda>i. Sd i (8 * of_nat i) 2) [3..<31]) h
    = ok (h\<lparr>xregs := (xregs h)(31 := h_sscratch h, 2 := ?b, 1 := xregs h 2), h_sscratch := xregs h 31, hmem := m\<rparr>)"
    "mid_saved h m" using entry_registers [OF r] by blast
  let ?m = "m(cell ?b 31 \<mapsto> xregs h 31, cell ?b 0 \<mapsto> h_sepc h)"
  let ?h = "h\<lparr>xregs := entry_regs h, hmem := ?m\<rparr>"
  note fs = frame_saved [OF m(2)]
  have tl: "straight [Ld 4 8 31, Ld 3 16 31, Csrrw 31 Sscratch_csr 31, Sd 31 248 2,
        Csrr 31 Sepc_csr, Sd 31 0 2, Mv 10 2, Csrr 11 Scause_csr, Csrr 12 Stval_csr,
        Csrr 8 Sstatus_csr, Srli 8 8 13, Andi 8 8 3, Li 9 3]" by simp
  have hd: "straight ([Csrrw 31 Sscratch_csr 31, Sd 2 24 31, Ld 2 0 31, Addi 2 2 (-256), Sd 1 8 2, Ld 1 24 31, Sd 1 16 2]
      @ map (\<lambda>i. Sd i (8 * of_nat i) 2) [3..<31])"
    unfolding straight_simps(3) by (intro conjI straight_head) (rule straight_simps(4))
  let ?fp = "Bne 8 9 37 # Addi 2 2 (-264) # map (\<lambda>i. Fsd i (8 * of_nat i) 2) [0..<32]
      @ [Frcsr 6, Sd 6 256 2, Li 6 (push_bit 13 1), Csrc Sstatus_csr 6]"
  have e: "exec shim_entry h = exec ?fp ?h"
    unfolding shim_entry_def append_assoc [symmetric, of _ "map (\<lambda>i. Sd i (8 * of_nat i) 2) [3..<31]"]
      exec_append [OF hd] m(1) rbind_simps exec_append [OF tl] entry_tail [OF r m(2)] ..
  have d: "fp_dirty h \<longleftrightarrow> xregs ?h 8 = xregs ?h 9" by (simp add: fp_dirty_def)
  show ?thesis
  proof (cases "fp_dirty h")
    case False
    then have "exec shim_entry h = ok ?h" unfolding e d by (intro entry_fp_clean)
    moreover have "entry_saved h ?m"
      unfolding entry_saved_def using fs False frame_cells_sub [of ?b] by blast
    ultimately show ?thesis using False by (auto simp: entry_done_def simp del: fun_upd_apply)
  next
    case True
    have "?m (cell (?b - 264) i) \<noteq> None" if "i < 33" for i
    proof -
      have "cell (?b - 264) i \<notin> cell ?b ` {..<32}" using fp_area_apart [OF that, of _ ?b] by blast
      then have "?m (cell (?b - 264) i) = hmem h (cell (?b - 264) i)"
        using shim_readyD(5) [OF r that] by (intro fs(2)) simp_all
      then show ?thesis using shim_readyD(3) [OF r that] by simp
    qed
    then have "\<forall>i < 33. hmem ?h (cell (xregs ?h 2 - 264) i) \<noteq> None" by (simp del: fun_upd_apply)
    from entry_fp_dirty [OF _ this] True obtain m' where
      m': "exec ?fp ?h = ok (?h\<lparr>xregs := (xregs ?h)(2 := xregs ?h 2 - 264, 6 := push_bit 13 1), hmem := m',
        h_sstatus := h_sstatus ?h AND NOT (push_bit 13 1)\<rparr>)"
      "stored (xregs ?h 2 - 264) {..<33} (\<lambda>i. if i = 32 then fcsr ?h else fregs ?h i) (hmem ?h) m'"
      unfolding d by blast
    have st: "stored (?b - 264) {..<33} (\<lambda>i. if i = 32 then fcsr h else fregs h i) ?m m'"
    proof -
      have hh: "xregs ?h = entry_regs h" "fcsr ?h = fcsr h" "fregs ?h = fregs h" "hmem ?h = ?m" by simp_all
      show ?thesis using m'(2) unfolding hh entry_regs_simps .
    qed
    have "m' (cell ?b i) = ?m (cell ?b i)" if "i < 32" for i
    proof (rule stored_keeps [OF st])
      show "cell ?b i \<notin> cell (?b - 264) ` {..<33}"
      proof
        assume "cell ?b i \<in> cell (?b - 264) ` {..<33}"
        then obtain j where "j < 33" "cell (?b - 264) j = cell ?b i" by auto
        then show False using fp_area_apart [OF _ that] by blast
      qed
    qed
    then have "frame_at m' ?b (trapped h)" using fs(1) frame_at_cong [of m' ?b ?m] by simp
    moreover have "m' a = hmem h a"
      if "a \<notin> cell (?b - 264) ` {..<65}" "a \<noteq> cell (h_sscratch h) 3" for a
    proof -
      have "a \<notin> cell (?b - 264) ` {..<33}" "a \<notin> cell ?b ` {..<32}" using that(1) frame_cells_sub [of ?b] by auto
      then show ?thesis using stored_keeps [OF st] fs(2) that(2) by (simp del: fun_upd_apply)
    qed
    ultimately have "entry_saved h m'"
      using st unfolding entry_saved_def stored_def by auto
    then have "entry_done h (?h\<lparr>xregs := (xregs ?h)(2 := xregs ?h 2 - 264, 6 := push_bit 13 1), hmem := m',
        h_sstatus := h_sstatus ?h AND NOT (push_bit 13 1)\<rparr>)"
      using True by (simp add: entry_done_def)
    then show ?thesis using m'(1) unfolding e by blast
  qed
qed

section \<open>Exit\<close>

text \<open>The part that restores a frame at the stack pointer.\<close>

definition restore_code :: "instr list" where
  "restore_code =
     [Ld 31 0 2, Csrw Sepc_csr 31, Li 31 (push_bit 5 1), Csrs Sstatus_csr 31, Ld 1 8 2]
     @ map (\<lambda>i. Ld i (8 * of_nat i) 2) [3..<32]
     @ [Sc_d 0 0 0 2, Ld 2 16 2, Sret]"

definition fp_code :: "instr list" where
  "fp_code = map (\<lambda>i. Fld i (8 * of_nat i) 2) [0..<32] @ [Ld 6 256 2, Fscsr 6, Addi 2 2 264]"

lemma shim_exit_split: "shim_exit = Bne 8 9 35 # fp_code @ restore_code"
  by (simp only: shim_exit_def fp_code_def restore_code_def append_assoc append_Cons)

lemma length_fp_code: "length fp_code = 35"
  by (simp only: fp_code_def length_append length_map length_upt list.size)

lemma straight_fp_code: "straight fp_code"
  unfolding fp_code_def straight_simps(3) by (intro conjI straight_simps(7)) simp

text \<open>The frame restored: registers, program counter, and interrupts enabled again.\<close>

definition resumed :: "trap_frame \<Rightarrow> hart \<Rightarrow> hart \<Rightarrow> bool" where
  "resumed f h h' \<longleftrightarrow> (\<forall>r \<in> {1..31}. xregs h' r = regs f r) \<and> h_pc h' = sepc f
     \<and> bit (h_sstatus h') 1 \<and> h_user h' = (\<not> bit (h_sstatus h) 8)
     \<and> fregs h' = fregs h \<and> fcsr h' = fcsr h \<and> h_sscratch h' = h_sscratch h \<and> h_satp h' = h_satp h"

lemma restore_outcome:
  assumes b: "xregs h 2 = b" and f: "frame_at (hmem h) b f"
  shows "\<exists>h'. exec restore_code h = ok h' \<and> resumed f h h'"
proof -
  have m: "hmem h (cell b 0) = Some (sepc f)" "\<And>i. i \<in> {1..31} \<Longrightarrow> hmem h (cell b i) = Some (regs f i)"
    using f by (simp_all add: frame_at_def)
  let ?ss = "h_sstatus h OR push_bit 5 1"
  let ?h1 = "h\<lparr>xregs := (xregs h)(31 := push_bit 5 1, 1 := regs f 1), h_sepc := sepc f, h_sstatus := ?ss\<rparr>"
  have h1: "exec [Ld 31 0 2, Csrw Sepc_csr 31, Li 31 (push_bit 5 1), Csrs Sstatus_csr 31, Ld 1 8 2] h = ok ?h1"
    using m(1) m(2) [of 1] b by (simp add: get_x_def set_x_def mem_ld_def cell_def)
  let ?h2 = "?h1\<lparr>xregs := (\<lambda>r. if r \<in> set [3..<32] then regs f r else xregs ?h1 r)\<rparr>"
  have g: "get_x 2 ?h1 = b" and hm: "hmem ?h1 = hmem h" using b by (simp_all add: get_x_def)
  have "\<forall>i \<in> set [3..<32]. i \<noteq> 0 \<and> i \<noteq> 2 \<and> hmem ?h1 (cell (get_x 2 ?h1) i) = Some (regs f i)"
    unfolding g hm set_upt using m(2) by auto
  from exec_loads [OF this] have h2: "exec (map (\<lambda>i. Ld i (8 * of_nat i) 2) [3..<32]) ?h1 = ok ?h2" .
  have x2: "xregs ?h2 = (\<lambda>r. if r \<in> {3..<32} then regs f r else ((xregs h)(31 := push_bit 5 1, 1 := regs f 1)) r)"
    unfolding set_upt by (simp add: fun_eq_iff)
  define h2 where "h2 = ?h2"
  have fields: "xregs h2 = (\<lambda>r. if r \<in> {3..<32} then regs f r else ((xregs h)(31 := push_bit 5 1, 1 := regs f 1)) r)"
    "hmem h2 = hmem h" "reservation h2 = reservation h" "h_sstatus h2 = ?ss" "h_sepc h2 = sepc f"
    "fregs h2 = fregs h" "fcsr h2 = fcsr h" "h_sscratch h2 = h_sscratch h" "h_satp h2 = h_satp h"
    unfolding h2_def x2 by simp_all
  have sp: "xregs h2 2 = b" using b by (simp add: fields)
  let ?m = "if reservation h = Some b then (hmem h2)(b \<mapsto> 0) else hmem h2"
  let ?h3 = "h2\<lparr>hmem := ?m, reservation := None, xregs := (xregs h2)(2 := regs f 2)\<rparr>"
  have "hmem h2 (b + 16) = Some (regs f 2)" "hmem h2 b = Some (sepc f)"
    using m(1) m(2) [of 2] by (simp_all add: cell_def fields(2))
  then have h3: "exec [Sc_d 0 0 0 2, Ld 2 16 2, Sret] h2 = ok (do_sret ?h3)"
    by (simp add: get_x_def set_x_def mem_ld_def mem_sd_def sp fields(3))
  have "straight [Ld 31 0 2, Csrw Sepc_csr 31, Li 31 (push_bit 5 1), Csrs Sstatus_csr 31, Ld 1 8 2]" by simp
  then have e: "exec restore_code h = ok (do_sret ?h3)"
    unfolding restore_code_def
    by (simp only: exec_append h1 rbind_simps exec_append [OF straight_simps(5)] h2 h2_def [symmetric] h3)
  have "bit ?ss 5" "bit ?ss 8 = bit (h_sstatus h) 8" by (simp_all add: bit_or_iff bit_push_bit_iff bit_1_iff)
  moreover have "xregs (do_sret ?h3) r = regs f r" if "r \<in> {1..31}" for r
  proof -
    have "r = 1 \<or> r = 2 \<or> 3 \<le> r \<and> r < 32" using that by (simp, linarith)
    then show ?thesis by (elim disjE) (simp_all add: do_sret_def fields)
  qed
  ultimately have "resumed f h (do_sret ?h3)"
    unfolding resumed_def by (auto simp: do_sret_def fields bit_bf_set_flag)
  with e show ?thesis by blast
qed

lemma fp_outcome:
  assumes "\<forall>i < 33. hmem h (cell (xregs h 2) i) = Some (fp i)"
  obtains x where "exec fp_code h = ok (h\<lparr>fregs := (\<lambda>r. if r < 32 then fp r else fregs h r), fcsr := fp 32, xregs := x\<rparr>)"
    "x 2 = xregs h 2 + 264"
proof -
  have g: "get_x 2 h = xregs h 2" by (simp add: get_x_def)
  have "\<forall>i \<in> set [0..<32]. hmem h (cell (get_x 2 h) i) = Some (fp i)" unfolding g set_upt using assms by simp
  from exec_floads [OF this] have
    "exec (map (\<lambda>i. Fld i (8 * of_nat i) 2) [0..<32]) h = ok (h\<lparr>fregs := (\<lambda>r. if r < 32 then fp r else fregs h r)\<rparr>)"
    unfolding set_upt atLeastLessThan_iff by simp
  moreover have "hmem h (xregs h 2 + 256) = Some (fp 32)" using assms [rule_format, of 32] by (simp add: cell_def)
  then have "exec [Ld 6 256 2, Fscsr 6, Addi 2 2 264] (h\<lparr>fregs := fr\<rparr>)
      = ok (h\<lparr>fregs := fr, fcsr := fp 32, xregs := (xregs h)(6 := fp 32, 2 := xregs h 2 + 264)\<rparr>)" for fr
    by (simp add: get_x_def set_x_def mem_ld_def fun_upd_twist)
  ultimately have "exec fp_code h = ok (h\<lparr>fregs := (\<lambda>r. if r < 32 then fp r else fregs h r), fcsr := fp 32,
      xregs := (xregs h)(6 := fp 32, 2 := xregs h 2 + 264)\<rparr>)"
    unfolding fp_code_def exec_append [OF straight_simps(7)] by (simp only: rbind_simps)
  then show ?thesis by (rule that) simp
qed

lemma shim_exit_outcome:
  assumes f: "frame_at (hmem h) b f"
    and sp: "xregs h 2 = (if xregs h 8 = xregs h 9 then b - 264 else b)"
    and fp: "xregs h 8 = xregs h 9 \<longrightarrow> (\<forall>i < 33. hmem h (cell (b - 264) i) = Some (fp i))"
  shows "\<exists>h1 h'. exec shim_exit h = ok h' \<and> resumed f h1 h'
    \<and> h_sstatus h1 = h_sstatus h \<and> h_sscratch h1 = h_sscratch h \<and> h_satp h1 = h_satp h
    \<and> (if xregs h 8 = xregs h 9 then (\<forall>i < 32. fregs h1 i = fp i) \<and> fcsr h1 = fp 32
       else fregs h1 = fregs h \<and> fcsr h1 = fcsr h)"
proof (cases "xregs h 8 = xregs h 9")
  case True
  then obtain x where x: "exec fp_code h = ok (h\<lparr>fregs := (\<lambda>r. if r < 32 then fp r else fregs h r), fcsr := fp 32, xregs := x\<rparr>)"
    "x 2 = b" using fp_outcome [of h fp] sp fp by (auto simp: algebra_simps)
  let ?h = "h\<lparr>fregs := (\<lambda>r. if r < 32 then fp r else fregs h r), fcsr := fp 32, xregs := x\<rparr>"
  obtain h' where "exec restore_code ?h = ok h'" "resumed f ?h h'"
    using restore_outcome [of ?h b f] x(2) f by auto
  moreover have "exec shim_exit h = exec restore_code ?h"
    using True by (simp add: shim_exit_split get_x_def exec_append [OF straight_fp_code] x(1))
  ultimately show ?thesis using True by (intro exI [of _ ?h] exI [of _ h']) simp
next
  case False
  then obtain h' where "exec restore_code h = ok h'" "resumed f h h'"
    using restore_outcome [of h b f] sp f by auto
  moreover have "exec shim_exit h = exec restore_code h"
    using False by (simp add: shim_exit_split get_x_def length_fp_code [symmetric])
  ultimately show ?thesis using False by auto
qed

section \<open>Starting a task\<close>

lemma load_outcome:
  assumes b: "xregs h 10 = b" and f: "frame_at (hmem h) b f" and t: "hmem h (cell b 33) = Some table"
  shows "\<exists>h'. exec load_code h = ok h' \<and> (\<forall>r \<in> {1..31}. xregs h' r = regs f r) \<and> h_pc h' = sepc f
    \<and> h_satp h' = table \<and> h_fences h' = Suc (h_fences h) \<and> h_user h' = (\<not> bit (h_sstatus h) 8)"
proof -
  have m: "hmem h (cell b 0) = Some (sepc f)" "\<And>i. i \<in> {1..31} \<Longrightarrow> hmem h (cell b i) = Some (regs f i)"
    using f by (simp_all add: frame_at_def)
  let ?h1 = "h\<lparr>xregs := (xregs h)(5 := table), h_sepc := sepc f, h_satp := table, h_fences := Suc (h_fences h)\<rparr>"
  have h1: "exec [Ld 5 0 10, Csrw Sepc_csr 5, Ld 5 264 10, Csrw Satp_csr 5, Sfence_vma] h = ok ?h1"
    using m(1) t b by (simp add: get_x_def set_x_def mem_ld_def cell_def)
  let ?xs = "[1..<10] @ [11..<32]"
  have S: "set ?xs = {1..<10} \<union> {11..<32}" unfolding set_append set_upt ..
  let ?h2 = "?h1\<lparr>xregs := (\<lambda>r. if r \<in> set ?xs then regs f r else xregs ?h1 r)\<rparr>"
  have g: "get_x 10 ?h1 = b" and hm: "hmem ?h1 = hmem h" using b by (simp_all add: get_x_def)
  have "\<forall>i \<in> set ?xs. i \<noteq> 0 \<and> i \<noteq> 10 \<and> hmem ?h1 (cell (get_x 10 ?h1) i) = Some (regs f i)"
    unfolding g hm S using m(2) by auto
  from exec_loads [OF this] have h2: "exec (map (\<lambda>i. Ld i (8 * of_nat i) 10) ?xs) ?h1 = ok ?h2" .
  have x2: "xregs ?h2 = (\<lambda>r. if r \<in> {1..<10} \<union> {11..<32} then regs f r else ((xregs h)(5 := table)) r)"
    unfolding S by (simp add: fun_eq_iff)
  define h2 where "h2 = ?h2"
  have fields: "xregs h2 = (\<lambda>r. if r \<in> {1..<10} \<union> {11..<32} then regs f r else ((xregs h)(5 := table)) r)"
    "hmem h2 = hmem h" "h_sstatus h2 = h_sstatus h" "h_sepc h2 = sepc f" "h_satp h2 = table"
    "h_fences h2 = Suc (h_fences h)"
    unfolding h2_def x2 by simp_all
  let ?h3 = "h2\<lparr>xregs := (xregs h2)(10 := regs f 10)\<rparr>"
  have "hmem h2 (b + 80) = Some (regs f 10)" "xregs h2 10 = b"
    using m(2) [of 10] b by (simp_all add: cell_def fields)
  then have h3: "exec [Ld 10 80 10, Sret] h2 = ok (do_sret ?h3)"
    by (simp add: get_x_def set_x_def mem_ld_def)
  have "straight [Ld 5 0 10, Csrw Sepc_csr 5, Ld 5 264 10, Csrw Satp_csr 5, Sfence_vma]" by simp
  then have e: "exec load_code h = ok (do_sret ?h3)"
    unfolding load_code_def
    by (simp only: exec_append h1 rbind_simps exec_append [OF straight_simps(5)] h2 h2_def [symmetric] h3)
  have "xregs (do_sret ?h3) r = regs f r" if "r \<in> {1..31}" for r
  proof -
    have "r = 10 \<or> 1 \<le> r \<and> r < 10 \<or> 11 \<le> r \<and> r < 32" using that by (simp, linarith)
    then show ?thesis by (elim disjE) (simp_all add: do_sret_def fields)
  qed
  with e show ?thesis by (intro exI [of _ "do_sret ?h3"]) (simp add: do_sret_def fields)
qed

section \<open>Properties\<close>

text \<open>C22. The trap shim is transparent: it hands the handler the interrupted program's frame, with
  the cause and the value of the trap, and the kernel's tp and gp; and once the handler returned by
  the calling convention, whatever frame is there then is in the registers, at its program counter
  and with interrupts on. Dirty floating-point registers are those of the interrupted program again,
  also when the frame is that of another task.\<close>

theorem shim_is_transparent:
  assumes "shim_ready h"
  shows "\<exists>h1. exec shim_entry h = ok h1 \<and> frame_at (hmem h1) (xregs h1 10) (trapped h)
    \<and> xregs h1 11 = h_scause h \<and> xregs h1 12 = h_stval h
    \<and> xregs h1 4 = the (hmem h (cell (h_sscratch h) 1)) \<and> xregs h1 3 = the (hmem h (cell (h_sscratch h) 2))
    \<and> (\<forall>h2 f. xregs h2 2 = xregs h1 2 \<and> xregs h2 8 = xregs h1 8 \<and> xregs h2 9 = xregs h1 9
          \<and> frame_at (hmem h2) (xregs h1 10) f
          \<and> (\<forall>i < 33. hmem h2 (cell (xregs h1 10 - 264) i) = hmem h1 (cell (xregs h1 10 - 264) i))
        \<longrightarrow> (\<exists>h3. exec shim_exit h2 = ok h3 \<and> (\<forall>r \<in> {1..31}. xregs h3 r = regs f r)
              \<and> h_pc h3 = sepc f \<and> bit (h_sstatus h3) 1
              \<and> (if fp_dirty h then (\<forall>i < 32. fregs h3 i = fregs h i) \<and> fcsr h3 = fcsr h
                 else fregs h3 = fregs h2 \<and> fcsr h3 = fcsr h2)))"
proof -
  obtain h1 where h1: "exec shim_entry h = ok h1" "entry_done h h1" using shim_entry_outcome [OF assms] by blast
  let ?b = "frame_base h" and ?fp = "\<lambda>i. if i = 32 then fcsr h else fregs h i"
  have d: "entry_saved h (hmem h1)" "xregs h1 10 = ?b" "xregs h1 2 = (if fp_dirty h then ?b - 264 else ?b)"
    "xregs h1 8 = xregs h1 9 \<longleftrightarrow> fp_dirty h"
    using h1(2) by (auto simp: entry_done_def fp_dirty_def)
  have "\<exists>h3. exec shim_exit h2 = ok h3 \<and> (\<forall>r \<in> {1..31}. xregs h3 r = regs f r)
      \<and> h_pc h3 = sepc f \<and> bit (h_sstatus h3) 1
      \<and> (if fp_dirty h then (\<forall>i < 32. fregs h3 i = fregs h i) \<and> fcsr h3 = fcsr h
         else fregs h3 = fregs h2 \<and> fcsr h3 = fcsr h2)"
    if h2: "xregs h2 2 = xregs h1 2" "xregs h2 8 = xregs h1 8" "xregs h2 9 = xregs h1 9"
      "frame_at (hmem h2) ?b f" "\<forall>i < 33. hmem h2 (cell (?b - 264) i) = hmem h1 (cell (?b - 264) i)" for h2 f
  proof -
    have "fp_dirty h \<longrightarrow> (\<forall>i < 33. hmem h2 (cell (?b - 264) i) = Some (?fp i))"
      using d(1) h2(5) by (auto simp: entry_saved_def less_Suc_eq numeral_eq_Suc)
    then obtain h' h3 where "exec shim_exit h2 = ok h3" "resumed f h' h3"
      "if fp_dirty h then (\<forall>i < 32. fregs h' i = ?fp i) \<and> fcsr h' = ?fp 32 else fregs h' = fregs h2 \<and> fcsr h' = fcsr h2"
      using shim_exit_outcome [of h2 ?b f ?fp] h2(1-4) d(3,4) by auto
    then show ?thesis by (auto simp: resumed_def split: if_splits)
  qed
  with h1 d(1,2) show ?thesis by (intro exI [of _ h1]) (auto simp: entry_done_def entry_saved_def)
qed

definition user_hart :: hart where
  "user_hart = \<lparr>xregs = (\<lambda>r. of_nat r + 100), fregs = (\<lambda>r. of_nat r + 200), fcsr = 7,
     hmem = (\<lambda>_. Some 0x8000), h_sscratch = 0x1000, h_sepc = 0x4000, h_scause = 8, h_stval = 0,
     h_sstatus = 0x6000, h_satp = 0, h_fences = 0, reservation = None, h_pc = 0, h_user = False\<rparr>"

lemma user_hart_ready: "shim_ready user_hart" "fp_dirty user_hart"
proof -
  have b: "frame_base user_hart = 0x7f00" by (simp add: frame_base_def user_hart_def)
  have "cell (0x7f00 - 264) i \<noteq> cell 0x1000 j" if "i < 65" "j < 4" for i j :: nat
  proof -
    have "unat (cell (0x7f00 - 264) i) = 32248 + 8 * i" "unat (cell 0x1000 j) = 4096 + 8 * j"
      using that by (subst unat_cell; simp)+
    then show ?thesis using that by auto
  qed
  then show "shim_ready user_hart" unfolding shim_ready_def b by (simp add: user_hart_def)
  show "fp_dirty user_hart" unfolding fp_dirty_def user_hart_def by code_simp
qed

theorem shim_is_transparent_witness:
  "\<exists>h1 h3. exec shim_entry user_hart = ok h1 \<and> exec shim_exit h1 = ok h3
     \<and> (\<forall>r \<in> {1..31}. xregs h3 r = of_nat r + 100) \<and> h_pc h3 = 0x4000 \<and> fregs h3 5 = 205"
proof -
  obtain h1 where h1: "exec shim_entry user_hart = ok h1" "frame_at (hmem h1) (xregs h1 10) (trapped user_hart)"
    and all: "\<forall>h2 f. xregs h2 2 = xregs h1 2 \<and> xregs h2 8 = xregs h1 8 \<and> xregs h2 9 = xregs h1 9
          \<and> frame_at (hmem h2) (xregs h1 10) f
          \<and> (\<forall>i < 33. hmem h2 (cell (xregs h1 10 - 264) i) = hmem h1 (cell (xregs h1 10 - 264) i))
        \<longrightarrow> (\<exists>h3. exec shim_exit h2 = ok h3 \<and> (\<forall>r \<in> {1..31}. xregs h3 r = regs f r)
              \<and> h_pc h3 = sepc f \<and> bit (h_sstatus h3) 1
              \<and> (if fp_dirty user_hart then (\<forall>i < 32. fregs h3 i = fregs user_hart i) \<and> fcsr h3 = fcsr user_hart
                 else fregs h3 = fregs h2 \<and> fcsr h3 = fcsr h2))"
    using shim_is_transparent [OF user_hart_ready(1)] by blast
  from all [rule_format, of h1 "trapped user_hart"] h1(2) obtain h3 where "exec shim_exit h1 = ok h3" "\<forall>r \<in> {1..31}. xregs h3 r = regs (trapped user_hart) r"
    "h_pc h3 = sepc (trapped user_hart)" "\<forall>i < 32. fregs h3 i = fregs user_hart i"
    using user_hart_ready(2) by auto
  then show ?thesis using h1(1) by (auto simp: trapped_def user_hart_def)
qed

end
