(* ===== verification/Dma.thy ===== *)
theory Dma
  imports Bytes Vmm_Alloc
begin

text \<open>
  Regions for devices, LSD/src/memory/dma.rs: contiguous frames of the free list with their physical
  and their virtual address. A region of a type is its addresses and its metadata (the number of
  elements of a slice); what a typed region holds is kept by the structure that owns it.
  \<open>size_of::<T>()\<close> and \<open>size_of_val_raw\<close> are arguments, and \<open>claim_continuous(..).unwrap()\<close> stops the
  kernel when there is no run of frames. \<open>assume_init\<close> only changes the type of a region and
  \<open>drop\<close> does nothing, so a region never returns its frames.
\<close>

section \<open>Operations\<close>

record dma_region =
  phys :: u64
  virt :: u64
  elements :: usize

text \<open>The common part: the frames for \<open>size\<close> bytes, and the region at the address claimed, which
  \<open>NonNull::new(..).unwrap()\<close> checks.\<close>

definition dma_frames :: "usize \<Rightarrow> usize" where
  "dma_frames sz = sz div 4096 + (if sz mod 4096 \<noteq> 0 then 1 else 0)"

definition dma_claim :: "usize \<Rightarrow> machine \<Rightarrow> (u64 \<times> machine) result" where
  "dma_claim sz s = rbind (claim_continuous s (dma_frames sz)) unwrap_res"

definition zero_bytes :: "u64 \<Rightarrow> usize \<Rightarrow> machine \<Rightarrow> machine result" where
  "zero_bytes alloc sz s = rfold (\<lambda>i s. wr_byte s (alloc + of_nat i) 0) [0..<unat sz] s"

definition dma_at :: "u64 \<Rightarrow> usize \<Rightarrow> machine \<Rightarrow> (dma_region \<times> machine) result" where
  "dma_at alloc n s =
     (if alloc = 0 then fail UnwrapNone
      else ok (\<lparr>phys = pa_from_ptr s alloc, virt = alloc, elements = n\<rparr>, s))"

definition dma_new_many :: "usize \<Rightarrow> usize \<Rightarrow> machine \<Rightarrow> (dma_region \<times> machine) result" where
  "dma_new_many elem n s =
     rbind (dma_claim (elem * n) s) (\<lambda>(alloc, s). dma_at alloc n s)"

definition dma_zeroed_many :: "usize \<Rightarrow> usize \<Rightarrow> machine \<Rightarrow> (dma_region \<times> machine) result" where
  "dma_zeroed_many elem n s =
     rbind (dma_claim (elem * n) s) (\<lambda>(alloc, s).
     rbind (zero_bytes alloc (elem * n) s) (\<lambda>s. dma_at alloc n s))"

definition dma_new_raw :: "usize \<Rightarrow> usize \<Rightarrow> bool \<Rightarrow> machine \<Rightarrow> (dma_region \<times> machine) result" where
  "dma_new_raw sz meta zero s =
     rbind (dma_claim sz s) (\<lambda>(alloc, s).
     rbind (if zero then zero_bytes alloc sz s else ok s) (\<lambda>s. dma_at alloc meta s))"

definition dma_assume_init :: "dma_region \<Rightarrow> dma_region" where
  "dma_assume_init r = \<lparr>phys = phys r, virt = virt r, elements = elements r\<rparr>"

text \<open>\<open>new\<close> and \<open>zeroed\<close> of a single value are not written yet.\<close>

definition dma_new :: "(dma_region \<times> machine) result" where
  "dma_new = fail (Panic ''not yet implemented: new function from vanadinite'')"

definition dma_zeroed :: "(dma_region \<times> machine) result" where
  "dma_zeroed = fail (Panic ''not yet implemented: zeroed function from vanadinite'')"

text \<open>An element of a slice: its physical and its virtual address.\<close>

definition dma_get :: "usize \<Rightarrow> dma_region \<Rightarrow> usize \<Rightarrow> (u64 \<times> u64) option" where
  "dma_get elem r index =
     (if index < elements r then Some (phys r + elem * index, virt r + elem * index) else None)"

section \<open>What the operations do\<close>

lemma dma_frames_pages: "unat (dma_frames sz) = pages sz"
  using frames_for_pages [of sz] by (simp add: dma_frames_def frames_for_def)

lemma pages_pos: "0 < unat sz \<Longrightarrow> 0 < pages sz"
  by (simp add: pages_def)

lemma pages_bytes: "i < unat sz \<Longrightarrow> i < 4096 * pages sz"
  using mult_div_mod_eq [of 4096 "unat sz + 4095"] mod_less_divisor [of 4096 "unat sz + 4095"]
  unfolding pages_def by linarith

lemma of_nat_inj_bytes: "inj_on (\<lambda>i. x + of_nat i :: u64) {..<unat (sz :: u64)}"
proof (rule inj_onI)
  fix i j assume ij: "i \<in> {..<unat sz}" "j \<in> {..<unat sz}" "x + of_nat i = x + (of_nat j :: u64)"
  have "unat sz < 2 ^ 64" using unsigned_less [of sz] by simp
  then have "unat (of_nat i :: u64) = i" "unat (of_nat j :: u64) = j" using ij(1,2) by (simp_all add: unat_of_nat)
  then show "i = j" using ij(3) by (metis add_left_cancel)
qed

text \<open>Zeroing a claimed run: every byte of the region is zero and nothing outside its frames changes.\<close>

lemma zero_bytes_outcome:
  assumes "\<And>k. k < pages sz \<Longrightarrow> frame_ok s (x + 0x1000 * of_nat k)"
  shows "\<exists>t. zero_bytes x sz s = ok t \<and> changes_only (set (frames_from x (pages sz))) s t \<and> same_free s t
    \<and> (\<forall>j < unat sz. rd_byte t (x + of_nat j) = ok 0)"
proof -
  have "\<And>i. i \<in> set [0..<unat sz] \<Longrightarrow> i < 4096 * pages sz" using pages_bytes by simp
  from copy_run [OF assms this, where f = "\<lambda>_. 0"] obtain t where
    t: "rfold (\<lambda>i s. wr_byte s (x + of_nat i) 0) [0..<unat sz] s = ok t"
      "changes_only ((\<lambda>k. x + 0x1000 * of_nat k) ` {..<pages sz}) s t" "same_free s t" by blast
  have "rd_byte t (x + of_nat j) = ok 0" if "j < unat sz" for j
    by (rule bytes.copy_get [OF t(1)]) (use that of_nat_inj_bytes [of x sz] in \<open>auto simp: atLeast0LessThan\<close>)
  moreover have "set (frames_from x (pages sz)) = (\<lambda>k. x + 0x1000 * of_nat k) ` {..<pages sz}"
    by (auto simp: frames_from_def)
  ultimately show ?thesis using t unfolding zero_bytes_def by auto
qed

definition claims_run :: "machine \<Rightarrow> u64 list \<Rightarrow> usize \<Rightarrow> nat \<Rightarrow> bool" where
  "claims_run s xs sz i \<longleftrightarrow> fl_inv s xs \<and> mem s 0 = None \<and> 0 < unat sz
     \<and> first_run (pages sz) 0 xs = Some i \<and> i + pages sz < length xs"

lemma dma_claim_outcome:
  assumes "claims_run s xs sz i"
  shows "\<exists>t. dma_claim sz s = ok (xs ! i, t) \<and> fl_inv t (without_run (pages sz) i xs)
    \<and> changes_only (set (without_run (pages sz) i xs)) s t
    \<and> set (frames_from (xs ! i) (pages sz)) \<subseteq> set xs
    \<and> set (frames_from (xs ! i) (pages sz)) \<inter> set (without_run (pages sz) i xs) = {}
    \<and> (\<forall>k < pages sz. frame_ok t (xs ! i + 0x1000 * of_nat k)) \<and> xs ! i \<noteq> 0"
proof -
  have c: "fl_inv s xs" "mem s 0 = None" "0 < unat (dma_frames sz)"
    "first_run (unat (dma_frames sz)) 0 xs = Some i" "i + unat (dma_frames sz) < length xs"
    using assms by (auto simp: claims_run_def dma_frames_pages pages_pos)
  from claim_run_list [OF c] obtain t where
    t: "claim_continuous s (dma_frames sz) = ok (Inr (xs ! i, t))" "fl_inv t (without_run (pages sz) i xs)"
      "changes_only (set (without_run (pages sz) i xs)) s t" by (auto simp: dma_frames_pages)
  have "distinct xs" using c(1) by (simp add: fl_inv_def)
  note parts = without_run_parts [OF this, of "pages sz" i]
  have run: "take (pages sz) (drop i xs) = frames_from (xs ! i) (pages sz)"
    using run_frames(2) [OF c(4)] by (simp add: dma_frames_pages)
  have "frame_ok t (xs ! i + 0x1000 * of_nat k)" if "k < pages sz" for k
  proof -
    have "xs ! i + 0x1000 * of_nat k \<in> set (frames_from (xs ! i) (pages sz))"
      using that by (auto simp: frames_from_def)
    then show ?thesis using parts(2) fl_inv_frame_ok [OF c(1)] changes_only_frame_ok [OF t(3)] run by auto
  qed
  moreover have "i < length xs" using c(5) by simp
  then have "0 < hhdm s" "hhdm s \<le> xs ! i" using fl_inv_frame_ok [OF c(1) nth_mem] c(1) by (simp_all add: fl_inv_def frame_ok_def)
  then have "xs ! i \<noteq> 0" by auto
  ultimately show ?thesis using t parts run by (auto simp: dma_claim_def)
qed

text \<open>The region of a run: its addresses, and its frames are off the free list.\<close>

definition region_of :: "machine \<Rightarrow> u64 \<Rightarrow> usize \<Rightarrow> dma_region" where
  "region_of s x n = \<lparr>phys = x - hhdm s, virt = x, elements = n\<rparr>"

lemma region_fields [simp]: "phys (region_of s x n) = x - hhdm s" "virt (region_of s x n) = x" "elements (region_of s x n) = n"
  by (simp_all add: region_of_def)

lemma dma_at_run: "x \<noteq> 0 \<Longrightarrow> dma_at x n s = ok (region_of s x n, s)"
  by (simp add: dma_at_def region_of_def pa_from_ptr_def)

lemma zeroed_run:
  assumes "claims_run s xs sz i"
  shows "\<exists>u t. dma_claim sz s = ok (xs ! i, u) \<and> zero_bytes (xs ! i) sz u = ok t
    \<and> dma_at (xs ! i) n u = ok (region_of s (xs ! i) n, u)
    \<and> dma_at (xs ! i) n t = ok (region_of s (xs ! i) n, t) \<and> fl_inv t (without_run (pages sz) i xs)
    \<and> changes_only (set xs) s t \<and> (\<forall>j < unat sz. rd_byte t (xs ! i + of_nat j) = ok 0)"
proof -
  let ?ys = "without_run (pages sz) i xs" and ?run = "set (frames_from (xs ! i) (pages sz))"
  from dma_claim_outcome [OF assms] obtain u where u: "dma_claim sz s = ok (xs ! i, u)" "fl_inv u ?ys"
    "changes_only (set ?ys) s u" "?run \<subseteq> set xs" "?run \<inter> set ?ys = {}"
    "\<And>k. k < pages sz \<Longrightarrow> frame_ok u (xs ! i + 0x1000 * of_nat k)" "xs ! i \<noteq> 0" by blast
  from zero_bytes_outcome [OF u(6)] obtain t where t: "zero_bytes (xs ! i) sz u = ok t" "changes_only ?run u t"
    "same_free u t" "\<forall>j < unat sz. rd_byte t (xs ! i + of_nat j) = ok 0" by blast
  have "distinct xs" "\<And>x. x \<in> set xs \<Longrightarrow> page_aligned x"
    using assms fl_inv_frame_ok by (auto simp: claims_run_def fl_inv_def)
  then have F: "\<forall>y \<in> ?run. page_aligned y \<and> y \<notin> set ?ys" and sub: "set ?ys \<subseteq> set xs"
    using u(4,5) without_run_parts(1) by blast+
  have "fl_inv t ?ys" using fl_inv_elsewhere [OF u(2) t(2) F] t(3) by (simp add: same_free_def)
  moreover have ch: "changes_only (set xs) s t" by (rule changes_only_step [OF u(3) t(2) sub u(4)])
  moreover have "region_of t (xs ! i) n = region_of s (xs ! i) n" using ch by (simp add: region_of_def changes_only_def)
  moreover have "region_of u (xs ! i) n = region_of s (xs ! i) n" using u(3) by (simp add: region_of_def changes_only_def)
  ultimately show ?thesis using u(1,7) t(1,4) dma_at_run [OF u(7), of n] by auto
qed

lemma dma_new_raw_outcome:
  assumes "claims_run s xs sz i"
  shows "\<exists>t. dma_new_raw sz n True s = ok (region_of s (xs ! i) n, t)
    \<and> fl_inv t (without_run (pages sz) i xs) \<and> changes_only (set xs) s t"
  using zeroed_run [OF assms, of n] by (auto simp: dma_new_raw_def)

lemma dma_new_many_outcome:
  assumes "claims_run s xs (elem * n) i"
  shows "\<exists>t. dma_new_many elem n s = ok (region_of s (xs ! i) n, t)
    \<and> fl_inv t (without_run (pages (elem * n)) i xs) \<and> changes_only (set xs) s t"
proof -
  from dma_claim_outcome [OF assms] obtain t where t: "dma_claim (elem * n) s = ok (xs ! i, t)"
    "fl_inv t (without_run (pages (elem * n)) i xs)" "changes_only (set (without_run (pages (elem * n)) i xs)) s t"
    "xs ! i \<noteq> 0" by blast
  have "distinct xs" using assms by (auto simp: claims_run_def fl_inv_def)
  then have "changes_only (set xs) s t" using changes_only_mono [OF t(3)] without_run_parts(1) by blast
  moreover from this have "region_of t (xs ! i) n = region_of s (xs ! i) n" by (simp add: region_of_def changes_only_def)
  ultimately show ?thesis using t dma_at_run [OF t(4), of n t] by (auto simp: dma_new_many_def)
qed

lemma elements_disjoint:
  assumes "dma_get elem r i = Some (p, v)" and "dma_get elem r j = Some (q, w)" and "i < j"
    and "unat elem * unat (elements r) + unat (phys r) < 2 ^ 64"
  shows "unat p + unat elem \<le> unat q"
proof -
  have ij: "i < elements r" "j < elements r" "p = phys r + elem * i" "q = phys r + elem * j"
    using assms by (auto simp: dma_get_def split: if_splits)
  have addr: "unat (phys r + elem * k) = unat (phys r) + unat elem * unat k" if "k < elements r" for k
  proof -
    have "unat elem * unat k \<le> unat elem * unat (elements r)" using that by (simp add: word_less_nat_alt)
    then have "unat (phys r) + unat elem * unat k < 2 ^ 64" using assms(4) by linarith
    then show ?thesis by (simp add: unat_word_ariths)
  qed
  have "Suc (unat i) \<le> unat j" using assms(3) by (simp add: word_less_nat_alt)
  then have "unat elem * Suc (unat i) \<le> unat elem * unat j" by (rule mult_le_mono2)
  then show ?thesis using addr ij by simp
qed

section \<open>Regions of one frame\<close>

lemma claims_one:
  assumes "fl_inv s (x # y # ys)" "mem s 0 = None" "0 < unat sz" "unat sz \<le> 4096"
  shows "claims_run s (x # y # ys) sz 0" "without_run (pages sz) 0 (x # y # ys) = y # ys"
proof -
  have "pages sz = 1" using assms(3,4) unfolding pages_def by (intro div_nat_eqI) simp_all
  then show "claims_run s (x # y # ys) sz 0" "without_run (pages sz) 0 (x # y # ys) = y # ys"
    using assms by (simp_all add: claims_run_def window_def without_run_def frames_from_def)
qed

lemma changes_only_null: "changes_only F s t \<Longrightarrow> mem s 0 = None \<Longrightarrow> mem t 0 = None"
  unfolding changes_only_def mem_only_def by (metis domIff)

text \<open>A machine with free frames \<open>xs\<close> and no page at address 0, whose direct map starts at \<open>o\<close>.\<close>

definition free_frames :: "machine \<Rightarrow> u64 \<Rightarrow> u64 list \<Rightarrow> bool" where
  "free_frames s off xs \<longleftrightarrow> fl_inv s xs \<and> mem s 0 = None \<and> hhdm s = off"

definition region_at :: "u64 \<Rightarrow> u64 \<Rightarrow> usize \<Rightarrow> dma_region" where
  "region_at off x n = \<lparr>phys = x - off, virt = x, elements = n\<rparr>"

lemma one_frame:
  assumes "free_frames s off (x # y # ys)" "0 < unat sz" "unat sz \<le> 4096"
  shows "\<exists>u t. dma_claim sz s = ok (x, u) \<and> zero_bytes x sz u = ok t \<and> dma_at x n t = ok (region_at off x n, t)
    \<and> dma_at x n u = ok (region_at off x n, u) \<and> free_frames t off (y # ys) \<and> frame_ok t x \<and> x \<notin> set (y # ys)"
proof -
  have s: "fl_inv s (x # y # ys)" "mem s 0 = None" "hhdm s = off" using assms(1) by (simp_all add: free_frames_def)
  from zeroed_run [OF claims_one(1) [OF s(1,2) assms(2,3)], of n] claims_one(2) [OF s(1,2) assms(2,3)]
  obtain u t where t: "dma_claim sz s = ok (x, u)" "zero_bytes x sz u = ok t" "dma_at x n t = ok (region_of s x n, t)"
    "dma_at x n u = ok (region_of s x n, u)" "fl_inv t (y # ys)" "changes_only (set (x # y # ys)) s t" by auto
  moreover have "hhdm t = off" using t(6) s(3) by (simp add: changes_only_def)
  moreover have "frame_ok t x" using fl_inv_frame_ok [OF s(1)] changes_only_frame_ok [OF t(6)] by simp
  moreover have "x \<notin> set (y # ys)" using s(1) by (simp add: fl_inv_def)
  ultimately show ?thesis using changes_only_null [OF t(6) s(2)] s(3)
    by (simp add: free_frames_def region_of_def region_at_def)
qed

end
