(* ===== verification/Splitqueue.thy ===== *)
theory Splitqueue
  imports Dma
begin

text \<open>
  The split virtqueue, LSD/src/drivers/virtio/splitqueue/mod.rs: a table of descriptors, the ring of
  available descriptor indices that the driver writes, the ring of used elements that the device
  writes, and the list of free descriptors. A queue structure is its DMA region and what the region
  holds; regions are zeroed, so a new one holds zeros. Indices into the rings are 16 bits wide and run
  freely; the device's side of a ring is in the locale \<open>fifo\<close> and its interpretations.
\<close>

section \<open>Data\<close>

type_synonym splitqueue_index = u16

type_synonym descriptor_flags = u16

definition flags_NONE :: descriptor_flags where "flags_NONE = 0"
definition flags_NEXT :: descriptor_flags where "flags_NEXT = 1"
definition flags_WRITE :: descriptor_flags where "flags_WRITE = 2"
definition flags_INDIRECT :: descriptor_flags where "flags_INDIRECT = 4"

definition flags_or :: "descriptor_flags \<Rightarrow> descriptor_flags \<Rightarrow> descriptor_flags" where
  "flags_or a b = a OR b"

record descriptor =
  address :: u64
  d_length :: u32
  d_flags :: descriptor_flags
  d_next :: splitqueue_index

definition descriptor_default :: descriptor where
  "descriptor_default = \<lparr>address = 0, d_length = 0, d_flags = flags_NONE, d_next = 0\<rparr>"

record used_element =
  start_index :: u32
  u_length :: u32

record descriptor_queue =
  dq_region :: dma_region
  table :: "descriptor list"

record available_queue =
  aq_region :: dma_region
  aq_flags :: u16
  aq_index :: u16
  aq_ring :: "u16 list"

record used_queue =
  uq_region :: dma_region
  uq_flags :: u16
  uq_index :: u16
  uq_ring :: "used_element list"
  last_seen :: u16

record split_virtqueue =
  vq_size :: usize
  freelist :: "u16 list"
  descriptors :: descriptor_queue
  available :: available_queue
  used :: used_queue

datatype splitqueue_error = MemoryAllocationError | NotPowerOfTwo | TooLarge

section \<open>Operations\<close>

definition is_power_of_two :: "usize \<Rightarrow> bool" where
  "is_power_of_two n \<longleftrightarrow> n \<noteq> 0 \<and> n AND (n - 1) = 0"

text \<open>The sizes of the three structures for \<open>n\<close> entries: a descriptor has 16 bytes; the rings start
  with two u16 and are followed by n u16, or n elements of 8 bytes.\<close>

definition descriptor_bytes :: usize where "descriptor_bytes = 16"

definition available_bytes :: "usize \<Rightarrow> usize" where "available_bytes n = 4 + 2 * n"

definition used_bytes :: "usize \<Rightarrow> usize" where "used_bytes n = 4 + 8 * n"

definition virtqueue_new :: "usize \<Rightarrow> machine \<Rightarrow> (splitqueue_error + split_virtqueue \<times> machine) result" where
  "virtqueue_new queue_size s =
     (if \<not> is_power_of_two queue_size then ok (Inl NotPowerOfTwo)
      else if \<not> queue_size \<le> 32768 then ok (Inl TooLarge)
      else
        rbind (dma_zeroed_many descriptor_bytes queue_size s) (\<lambda>(dr, s).
        rbind (dma_new_raw (available_bytes queue_size) queue_size True s) (\<lambda>(ar, s).
        rbind (dma_new_raw (used_bytes queue_size) queue_size True s) (\<lambda>(ur, s).
        ok (Inr
          (\<lparr>vq_size = queue_size, freelist = map of_nat [0..<unat queue_size],
            descriptors = \<lparr>dq_region = dma_assume_init dr, table = replicate (unat queue_size) descriptor_default\<rparr>,
            available = \<lparr>aq_region = ar, aq_flags = 0, aq_index = 0, aq_ring = replicate (unat queue_size) 0\<rparr>,
            used = \<lparr>uq_region = ur, uq_flags = 0, uq_index = 0,
              uq_ring = replicate (unat queue_size) \<lparr>start_index = 0, u_length = 0\<rparr>, last_seen = 0\<rparr>\<rparr>, s))))))"

definition alloc_descriptor :: "split_virtqueue \<Rightarrow> splitqueue_index option \<times> split_virtqueue" where
  "alloc_descriptor q =
     (if freelist q = [] then (None, q) else (Some (last (freelist q)), q\<lparr>freelist := butlast (freelist q)\<rparr>))"

definition free_descriptor :: "splitqueue_index \<Rightarrow> split_virtqueue \<Rightarrow> split_virtqueue" where
  "free_descriptor index q = q\<lparr>freelist := freelist q @ [index]\<rparr>"

definition queue_size_u32 :: "split_virtqueue \<Rightarrow> u32" where
  "queue_size_u32 q = ucast (vq_size q)"

definition descriptor_write :: "splitqueue_index \<Rightarrow> descriptor \<Rightarrow> descriptor_queue \<Rightarrow> descriptor_queue result" where
  "descriptor_write index d dq =
     (if unat index < length (table dq) then ok (dq\<lparr>table := (table dq)[unat index := d]\<rparr>)
      else fail (OutOfBounds (unat index) (length (table dq))))"

definition descriptor_read :: "descriptor_queue \<Rightarrow> splitqueue_index \<Rightarrow> descriptor result" where
  "descriptor_read dq index = index_at (table dq) (unat index)"

text \<open>\<open>push\<close> stores the index in the ring and then, after the fence, publishes it.\<close>

definition available_store :: "splitqueue_index \<Rightarrow> available_queue \<Rightarrow> available_queue result" where
  "available_store index aq =
     (let len = of_nat (length (aq_ring aq)) :: u16 in
      if len = 0 then fail DivideByZero
      else
        (let ring_index = unat (aq_index aq mod len) in
         if ring_index < length (aq_ring aq) then ok (aq\<lparr>aq_ring := (aq_ring aq)[ring_index := index]\<rparr>)
         else fail (OutOfBounds ring_index (length (aq_ring aq)))))"

definition available_push :: "splitqueue_index \<Rightarrow> available_queue \<Rightarrow> available_queue result" where
  "available_push index aq =
     (let queue_index = aq_index aq in
      rbind (available_store index aq) (\<lambda>aq. ok (aq\<lparr>aq_index := queue_index + 1\<rparr>)))"

definition used_pop :: "used_queue \<Rightarrow> (used_element option \<times> used_queue) result" where
  "used_pop uq =
     (if last_seen uq = uq_index uq then ok (None, uq)
      else if uq_ring uq = [] then fail DivideByZero
      else
        rbind (index_at (uq_ring uq) (unat (last_seen uq) mod length (uq_ring uq))) (\<lambda>e.
        ok (Some e, uq\<lparr>last_seen := last_seen uq + 1\<rparr>)))"

text \<open>All that \<open>drain\<close> yields when nobody writes the ring meanwhile.\<close>

function used_drain :: "used_queue \<Rightarrow> (used_element list \<times> used_queue) result" where
  "used_drain uq = rbind (used_pop uq) (\<lambda>(e, uq').
     case e of None \<Rightarrow> ok ([], uq')
     | Some x \<Rightarrow> rbind (used_drain uq') (\<lambda>(xs, uq''). ok (x # xs, uq'')))"
  by auto

lemma u16_diff_Suc:
  assumes "a \<noteq> (b :: u16)"
  shows "unat (b - a) = Suc (unat (b - (a + 1)))"
proof -
  have "b - (a + 1) = b - a - 1" by (simp only: diff_diff_eq)
  moreover have "b - a \<noteq> 0" using assms by simp
  then have "unat (b - a - 1) = unat (b - a) - 1" "0 < unat (b - a)"
    by (rule unat_minus_one) (use \<open>b - a \<noteq> 0\<close> in \<open>simp add: unat_gt_0\<close>)
  ultimately show ?thesis by (metis Suc_diff_1)
qed

lemma used_pop_Some:
  "used_pop uq = ok (Some x, uq') \<longleftrightarrow> last_seen uq \<noteq> uq_index uq \<and> uq_ring uq \<noteq> []
     \<and> x = uq_ring uq ! (unat (last_seen uq) mod length (uq_ring uq)) \<and> uq' = uq\<lparr>last_seen := last_seen uq + 1\<rparr>"
  by (auto simp: used_pop_def split: if_splits)

termination used_drain
  by (relation "measure (\<lambda>uq. unat (uq_index uq - last_seen uq))")
    (auto simp: used_pop_Some u16_diff_Suc)

section \<open>Rings\<close>

text \<open>What is between the reader's and the writer's position of a ring with \<open>n\<close> entries, \<open>n\<close> a
  divisor of \<open>2 ^ 16\<close>.\<close>

definition pending :: "'a list \<Rightarrow> u16 \<Rightarrow> u16 \<Rightarrow> 'a list" where
  "pending ring index seen =
     map (\<lambda>k. ring ! (unat (seen + of_nat k) mod length ring)) [0..<unat (index - seen)]"

definition ring_ok :: "'a list \<Rightarrow> bool" where
  "ring_ok ring \<longleftrightarrow> length ring dvd 2 ^ 16 \<and> length ring \<le> 2 ^ 15"

lemma ring_ok_pos: "ring_ok ring \<Longrightarrow> 0 < length ring"
  by (auto simp: ring_ok_def intro: Nat.gr0I)

lemma ring_ok_update [simp]: "ring_ok (ring[i := x]) = ring_ok ring"
  by (simp add: ring_ok_def)

lemma length_pending [simp]: "length (pending ring index seen) = unat (index - seen)"
  by (simp add: pending_def)

lemma ring_position:
  assumes "n dvd 2 ^ 16"
  shows "unat (seen + of_nat k :: u16) mod n = (unat seen + k) mod n"
proof -
  have "unat (seen + of_nat k) = (unat seen + k) mod 2 ^ 16"
    by (simp add: unat_word_ariths unat_of_nat mod_add_right_eq)
  then show ?thesis by (simp only: mod_mod_cancel [OF assms])
qed

lemma ring_positions_distinct:
  assumes "k < c" "c - k < n"
  shows "(a + k) mod n \<noteq> (a + c) mod (n :: nat)"
proof
  assume "(a + k) mod n = (a + c) mod n"
  moreover have "a + k \<le> a + c" using assms(1) by simp
  ultimately have "n dvd (a + c) - (a + k)" by (metis mod_eq_dvd_iff_nat)
  then have "n dvd c - k" by simp
  then show False using assms by (auto dest: dvd_imp_le)
qed

lemma pending_store:
  assumes "ring_ok ring" "unat (index - seen) < length ring" "i = unat index mod length ring"
  shows "pending (ring[i := x]) index seen = pending ring index seen"
proof -
  let ?n = "length ring" and ?c = "unat (index - seen)"
  have d: "?n dvd 2 ^ 16" using assms(1) by (simp add: ring_ok_def)
  have "index = seen + of_nat ?c" by simp
  then have i: "i = (unat seen + ?c) mod ?n" using ring_position [OF d, of seen ?c] assms(3) by simp
  have "ring[i := x] ! (unat (seen + of_nat k) mod ?n) = ring ! (unat (seen + of_nat k) mod ?n)" if "k < ?c" for k
  proof -
    have "?c - k < ?n" using assms(2) by linarith
    then show ?thesis
      using ring_positions_distinct [of k ?c ?n "unat seen"] that i ring_position [OF d, of seen k] by simp
  qed
  then show ?thesis by (simp add: pending_def)
qed

lemma pending_publish:
  assumes "ring_ok ring" "unat (index - seen) < length ring" "i = unat index mod length ring"
  shows "pending (ring[i := x]) (index + 1) seen = pending ring index seen @ [x]"
proof -
  let ?n = "length ring" and ?c = "unat (index - seen)"
  have d: "?n dvd 2 ^ 16" and n: "?n \<le> 2 ^ 15" using assms(1) by (simp_all add: ring_ok_def)
  have "?c + 1 < 2 ^ 16" using assms(2) n by simp
  moreover have "index + 1 - seen = (index - seen) + 1" by simp
  ultimately have c: "unat (index + 1 - seen) = Suc ?c" by (simp only: unat_word_ariths) simp
  have "index = seen + of_nat ?c" by simp
  then have "ring[i := x] ! (unat (seen + of_nat ?c) mod ?n) = x"
    using assms(3) ring_ok_pos [OF assms(1)] by simp
  then show ?thesis
    using pending_store [OF assms, of x] unfolding pending_def c by simp
qed

lemma pending_take:
  assumes "index \<noteq> seen"
  shows "pending ring index seen = ring ! (unat seen mod length ring) # pending ring index (seen + 1)"
proof -
  have "unat (index - seen) = Suc (unat (index - (seen + 1)))" using assms by (intro u16_diff_Suc) simp
  then have "pending ring index seen = ring ! (unat seen mod length ring)
      # map (\<lambda>k. ring ! (unat (seen + of_nat (Suc k)) mod length ring)) [0..<unat (index - (seen + 1))]"
    by (simp only: pending_def upt_conv_Cons zero_less_Suc map_Suc_upt [symmetric] list.map map_map) (simp add: comp_def)
  then show ?thesis by (simp add: pending_def add.assoc)
qed

lemma pending_empty: "pending ring index seen = [] \<longleftrightarrow> index = seen"
  using length_pending [of ring index seen] by (metis length_0_conv right_minus_eq unat_eq_zero)

section \<open>First in, first out\<close>

text \<open>What the two ends of a ring promise each other, and what follows for every interleaving of
  pushes and pops that pushes only into a ring with room.\<close>

datatype 'a ring_act = Push 'a | Pop

fun ring_run :: "('a \<Rightarrow> 's \<Rightarrow> 's result) \<Rightarrow> ('s \<Rightarrow> ('a option \<times> 's) result) \<Rightarrow> 'a ring_act list \<Rightarrow> 's
    \<Rightarrow> ('a list \<times> 's) result" where
  "ring_run push pop [] s = ok ([], s)"
| "ring_run push pop (Push x # acts) s = rbind (push x s) (ring_run push pop acts)"
| "ring_run push pop (Pop # acts) s =
     rbind (pop s) (\<lambda>(x, s). rbind (ring_run push pop acts s) (\<lambda>(ys, s).
     ok (case x of None \<Rightarrow> ys | Some x \<Rightarrow> x # ys, s)))"

fun pushed :: "'a ring_act list \<Rightarrow> 'a list" where
  "pushed [] = []"
| "pushed (Push x # acts) = x # pushed acts"
| "pushed (Pop # acts) = pushed acts"

fun fits :: "nat \<Rightarrow> nat \<Rightarrow> 'a ring_act list \<Rightarrow> bool" where
  "fits c n [] \<longleftrightarrow> True"
| "fits c n (Push x # acts) \<longleftrightarrow> n < c \<and> fits c (Suc n) acts"
| "fits c n (Pop # acts) \<longleftrightarrow> fits c (n - 1) acts"

locale fifo =
  fixes valid :: "'s \<Rightarrow> bool"
    and items :: "'s \<Rightarrow> 'a list"
    and capacity :: "'s \<Rightarrow> nat"
    and push :: "'a \<Rightarrow> 's \<Rightarrow> 's result"
    and pop :: "'s \<Rightarrow> ('a option \<times> 's) result"
  assumes push_item: "valid s \<Longrightarrow> length (items s) < capacity s \<Longrightarrow>
      \<exists>t. push x s = ok t \<and> valid t \<and> capacity t = capacity s \<and> items t = items s @ [x]"
    and pop_empty: "valid s \<Longrightarrow> items s = [] \<Longrightarrow> pop s = ok (None, s)"
    and pop_item: "valid s \<Longrightarrow> items s = x # xs \<Longrightarrow>
      \<exists>t. pop s = ok (Some x, t) \<and> valid t \<and> capacity t = capacity s \<and> items t = xs"
begin

lemma run_fifo:
  assumes "valid s" "fits (capacity s) (length (items s)) acts"
  shows "\<exists>out t. ring_run push pop acts s = ok (out, t) \<and> valid t \<and> capacity t = capacity s
    \<and> out @ items t = items s @ pushed acts"
  using assms
proof (induction acts arbitrary: s)
  case (Cons a acts)
  show ?case
  proof (cases a)
    case (Push x)
    then obtain u where u: "push x s = ok u" "valid u" "capacity u = capacity s" "items u = items s @ [x]"
      using push_item [of s x] Cons.prems by auto
    from Cons.IH [OF u(2)] u Cons.prems(2) Push show ?thesis by auto
  next
    case Pop
    show ?thesis
    proof (cases "items s")
      case Nil
      then show ?thesis using Cons.IH [OF Cons.prems(1)] Cons.prems pop_empty Pop by auto
    next
      case (Cons x xs)
      then obtain u where u: "pop s = ok (Some x, u)" "valid u" "capacity u = capacity s" "items u = xs"
        using pop_item Cons.prems(1) by blast
      from Cons.IH [OF u(2)] u Cons.prems(2) Pop Cons show ?thesis by auto
    qed
  qed
qed simp

end

text \<open>The device's side, from the VirtIO specification: it takes available entries at its own running
  index, and stores a used element and then increments the used index.\<close>

definition device_take :: "available_queue \<times> u16 \<Rightarrow> (u16 option \<times> available_queue \<times> u16) result" where
  "device_take = (\<lambda>(aq, seen).
     if seen = aq_index aq then ok (None, aq, seen)
     else ok (Some (aq_ring aq ! (unat seen mod length (aq_ring aq))), aq, seen + 1))"

definition device_complete :: "used_element \<Rightarrow> used_queue \<Rightarrow> used_queue result" where
  "device_complete e uq =
     ok (uq\<lparr>uq_ring := (uq_ring uq)[unat (uq_index uq) mod length (uq_ring uq) := e], uq_index := uq_index uq + 1\<rparr>)"

definition driver_push :: "u16 \<Rightarrow> available_queue \<times> u16 \<Rightarrow> (available_queue \<times> u16) result" where
  "driver_push i = (\<lambda>(aq, seen). rbind (available_push i aq) (\<lambda>aq. ok (aq, seen)))"

definition offered :: "available_queue \<times> u16 \<Rightarrow> u16 list" where
  "offered = (\<lambda>(aq, seen). pending (aq_ring aq) (aq_index aq) seen)"

definition available_ok :: "available_queue \<times> u16 \<Rightarrow> bool" where
  "available_ok = (\<lambda>(aq, seen). ring_ok (aq_ring aq) \<and> unat (aq_index aq - seen) \<le> length (aq_ring aq))"

definition completed :: "used_queue \<Rightarrow> used_element list" where
  "completed uq = pending (uq_ring uq) (uq_index uq) (last_seen uq)"

definition used_ok :: "used_queue \<Rightarrow> bool" where
  "used_ok uq \<longleftrightarrow> ring_ok (uq_ring uq) \<and> unat (uq_index uq - last_seen uq) \<le> length (uq_ring uq)"

lemma available_store_ok:
  assumes "ring_ok (aq_ring aq)"
  shows "available_store x aq = ok (aq\<lparr>aq_ring := (aq_ring aq)[unat (aq_index aq) mod length (aq_ring aq) := x]\<rparr>)"
proof -
  let ?n = "length (aq_ring aq)"
  have n: "0 < ?n" "?n \<le> 2 ^ 15" using ring_ok_pos [OF assms] assms by (simp_all add: ring_ok_def)
  then have u: "unat (of_nat ?n :: u16) = ?n" by (simp add: unat_of_nat)
  then have "(of_nat ?n :: u16) \<noteq> 0" using n(1) by (metis less_irrefl unat_0)
  moreover have "unat (aq_index aq mod of_nat ?n) = unat (aq_index aq) mod ?n" by (simp only: unat_mod u)
  moreover have "unat (aq_index aq) mod ?n < ?n" using n(1) by simp
  ultimately show ?thesis by (simp add: available_store_def Let_def)
qed

lemma available_push_ok:
  assumes "ring_ok (aq_ring aq)"
  shows "available_push x aq = ok (aq\<lparr>aq_ring := (aq_ring aq)[unat (aq_index aq) mod length (aq_ring aq) := x],
      aq_index := aq_index aq + 1\<rparr>)"
  by (simp add: available_push_def available_store_ok [OF assms])

lemma Suc_count: "unat (i - s :: u16) < n \<Longrightarrow> n \<le> 2 ^ 15 \<Longrightarrow> unat (i + 1 - s) = Suc (unat (i - s))"
proof -
  assume "unat (i - s) < n" "n \<le> 2 ^ 15"
  then have "unat (i - s) + 1 < 2 ^ 16" by simp
  moreover have "i + 1 - s = (i - s) + 1" by simp
  ultimately show ?thesis by (simp only: unat_word_ariths) simp
qed

interpretation available: fifo available_ok offered "\<lambda>(aq, seen). length (aq_ring aq)" driver_push device_take
proof
  fix s :: "available_queue \<times> u16" and x y xs
  obtain aq seen where s: "s = (aq, seen)" by (cases s)
  assume ok: "available_ok s"
  then have r: "ring_ok (aq_ring aq)" "unat (aq_index aq - seen) \<le> length (aq_ring aq)" "length (aq_ring aq) \<le> 2 ^ 15"
    by (simp_all add: available_ok_def s ring_ok_def)
  show "\<exists>t. driver_push x s = ok t \<and> available_ok t
      \<and> (case t of (aq, seen) \<Rightarrow> length (aq_ring aq)) = (case s of (aq, seen) \<Rightarrow> length (aq_ring aq))
      \<and> offered t = offered s @ [x]"
    if "length (offered s) < (case s of (aq, seen) \<Rightarrow> length (aq_ring aq))"
  proof -
    have c: "unat (aq_index aq - seen) < length (aq_ring aq)" using that by (simp add: offered_def s)
    show ?thesis
      using pending_publish [OF r(1) c refl, of x] Suc_count [OF c r(3)] c r(1)
      by (simp add: s driver_push_def available_push_ok [OF r(1)] offered_def available_ok_def)
  qed
  show "device_take s = ok (None, s)" if "offered s = []"
    using that by (simp add: s offered_def device_take_def pending_empty)
  show "\<exists>t. device_take s = ok (Some y, t) \<and> available_ok t
      \<and> (case t of (aq, seen) \<Rightarrow> length (aq_ring aq)) = (case s of (aq, seen) \<Rightarrow> length (aq_ring aq)) \<and> offered t = xs"
    if "offered s = y # xs"
  proof -
    have ne: "aq_index aq \<noteq> seen" using that pending_empty [of "aq_ring aq" "aq_index aq" seen] by (auto simp: s offered_def)
    then show ?thesis
      using pending_take [OF ne, of "aq_ring aq"] that r u16_diff_Suc [of seen "aq_index aq"]
      by (auto simp: s offered_def device_take_def available_ok_def)
  qed
qed

interpretation used: fifo used_ok completed "\<lambda>uq. length (uq_ring uq)" device_complete used_pop
proof
  fix uq :: used_queue and x y xs
  assume ok: "used_ok uq"
  then have r: "ring_ok (uq_ring uq)" "unat (uq_index uq - last_seen uq) \<le> length (uq_ring uq)" "length (uq_ring uq) \<le> 2 ^ 15"
    by (simp_all add: used_ok_def ring_ok_def)
  show "\<exists>t. device_complete x uq = ok t \<and> used_ok t \<and> length (uq_ring t) = length (uq_ring uq)
      \<and> completed t = completed uq @ [x]" if "length (completed uq) < length (uq_ring uq)"
  proof -
    have c: "unat (uq_index uq - last_seen uq) < length (uq_ring uq)" using that by (simp add: completed_def)
    show ?thesis
      using pending_publish [OF r(1) c refl, of x] Suc_count [OF c r(3)] c r(1)
      by (simp add: device_complete_def completed_def used_ok_def)
  qed
  show "used_pop uq = ok (None, uq)" if "completed uq = []"
    using that by (simp add: completed_def used_pop_def pending_empty)
  show "\<exists>t. used_pop uq = ok (Some y, t) \<and> used_ok t \<and> length (uq_ring t) = length (uq_ring uq) \<and> completed t = xs"
    if "completed uq = y # xs"
  proof -
    have ne: "uq_index uq \<noteq> last_seen uq"
      using that pending_empty [of "uq_ring uq" "uq_index uq" "last_seen uq"] by (auto simp: completed_def)
    have "unat (last_seen uq) mod length (uq_ring uq) < length (uq_ring uq)" "uq_ring uq \<noteq> []"
      using ring_ok_pos [OF r(1)] by auto
    then show ?thesis
      using ne pending_take [OF ne, of "uq_ring uq"] that r u16_diff_Suc [of "last_seen uq" "uq_index uq"]
      by (auto simp: completed_def used_pop_def used_ok_def)
  qed
qed

lemma used_drain_completed:
  "uq_ring uq \<noteq> [] \<Longrightarrow> used_drain uq = ok (completed uq, uq\<lparr>last_seen := uq_index uq\<rparr>)"
proof (induction uq rule: used_drain.induct)
  case (1 uq)
  show ?case
  proof (cases "last_seen uq = uq_index uq")
    case True
    have "completed uq = []" using True by (simp add: completed_def pending_empty)
    then show ?thesis using True used_drain.simps [of uq] by (simp add: used_pop_def)
  next
    case False
    let ?u = "uq\<lparr>last_seen := last_seen uq + 1\<rparr>"
    have pop: "used_pop uq = ok (Some (uq_ring uq ! (unat (last_seen uq) mod length (uq_ring uq))), ?u)"
      using False "1.prems" by (simp add: used_pop_Some)
    have rest: "used_drain ?u = ok (completed ?u, ?u\<lparr>last_seen := uq_index ?u\<rparr>)"
      using "1.IH" [OF pop refl refl] "1.prems" by simp
    have "used_drain uq = ok (uq_ring uq ! (unat (last_seen uq) mod length (uq_ring uq)) # completed ?u,
        uq\<lparr>last_seen := uq_index uq\<rparr>)"
      by (subst used_drain.simps) (simp only: pop rest rbind_simps prod.case option.case, simp)
    then show ?thesis
      using pending_take [of "uq_index uq" "last_seen uq" "uq_ring uq"] False by (simp add: completed_def)
  qed
qed

section \<open>New queues\<close>

lemma power_of_two_nat: "0 < m \<Longrightarrow> m AND (m - 1) = (0 :: nat) \<Longrightarrow> \<exists>k. m = 2 ^ k"
proof (induction m rule: less_induct)
  case (less m)
  have rec: "m AND (m - 1) = of_bool (odd m \<and> odd (m - 1)) + 2 * ((m div 2) AND ((m - 1) div 2))" by (rule and_rec)
  show ?case
  proof (cases "even m")
    case True
    then obtain h where h: "m = 2 * h" by auto
    then have "(m - 1) div 2 = h - 1" "0 < h" using less.prems(1) by auto
    then have "h AND (h - 1) = 0" using rec less.prems(2) h by simp
    then obtain k where "h = 2 ^ k" using less.IH [of h] h \<open>0 < h\<close> by auto
    then show ?thesis using h by (intro exI [of _ "Suc k"]) simp
  next
    case False
    then have "(m - 1) div 2 = m div 2" by (auto elim: oddE)
    then have "m div 2 = 0" using rec less.prems(2) False by simp
    then show ?thesis using less.prems(1) by (intro exI [of _ 0]) simp
  qed
qed

lemma power_of_two:
  assumes "is_power_of_two n"
  shows "\<exists>k. unat n = 2 ^ k"
proof -
  have n: "n \<noteq> 0" "n AND (n - 1) = 0" using assms by (simp_all add: is_power_of_two_def)
  then have "unat n AND (unat n - 1) = 0"
    by (metis unat_minus_one unsigned_and_eq unsigned_0)
  moreover have "0 < unat n" using n(1) by (simp add: unat_gt_0)
  ultimately show ?thesis by (intro power_of_two_nat)
qed

lemma queue_size_ring:
  assumes "is_power_of_two n" "n \<le> 32768"
  shows "unat n dvd 2 ^ 16" "unat n \<le> 2 ^ 15" "0 < unat n"
proof -
  obtain k where k: "unat n = 2 ^ k" using power_of_two [OF assms(1)] by blast
  show le: "unat n \<le> 2 ^ 15" using assms(2) by (simp add: word_le_nat_alt)
  then have "(2 :: nat) ^ k \<le> 2 ^ 15" using k by simp
  then have "k \<le> 15" by (simp only: power_increasing_iff)
  then have "(2 :: nat) ^ k dvd 2 ^ 16" by (intro le_imp_power_dvd) simp
  then show "unat n dvd 2 ^ 16" by (simp only: k)
  show "0 < unat n" using k by simp
qed

definition fresh_queue :: "usize \<Rightarrow> dma_region \<Rightarrow> dma_region \<Rightarrow> dma_region \<Rightarrow> split_virtqueue" where
  "fresh_queue n dr ar ur = \<lparr>vq_size = n, freelist = map of_nat [0..<unat n],
     descriptors = \<lparr>dq_region = dr, table = replicate (unat n) descriptor_default\<rparr>,
     available = \<lparr>aq_region = ar, aq_flags = 0, aq_index = 0, aq_ring = replicate (unat n) 0\<rparr>,
     used = \<lparr>uq_region = ur, uq_flags = 0, uq_index = 0,
       uq_ring = replicate (unat n) \<lparr>start_index = 0, u_length = 0\<rparr>, last_seen = 0\<rparr>\<rparr>"

lemma dma_assume_init_id [simp]: "dma_assume_init r = r"
  by (simp add: dma_assume_init_def)

lemma virtqueue_new_fresh:
  assumes "virtqueue_new n s = ok (Inr (q, t))"
  shows "is_power_of_two n \<and> n \<le> 32768 \<and> (\<exists>dr ar ur. q = fresh_queue n dr ar ur)"
  using assms
  by (auto simp: virtqueue_new_def rbind_eq_ok fresh_queue_def split: if_splits prod.splits)

section \<open>Descriptors in use\<close>

text \<open>The runs of a driver that frees only descriptors it owns; anything may happen to the rest of the
  queue in between.\<close>

inductive queue_run :: "split_virtqueue \<Rightarrow> split_virtqueue \<Rightarrow> u16 set \<Rightarrow> bool" for q0 where
  start: "queue_run q0 q0 {}"
| alloc: "queue_run q0 q own \<Longrightarrow> alloc_descriptor q = (Some i, q') \<Longrightarrow> queue_run q0 q' (insert i own)"
| free: "queue_run q0 q own \<Longrightarrow> i \<in> own \<Longrightarrow> queue_run q0 (free_descriptor i q) (own - {i})"
| io: "queue_run q0 q own \<Longrightarrow> freelist q' = freelist q \<Longrightarrow> queue_run q0 q' own"

definition split_ownership :: "u16 list \<Rightarrow> u16 set \<Rightarrow> nat \<Rightarrow> bool" where
  "split_ownership fl own n \<longleftrightarrow> distinct fl \<and> set fl \<inter> own = {} \<and> set fl \<union> own = {i. unat i < n}"

lemma fresh_freelist:
  assumes "n \<le> (32768 :: usize)"
  shows "split_ownership (map of_nat [0..<unat n]) {} (unat n)"
proof -
  have n: "unat n \<le> 32768" using assms by (simp add: word_le_nat_alt)
  have "inj_on (of_nat :: nat \<Rightarrow> u16) (set [0..<unat n])"
  proof (rule inj_onI)
    fix i j assume ij: "i \<in> set [0..<unat n]" "j \<in> set [0..<unat n]" and eq: "(of_nat i :: u16) = of_nat j"
    have "unat (of_nat i :: u16) = i" "unat (of_nat j :: u16) = j" using n ij by (simp_all add: unat_of_nat)
    then show "i = j" using eq by metis
  qed
  moreover have "of_nat ` {0..<unat n} = {i :: u16. unat i < unat n}"
  proof (intro set_eqI iffI)
    fix i :: u16 assume "i \<in> of_nat ` {0..<unat n}"
    then show "i \<in> {i. unat i < unat n}" using n by (auto simp: unat_of_nat)
  next
    fix i :: u16 assume "i \<in> {i. unat i < unat n}"
    then show "i \<in> of_nat ` {0..<unat n}" by (intro image_eqI [of _ _ "unat i"]) simp_all
  qed
  ultimately show ?thesis by (simp add: split_ownership_def distinct_map)
qed

lemma alloc_Some: "alloc_descriptor q = (Some i, q') \<longleftrightarrow> freelist q \<noteq> [] \<and> i = last (freelist q) \<and> q' = q\<lparr>freelist := butlast (freelist q)\<rparr>"
  by (auto simp: alloc_descriptor_def)

lemma split_ownership_pop:
  assumes "split_ownership fl own n" "fl \<noteq> []"
  shows "split_ownership (butlast fl) (insert (last fl) own) n"
proof -
  obtain ys y where fl: "fl = ys @ [y]" using assms(2) by (metis append_butlast_last_id)
  show ?thesis using assms(1) by (auto simp: split_ownership_def fl)
qed

lemma split_ownership_push: "split_ownership fl own n \<Longrightarrow> i \<in> own \<Longrightarrow> split_ownership (fl @ [i]) (own - {i}) n"
  by (auto simp: split_ownership_def)

lemma queue_run_ownership:
  assumes "queue_run q0 q own" "split_ownership (freelist q0) {} n"
  shows "split_ownership (freelist q) own n"
  using assms
  by (induction rule: queue_run.induct)
    (auto simp: alloc_Some free_descriptor_def split_ownership_pop split_ownership_push)

end
