(* ===== verification/Virtio.thy ===== *)
theory Virtio
  imports Splitqueue
begin

text \<open>
  The VirtIO MMIO transport, LSD/src/drivers/virtio/mod.rs, and the entropy and input drivers
  (entropy/mod.rs, input/mod.rs, input/structs.rs). The device behind a header is a parameter: a bus
  says what a register read returns and how reads and writes change the device. Registers are named
  by their offsets in \<open>VirtIOHeader\<close>. Printed text is kept when it is constant or a character of the
  device's name; debug lines with formatted values are left out.
\<close>

section \<open>Devices and registers\<close>

record 'd bus =
  mmio_read :: "'d \<Rightarrow> u64 \<Rightarrow> u32 \<times> 'd"
  mmio_write :: "'d \<Rightarrow> u64 \<Rightarrow> u32 \<Rightarrow> 'd"

datatype printed = Line string | Letter u8

record 'd host =
  memory :: machine
  device :: 'd
  screen :: "printed list"

datatype register =
    Magic | Version | Dev_id | Vend_id | Dev_feat | Dev_feat_sel | Driver_feat | Driver_feat_sel
  | Queue_sel | Queue_size_max | Queue_size | Queue_ready | Queue_notify | Int_status | Int_ack
  | Status | Queue_desc | Queue_avail | Queue_used | Config_gen

fun reg_offset :: "register \<Rightarrow> u64" where
  "reg_offset Magic = 0x00"
| "reg_offset Version = 0x04"
| "reg_offset Dev_id = 0x08"
| "reg_offset Vend_id = 0x0C"
| "reg_offset Dev_feat = 0x10"
| "reg_offset Dev_feat_sel = 0x14"
| "reg_offset Driver_feat = 0x20"
| "reg_offset Driver_feat_sel = 0x24"
| "reg_offset Queue_sel = 0x30"
| "reg_offset Queue_size_max = 0x34"
| "reg_offset Queue_size = 0x38"
| "reg_offset Queue_ready = 0x44"
| "reg_offset Queue_notify = 0x50"
| "reg_offset Int_status = 0x60"
| "reg_offset Int_ack = 0x64"
| "reg_offset Status = 0x70"
| "reg_offset Queue_desc = 0x80"
| "reg_offset Queue_avail = 0x90"
| "reg_offset Queue_used = 0xA0"
| "reg_offset Config_gen = 0xFC"

definition reg_read :: "'d bus \<Rightarrow> register \<Rightarrow> 'd host \<Rightarrow> u32 \<times> 'd host" where
  "reg_read b r h = (let (v, d) = mmio_read b (device h) (reg_offset r) in (v, h\<lparr>device := d\<rparr>))"

definition reg_write :: "'d bus \<Rightarrow> register \<Rightarrow> u32 \<Rightarrow> 'd host \<Rightarrow> 'd host" where
  "reg_write b r v h = h\<lparr>device := mmio_write b (device h) (reg_offset r) v\<rparr>"

definition println :: "string \<Rightarrow> 'd host \<Rightarrow> 'd host" where
  "println t h = h\<lparr>screen := screen h @ [Line t]\<rparr>"

definition header_is_valid :: "'d bus \<Rightarrow> 'd host \<Rightarrow> bool \<times> 'd host" where
  "header_is_valid b h = (let (v, h) = reg_read b Magic h in (v = 0x74726976, h))"

datatype device_type =
    Reserved | Network | Block | Console | Entropy_device | TradMemBalloon | SCSIHost | GPU
  | Input_device | Socket | Cryptography

fun device_type_id :: "device_type \<Rightarrow> u32" where
  "device_type_id Reserved = 0"
| "device_type_id Network = 1"
| "device_type_id Block = 2"
| "device_type_id Console = 3"
| "device_type_id Entropy_device = 4"
| "device_type_id TradMemBalloon = 5"
| "device_type_id SCSIHost = 8"
| "device_type_id GPU = 16"
| "device_type_id Input_device = 18"
| "device_type_id Socket = 19"
| "device_type_id Cryptography = 20"

text \<open>The two halves of a queue address, at the register's offset and four bytes after it.\<close>

definition queue_address_set :: "'d bus \<Rightarrow> register \<Rightarrow> u64 \<Rightarrow> 'd host \<Rightarrow> 'd host" where
  "queue_address_set b r addr h =
     (let low = ucast (addr AND 0xFFFFFFFF) :: u32; high = ucast (drop_bit 32 addr) :: u32;
          h = h\<lparr>device := mmio_write b (device h) (reg_offset r) low\<rparr>
      in h\<lparr>device := mmio_write b (device h) (reg_offset r + 4) high\<rparr>)"

definition queue_desc_set :: "'d bus \<Rightarrow> u64 \<Rightarrow> 'd host \<Rightarrow> 'd host" where
  "queue_desc_set b = queue_address_set b Queue_desc"

definition queue_avail_set :: "'d bus \<Rightarrow> u64 \<Rightarrow> 'd host \<Rightarrow> 'd host" where
  "queue_avail_set b = queue_address_set b Queue_avail"

definition queue_used_set :: "'d bus \<Rightarrow> u64 \<Rightarrow> 'd host \<Rightarrow> 'd host" where
  "queue_used_set b = queue_address_set b Queue_used"

definition queue_size_write :: "'d bus \<Rightarrow> u32 \<Rightarrow> 'd host \<Rightarrow> 'd host" where
  "queue_size_write b = reg_write b Queue_size"

definition queue_ready :: "'d bus \<Rightarrow> 'd host \<Rightarrow> 'd host" where
  "queue_ready b = reg_write b Queue_ready 1"

definition queue_unready :: "'d bus \<Rightarrow> 'd host \<Rightarrow> 'd host" where
  "queue_unready b = reg_write b Queue_ready 0"

definition queue_notify :: "'d bus \<Rightarrow> u32 \<Rightarrow> 'd host \<Rightarrow> 'd host" where
  "queue_notify b = reg_write b Queue_notify"

definition int_ack :: "'d bus \<Rightarrow> u32 \<Rightarrow> 'd host \<Rightarrow> 'd host" where
  "int_ack b = reg_write b Int_ack"

datatype status_flag = Acknowledge | DeviceNeedsReset | Driver | DriverOk | Failed | FeaturesOk

fun status_bits :: "status_flag \<Rightarrow> u32" where
  "status_bits Acknowledge = 1"
| "status_bits DeviceNeedsReset = 64"
| "status_bits Driver = 2"
| "status_bits DriverOk = 4"
| "status_bits Failed = 128"
| "status_bits FeaturesOk = 8"

definition status_reset :: "'d bus \<Rightarrow> 'd host \<Rightarrow> 'd host" where
  "status_reset b = reg_write b Status 0"

definition status_set_flag :: "'d bus \<Rightarrow> status_flag \<Rightarrow> 'd host \<Rightarrow> 'd host" where
  "status_set_flag b flag h =
     (let (v, h) = reg_read b Status h in reg_write b Status (v OR status_bits flag) h)"

definition status_is_set :: "'d bus \<Rightarrow> status_flag \<Rightarrow> 'd host \<Rightarrow> bool \<times> 'd host" where
  "status_is_set b flag h =
     (let (v, h) = reg_read b Status h in (v AND status_bits flag = status_bits flag, h))"

definition status_failed :: "'d bus \<Rightarrow> 'd host \<Rightarrow> bool \<times> 'd host" where
  "status_failed b = status_is_set b Failed"

definition status_needs_reset :: "'d bus \<Rightarrow> 'd host \<Rightarrow> bool \<times> 'd host" where
  "status_needs_reset b = status_is_set b DeviceNeedsReset"

section \<open>What both drivers do\<close>

fun show_queue_error :: "splitqueue_error \<Rightarrow> string" where
  "show_queue_error MemoryAllocationError = ''MemoryAllocationError''"
| "show_queue_error NotPowerOfTwo = ''NotPowerOfTwo''"
| "show_queue_error TooLarge = ''TooLarge''"

text \<open>\<open>SplitVirtqueue::new(size).unwrap()\<close>.\<close>

definition unwrapped_queue :: "usize \<Rightarrow> 'd host \<Rightarrow> (split_virtqueue \<times> 'd host) result" where
  "unwrapped_queue n h =
     rbind (virtqueue_new n (memory h)) (\<lambda>r. case r of
       Inl e \<Rightarrow> fail (UnwrapErr (show_queue_error e))
     | Inr (q, s) \<Rightarrow> ok (q, h\<lparr>memory := s\<rparr>))"

text \<open>The driver accepts no feature, and goes on when the device does not agree.\<close>

definition features_ok :: "'d bus \<Rightarrow> 'd host \<Rightarrow> 'd host" where
  "features_ok b h =
     (let h = status_set_flag b FeaturesOk h; (accepted, h) = status_is_set b FeaturesOk h
      in if accepted then h else println ''Features not accepted'' h)"

section \<open>The entropy driver\<close>

record entropy =
  req :: split_virtqueue

definition entropy_init :: "'d bus \<Rightarrow> 'd host \<Rightarrow> (entropy \<times> 'd host) result" where
  "entropy_init b h =
     rbind (unwrapped_queue 8 h) (\<lambda>(queue, h).
     let h = status_reset b h;
         h = status_set_flag b Acknowledge h;
         h = status_set_flag b Driver h;
         h = reg_write b Dev_feat_sel 0 h;
         h = reg_write b Driver_feat_sel 0 h;
         h = reg_write b Driver_feat 0 h;
         h = features_ok b h;
         h = reg_write b Queue_sel 0 h;
         h = queue_avail_set b (phys (aq_region (available queue))) h;
         h = queue_desc_set b (phys (dq_region (descriptors queue))) h;
         h = queue_used_set b (phys (uq_region (used queue))) h;
         h = queue_size_write b (queue_size_u32 queue) h;
         h = queue_ready b h;
         h = status_set_flag b DriverOk h
     in ok (\<lparr>req = queue\<rparr>, h))"

text \<open>Allocating a descriptor, writing it, and pushing index 0.\<close>

definition offer_zero :: "descriptor \<Rightarrow> split_virtqueue \<Rightarrow> split_virtqueue result" where
  "offer_zero desc q =
     (case alloc_descriptor q of
        (index, q) \<Rightarrow>
          rbind (unwrap_opt index) (\<lambda>index.
          rbind (descriptor_write index desc (descriptors q)) (\<lambda>dq.
          rbind (available_push 0 (available q)) (\<lambda>aq.
          ok (q\<lparr>descriptors := dq, available := aq\<rparr>)))))"

definition entropy_request :: "'d bus \<Rightarrow> usize \<Rightarrow> entropy \<times> 'd host \<Rightarrow> (entropy \<times> 'd host) result" where
  "entropy_request b byte_len = (\<lambda>(e, h).
     let h = println ''Requesting random number'' h in
     rbind (dma_new_many 1 byte_len (memory h)) (\<lambda>(dma, s).
     let desc = \<lparr>address = phys dma, d_length = ucast byte_len, d_flags = flags_WRITE, d_next = 0\<rparr> in
     rbind (zero_bytes (virt dma) byte_len s) (\<lambda>s.
     rbind (offer_zero desc (req e)) (\<lambda>q.
     ok (\<lparr>req = q\<rparr>, queue_notify b 0 (h\<lparr>memory := s\<rparr>))))))"

section \<open>The input driver\<close>

datatype input_select = Unset | IDName | IDSerial | IDDevIDs | PropBits | EVBits | ABSInfo

fun select_byte :: "input_select \<Rightarrow> u8" where
  "select_byte Unset = 0x00"
| "select_byte IDName = 0x01"
| "select_byte IDSerial = 0x02"
| "select_byte IDDevIDs = 0x03"
| "select_byte PropBits = 0x10"
| "select_byte EVBits = 0x11"
| "select_byte ABSInfo = 0x12"

definition select_of_byte :: "u8 \<Rightarrow> input_select option" where
  "select_of_byte v = find (\<lambda>s. select_byte s = v) [Unset, IDName, IDSerial, IDDevIDs, PropBits, EVBits, ABSInfo]"

record input =
  eventqueue :: split_virtqueue
  statusqueue :: split_virtqueue

text \<open>The registers of one queue.\<close>

definition queue_setup :: "'d bus \<Rightarrow> u32 \<Rightarrow> split_virtqueue \<Rightarrow> 'd host \<Rightarrow> 'd host" where
  "queue_setup b sel q h =
     (let h = reg_write b Queue_sel sel h;
          h = queue_desc_set b (phys (dq_region (descriptors q))) h;
          h = queue_avail_set b (phys (aq_region (available q))) h;
          h = queue_used_set b (phys (uq_region (used q))) h;
          h = queue_size_write b (queue_size_u32 q) h
      in queue_ready b h)"

definition input_new :: "'d bus \<Rightarrow> usize \<Rightarrow> 'd host \<Rightarrow> (input \<times> 'd host) result" where
  "input_new b queue_size h =
     rbind (unwrapped_queue queue_size h) (\<lambda>(event, h).
     rbind (unwrapped_queue queue_size h) (\<lambda>(status, h).
     let h = status_reset b h;
         h = status_set_flag b Acknowledge h;
         h = status_set_flag b Driver h;
         h = reg_write b Driver_feat_sel 0 h;
         h = reg_write b Dev_feat_sel 0 h;
         h = reg_write b Driver_feat 0 h;
         h = features_ok b h;
         h = queue_setup b 0 event h;
         h = queue_setup b 1 status h;
         h = status_set_flag b DriverOk h;
         (failed, h) = status_failed b h;
         h = (if failed then println ''Input Error during queue setup'' h else h)
     in ok (\<lparr>eventqueue = event, statusqueue = status\<rparr>, h)))"

text \<open>The 136 bytes of an \<open>InputConfig\<close>: select, subsel, size, five reserved bytes, the union.\<close>

definition config_bytes :: "input_select \<Rightarrow> u8 \<Rightarrow> u8 list" where
  "config_bytes select subsel = [select_byte select, subsel, 0] @ replicate 5 0 @ replicate 128 0"

definition write_bytes :: "u64 \<Rightarrow> u8 list \<Rightarrow> machine \<Rightarrow> machine result" where
  "write_bytes p bs s = rfold (\<lambda>i s. wr_byte s (p + of_nat i) (bs ! i)) [0..<length bs] s"

definition input_command :: "'d bus \<Rightarrow> input_select \<Rightarrow> u8 \<Rightarrow> input \<times> 'd host \<Rightarrow> (input \<times> 'd host) result" where
  "input_command b select subsel = (\<lambda>(inp, h).
     let h = println ''Storing command'' h in
     rbind (dma_new_raw 136 0 True (memory h)) (\<lambda>(dma, s).
     rbind (write_bytes (virt dma) (config_bytes select subsel) s) (\<lambda>s.
     let desc = \<lparr>address = phys dma, d_length = 136, d_flags = flags_WRITE, d_next = 0\<rparr>;
         h = println ''Allocating descriptor'' (h\<lparr>memory := s\<rparr>) in
     rbind (offer_zero desc (statusqueue inp)) (\<lambda>q.
     let h = println ''Notifying'' (println ''Storing available'' h)
     in ok (inp\<lparr>statusqueue := q\<rparr>, queue_notify b 1 h)))))"

definition input_init :: "'d bus \<Rightarrow> 'd host \<Rightarrow> (input \<times> 'd host) result" where
  "input_init b h =
     rbind (input_new b 8 h) (\<lambda>(inp, h).
     let h = println ''Name command sending'' h in input_command b IDName 0 (inp, h))"

text \<open>The interrupt handler: the element used last, of the status queue first; its descriptor; the
  config at the descriptor's address. A select byte that is no discriminant is undefined behaviour in
  the source and a fault here.\<close>

definition used_descriptor :: "input \<Rightarrow> (descriptor \<times> input) result" where
  "used_descriptor inp =
     rbind (used_pop (used (statusqueue inp))) (\<lambda>(index, uq).
     let inp = inp\<lparr>statusqueue := (statusqueue inp)\<lparr>used := uq\<rparr>\<rparr> in
     case index of
       Some e \<Rightarrow>
         rbind (descriptor_read (descriptors (statusqueue inp)) (ucast (start_index e))) (\<lambda>d. ok (d, inp))
     | None \<Rightarrow>
         rbind (used_pop (used (eventqueue inp))) (\<lambda>(index, uq).
         let inp = inp\<lparr>eventqueue := (eventqueue inp)\<lparr>used := uq\<rparr>\<rparr> in
         case index of
           None \<Rightarrow> fail (Panic ''No used entry'')
         | Some e \<Rightarrow>
             rbind (descriptor_read (descriptors (eventqueue inp)) (ucast (start_index e))) (\<lambda>d. ok (d, inp))))"

definition print_name :: "u64 \<Rightarrow> nat \<Rightarrow> 'd host \<Rightarrow> 'd host result" where
  "print_name base n h =
     rfold (\<lambda>i h. if i < 128
        then rbind (rd_byte (memory h) (base + 8 + of_nat i)) (\<lambda>c. ok (h\<lparr>screen := screen h @ [Letter c]\<rparr>))
        else fail (OutOfBounds i 128)) [0..<n] h"

definition input_handle_int :: "'d bus \<Rightarrow> input \<times> 'd host \<Rightarrow> (input \<times> 'd host) result" where
  "input_handle_int b = (\<lambda>(inp, h).
     let h = println ''Input int'' h; (status, h) = reg_read b Int_status h in
     rbind (used_descriptor inp) (\<lambda>(desc, inp).
     let base = address desc + hhdm (memory h) in
     rbind (rd_byte (memory h) base) (\<lambda>select.
     case select_of_byte select of
       None \<Rightarrow> fail (Panic ''invalid InputConfigSelect'')
     | Some IDName \<Rightarrow>
         rbind (rd_byte (memory h) (base + 2)) (\<lambda>n.
         rbind (if n \<noteq> 0
                then rbind (print_name base (unat n) (println ''Reading name'' h)) (\<lambda>h. ok (println '''' h))
                else ok (println ''No data sent for name'' h)) (\<lambda>h.
         ok (inp, int_ack b status h)))
     | Some _ \<Rightarrow> fail (Panic ''Cant handle request''))))"

end
