(* ===== verification/Rtc.thy ===== *)
theory Rtc
  imports Kernel_Prelude
begin

text \<open>
  The real-time clock, LSD/src/drivers/goldfish_rtc/mod.rs: the time and alarm registers and the
  conversion of a Unix timestamp to a date. The registers are pairs of u32 (low, high); a read of
  \<open>Time\<close> reads the pair twice and takes one half of each. A \<open>usize\<close> subtraction below zero wraps.
\<close>

section \<open>Registers\<close>

text \<open>\<open>Time::read\<close>: \<open>first\<close> and \<open>second\<close> are what the device returns for the two volatile reads.\<close>

definition time_read :: "u32 \<times> u32 \<Rightarrow> u32 \<times> u32 \<Rightarrow> u64" where
  "time_read first second =
     (let low = ucast (fst first) :: u64; high = ucast (snd second) :: u64
      in (push_bit 32 high + low) div 1000000000)"

text \<open>\<open>Alarm::write\<close>: the array it stores.\<close>

definition alarm_write :: "u64 \<Rightarrow> u32 \<times> u32" where
  "alarm_write val = (ucast (val AND 0xFFFFFFFF), ucast (drop_bit 32 val))"

section \<open>Dates\<close>

datatype month =
    January | Febuary | March | April | May | June | July | August | September | October
  | November | December

record date =
  d_year :: usize
  d_month :: month
  d_day :: usize
  d_hour :: usize
  d_minute :: usize
  d_second :: usize

fun month_offset :: "bool \<Rightarrow> month \<Rightarrow> usize" where
  "month_offset is_leap January = 0"
| "month_offset is_leap Febuary = 31"
| "month_offset is_leap March = 59 - (if is_leap then 1 else 0)"
| "month_offset is_leap April = 90 - (if is_leap then 1 else 0)"
| "month_offset is_leap May = 120 - (if is_leap then 1 else 0)"
| "month_offset is_leap June = 151 - (if is_leap then 1 else 0)"
| "month_offset is_leap July = 181 - (if is_leap then 1 else 0)"
| "month_offset is_leap August = 212 - (if is_leap then 1 else 0)"
| "month_offset is_leap September = 243 - (if is_leap then 1 else 0)"
| "month_offset is_leap October = 273 - (if is_leap then 1 else 0)"
| "month_offset is_leap November = 304 - (if is_leap then 1 else 0)"
| "month_offset is_leap December = 334 - (if is_leap then 1 else 0)"

definition month_from_offset :: "usize \<Rightarrow> bool \<Rightarrow> month result" where
  "month_from_offset offset is_leap =
     (let leap_offset = (if is_leap then 1 else 0) :: usize in
      if 0 \<le> offset \<and> offset < 31 then ok January
      else if 31 \<le> offset \<and> offset < 59 + leap_offset then ok Febuary
      else if 59 \<le> offset \<and> offset < 90 + leap_offset then ok March
      else if 90 \<le> offset \<and> offset < 120 + leap_offset then ok April
      else if 120 \<le> offset \<and> offset < 151 + leap_offset then ok May
      else if 151 \<le> offset \<and> offset < 181 + leap_offset then ok June
      else if 181 \<le> offset \<and> offset < 212 + leap_offset then ok July
      else if 212 \<le> offset \<and> offset < 243 + leap_offset then ok August
      else if 243 \<le> offset \<and> offset < 273 + leap_offset then ok September
      else if 273 \<le> offset \<and> offset < 304 + leap_offset then ok October
      else if 304 \<le> offset \<and> offset < 334 + leap_offset then ok November
      else if 334 \<le> offset \<and> offset < 365 + leap_offset then ok December
      else fail (Panic ''Invalid offset''))"

text \<open>\<open>UnixTimestamp::date\<close>.\<close>

definition timestamp_date :: "u64 \<Rightarrow> date result" where
  "timestamp_date seconds =
     (let minutes = seconds div 60;
          hours = seconds div 3600;
          days = (seconds mod 31556926) div 86400;
          years = seconds div 31556926
      in rbind (month_from_offset days (years mod 4 \<noteq> 0)) (\<lambda>months.
         ok \<lparr>d_year = years, d_month = months, d_day = days - month_offset (years mod 4 \<noteq> 0) months,
             d_hour = hours mod 24, d_minute = minutes mod 60, d_second = seconds mod 60\<rparr>))"

section \<open>Printing\<close>

text \<open>The \<open>Debug\<close> of a date.\<close>

fun show_month :: "month \<Rightarrow> string" where
  "show_month January = ''January''"
| "show_month Febuary = ''Febuary''"
| "show_month March = ''March''"
| "show_month April = ''April''"
| "show_month May = ''May''"
| "show_month June = ''June''"
| "show_month July = ''July''"
| "show_month August = ''August''"
| "show_month September = ''September''"
| "show_month October = ''October''"
| "show_month November = ''November''"
| "show_month December = ''December''"

definition date_fmt :: "bool \<Rightarrow> date \<Rightarrow> string" where
  "date_fmt alternate d =
     (let n = (\<lambda>w :: usize. show_nat (unat w)); line = [CHR 0x0A] in
      if alternate
      then ''year: '' @ n (d_year d + 1970) @ line @ ''month: '' @ show_month (d_month d) @ line
           @ ''day: '' @ n (d_day d) @ line @ ''hour: '' @ n (d_hour d) @ line
           @ ''minute: '' @ n (d_minute d) @ line @ ''second: '' @ n (d_second d)
      else n (d_day d) @ '' of '' @ show_month (d_month d) @ '' '' @ n (d_year d + 1970) @ '' ''
           @ n (d_hour d) @ '':'' @ n (d_minute d) @ '':'' @ n (d_second d))"

section \<open>A calendar year\<close>

text \<open>A year as the lengths of its months: the month of a day of the year and the days before it
  in the month.\<close>

fun month_day :: "nat list \<Rightarrow> nat \<Rightarrow> (nat \<times> nat) option" where
  "month_day [] d = None"
| "month_day (l # ls) d = (if d < l then Some (0, d) else map_option (map_prod Suc id) (month_day ls (d - l)))"

definition month_lengths :: "bool \<Rightarrow> nat list" where
  "month_lengths leap = [31, if leap then 29 else 28, 31, 30, 31, 30, 31, 31, 30, 31, 30, 31]"

fun month_index :: "month \<Rightarrow> nat" where
  "month_index January = 0"
| "month_index Febuary = 1"
| "month_index March = 2"
| "month_index April = 3"
| "month_index May = 4"
| "month_index June = 5"
| "month_index July = 6"
| "month_index August = 7"
| "month_index September = 8"
| "month_index October = 9"
| "month_index November = 10"
| "month_index December = 11"

text \<open>What \<open>from_offset\<close> and \<open>offset\<close> make of a day of the year: the month is right for the number
  of days of February it was told, the day of the month is two too many from March on in a year
  taken for a leap year.\<close>

definition day_shift :: "bool \<Rightarrow> nat \<Rightarrow> nat" where
  "day_shift leap m = (if leap \<and> 2 \<le> m then 2 else 0)"

lemma month_day_Some:
  "month_day ls d = Some (m, k) \<longleftrightarrow> m < length ls \<and> d = sum_list (take m ls) + k \<and> k < ls ! m"
proof (induction ls arbitrary: d m)
  case (Cons l ls)
  show ?case
  proof (cases m)
    case 0
    then show ?thesis by auto
  next
    case (Suc n)
    then show ?thesis using Cons.IH [of "d - l" n] by (auto simp: map_prod_def split: prod.splits)
  qed
qed simp

lemma month_day_None: "month_day ls d = None \<longleftrightarrow> sum_list ls \<le> d"
proof (induction ls arbitrary: d)
  case (Cons l ls)
  have "sum_list ls \<le> d - l \<longleftrightarrow> l + sum_list ls \<le> d" if "\<not> d < l" using that by linarith
  then show ?case by (cases "d < l") (simp_all add: Cons.IH)
qed simp

lemma word_numeral_less:
  "x < (numeral n :: usize) \<longleftrightarrow> unat x < unat (numeral n :: usize)"
  "(numeral n :: usize) \<le> x \<longleftrightarrow> unat (numeral n :: usize) \<le> unat x"
  by (simp_all add: word_less_nat_alt word_le_nat_alt)

lemma unat_minus_numeral:
  "unat (numeral n :: usize) \<le> unat (x :: usize) \<Longrightarrow> unat (x - numeral n) = unat x - unat (numeral n :: usize)"
  unfolding word_le_nat_alt [symmetric] by (rule unat_sub)

lemma month_range:
  assumes "month_day (month_lengths leap) d = Some (m, k)"
  shows "m < 12 \<and> d = sum_list (take m (month_lengths leap)) + k \<and> k < month_lengths leap ! m"
  using assms unfolding month_day_Some by (simp add: month_lengths_def)

lemma from_offset_Some:
  assumes "month_day (month_lengths leap) (unat x) = Some (m, k)"
  shows "\<exists>mo. month_from_offset x leap = ok mo \<and> month_index mo = m
    \<and> unat (x - month_offset leap mo) = k + day_shift leap m"
proof -
  note r = month_range [OF assms]
  have "m = 0 \<or> m = 1 \<or> m = 2 \<or> m = 3 \<or> m = 4 \<or> m = 5 \<or> m = 6 \<or> m = 7 \<or> m = 8 \<or> m = 9
      \<or> m = 10 \<or> m = 11" using conjunct1 [OF r] by presburger
  then show ?thesis using r
    by (cases leap; elim disjE)
       (simp_all add: month_lengths_def month_from_offset_def Let_def word_numeral_less
          unat_minus_numeral day_shift_def)
qed

lemma from_offset_None:
  assumes "month_day (month_lengths leap) (unat x) = None"
  shows "month_from_offset x leap = fail (Panic ''Invalid offset'')"
  using assms unfolding month_day_None
  by (cases leap)
    (simp_all add: month_lengths_def month_from_offset_def Let_def word_numeral_less)

text \<open>When the month is found, it is the month with that index and the day fits a \<open>usize\<close>.\<close>

definition month_at :: "nat \<Rightarrow> month" where
  "month_at m = [January, Febuary, March, April, May, June, July, August, September, October,
     November, December] ! m"

lemma month_at_index: "month_at (month_index mo) = mo"
  by (cases mo) (simp_all add: month_at_def)

section \<open>Reading the clock\<close>

lemma time_alarm_roundtrip: "time_read (alarm_write v) (alarm_write v) = v div 1000000000"
proof -
  have "push_bit 32 (ucast (ucast (drop_bit 32 v) :: u32)) + ucast (ucast (v AND 0xFFFFFFFF) :: u32) = v"
  proof -
    have lo: "ucast (ucast (v AND 0xFFFFFFFF) :: u32) = take_bit 32 v"
      by (rule bit_eqI) (auto simp: bit_simps simp flip: mask_numeral mask_eq_exp_minus_1
          simp: take_bit_eq_mask [of 32 v, unfolded mask_eq_exp_minus_1, simplified, symmetric])
    have hi: "push_bit 32 (ucast (ucast (drop_bit 32 v) :: u32)) = push_bit 32 (drop_bit 32 v)"
      by (rule bit_eqI) (auto simp: bit_simps)
    have "push_bit 32 (drop_bit 32 v) + take_bit 32 v = v"
      by (metis bits_ident)
    then show ?thesis by (simp only: lo hi)
  qed
  then show ?thesis by (simp add: time_read_def alarm_write_def Let_def)
qed

text \<open>The two halves come from two reads: when the counter's upper half steps in between, the time is
  more than four seconds ahead of both readings.\<close>

lemma torn_read:
  assumes "h < 2 ^ 32 - 1" and "l < 2 ^ 32"
  shows "unat (time_read (of_nat l, of_nat h) (of_nat l', of_nat (Suc h)))
    = (2 ^ 32 * Suc h + l) div 1000000000"
proof -
  have h: "unat (ucast (of_nat (Suc h) :: u32) :: u64) = Suc h" and l: "unat (ucast (of_nat l :: u32) :: u64) = l"
    using assms by (simp_all add: unsigned_ucast_eq unat_of_nat_less take_bit_nat_eq_self del: of_nat_Suc)
  have b: "2 ^ 32 * Suc h + l < 2 ^ 64" using assms by simp
  have "unat (push_bit 32 (ucast (of_nat (Suc h) :: u32)) + ucast (of_nat l :: u32) :: u64) = 2 ^ 32 * Suc h + l"
    using b by (simp add: push_bit_eq_mult unat_word_ariths h l del: of_nat_Suc)
  then show ?thesis by (simp add: time_read_def Let_def unat_div del: of_nat_Suc)
qed

section \<open>Properties\<close>

lemma date_run:
  "timestamp_date ts =
     (let y = unat ts div 31556926; leap = (y mod 4 \<noteq> 0)
      in case month_day (month_lengths leap) (unat ts mod 31556926 div 86400) of
        None \<Rightarrow> fail (Panic ''Invalid offset'')
      | Some (m, k) \<Rightarrow> ok \<lparr>d_year = of_nat y, d_month = month_at m, d_day = of_nat (k + day_shift leap m),
          d_hour = of_nat (unat ts div 3600 mod 24), d_minute = of_nat (unat ts div 60 mod 60),
          d_second = of_nat (unat ts mod 60)\<rparr>)"
proof -
  let ?d = "(ts mod 31556926) div 86400" and ?y = "ts div 31556926"
  have d: "unat ?d = unat ts mod 31556926 div 86400" and y: "unat ?y = unat ts div 31556926"
    by (simp_all add: unat_div unat_mod)
  have leap: "(?y mod 4 \<noteq> 0) = (unat ts div 31556926 mod 4 \<noteq> 0)"
    by (simp add: unat_eq_zero [symmetric] unat_mod y)
  have parts: "ts div 3600 mod 24 = of_nat (unat ts div 3600 mod 24)"
    "ts div 60 mod 60 = of_nat (unat ts div 60 mod 60)" "ts mod 60 = of_nat (unat ts mod 60)"
    "?y = of_nat (unat ts div 31556926)"
    by (rule of_nat_of_unat [symmetric], simp add: unat_div unat_mod)+
  define lp where "lp = (unat ts div 31556926 mod 4 \<noteq> 0)"
  have run: "timestamp_date ts = rbind (month_from_offset ?d lp) (\<lambda>mo. ok \<lparr>d_year = of_nat (unat ts div 31556926),
      d_month = mo, d_day = ?d - month_offset lp mo, d_hour = of_nat (unat ts div 3600 mod 24),
      d_minute = of_nat (unat ts div 60 mod 60), d_second = of_nat (unat ts mod 60)\<rparr>)"
    unfolding timestamp_date_def Let_def leap lp_def [symmetric] parts(1-3) parts(4) [symmetric] ..
  show ?thesis
  proof (cases "month_day (month_lengths lp) (unat ?d)")
    case None
    from from_offset_None [OF this] None show ?thesis unfolding run Let_def lp_def [symmetric] by (simp add: d)
  next
    case (Some mk)
    obtain m k where mk: "mk = (m, k)" by (cases mk)
    from from_offset_Some [OF Some [unfolded mk]] obtain mo where mo: "month_from_offset ?d lp = ok mo"
      "month_index mo = m" "unat (?d - month_offset lp mo) = k + day_shift lp m"
      by blast
    have "month_at m = mo" "?d - month_offset lp mo = of_nat (k + day_shift lp m)"
      using mo(2) month_at_index of_nat_of_unat [OF mo(3)] by (blast, simp)
    with mo(1) Some [unfolded d] mk show ?thesis unfolding run Let_def lp_def [symmetric] by simp
  qed
qed

text \<open>C26. A date against the calendar of the year it assumes (31556926 seconds, February of 29 days
  unless the year number since 1970 is a multiple of 4): the conversion panics in the last 20926
  seconds of a year with 28 days in February; otherwise the month is the calendar's and the day of
  the month, counted from 0, is two too many from March on when February has 29 days.\<close>

theorem date_against_calendar:
  "let y = unat ts div 31556926; leap = (y mod 4 \<noteq> 0); t = unat ts mod 31556926
   in if \<not> leap \<and> 31536000 \<le> t then timestamp_date ts = fail (Panic ''Invalid offset'')
      else \<exists>m k. month_day (month_lengths leap) (t div 86400) = Some (m, k)
        \<and> timestamp_date ts = ok \<lparr>d_year = of_nat y, d_month = month_at m, d_day = of_nat (k + day_shift leap m),
          d_hour = of_nat (unat ts div 3600 mod 24), d_minute = of_nat (unat ts div 60 mod 60),
          d_second = of_nat (unat ts mod 60)\<rparr>"
proof -
  let ?leap = "unat ts div 31556926 mod 4 \<noteq> 0" and ?d = "unat ts mod 31556926 div 86400"
  note none = month_day_None [of "month_lengths ?leap" ?d]
  have "?d \<le> 365" using mod_less_divisor [of 31556926 "unat ts"] by linarith
  moreover have "?d < 365 \<longleftrightarrow> unat ts mod 31556926 < 31536000" by linarith
  moreover have "sum_list (month_lengths ?leap) = (if ?leap then 366 else 365)" by (simp add: month_lengths_def)
  ultimately have "month_day (month_lengths ?leap) ?d = None \<longleftrightarrow> \<not> ?leap \<and> 31536000 \<le> unat ts mod 31556926"
    unfolding none by auto
  then show ?thesis
    using date_run [of ts] unfolding Let_def
    by (cases "month_day (month_lengths ?leap) ?d") (auto split: prod.splits)
qed

end
