(* ===== verification/Driver_Properties.thy ===== *)
theory Driver_Properties
  imports Virtio Rtc Boot_Example
begin

text \<open>
  The properties of the drivers and of the memory they share with devices, with the machine and the
  device on which their hypotheses hold.
\<close>

section \<open>A queue on a machine with free frames\<close>

lemma virtqueue_new_ok:
  assumes s: "free_frames s off (a # b # c # d # xs)" and n: "is_power_of_two n" "unat n \<le> 256"
  shows "\<exists>t. virtqueue_new n s = ok (Inr (fresh_queue n (region_at off a n) (region_at off b n) (region_at off c n), t))
    \<and> free_frames t off (d # xs)"
proof -
  have pos: "0 < unat n" using n(1) by (auto simp: is_power_of_two_def unat_gt_0)
  have le: "n \<le> 32768" using n(2) by (simp add: word_le_nat_alt)
  have sizes: "unat (16 * n) = 16 * unat n" "unat (4 + 2 * n) = 4 + 2 * unat n" "unat (4 + 8 * n) = 4 + 8 * unat n"
    using n(2) by (simp_all add: unat_word_ariths)
  have room: "0 < unat (16 * n)" "unat (16 * n) \<le> 4096" "0 < unat (4 + 2 * n)" "unat (4 + 2 * n) \<le> 4096"
    "0 < unat (4 + 8 * n)" "unat (4 + 8 * n) \<le> 4096"
    using n(2) pos unfolding sizes by simp_all
  from one_frame [OF s room(1,2), of n] obtain s1 t1 where 1: "dma_claim (16 * n) s = ok (a, s1)" "zero_bytes a (16 * n) s1 = ok t1"
    "dma_at a n t1 = ok (region_at off a n, t1)" "free_frames t1 off (b # c # d # xs)" by blast
  from one_frame [OF 1(4) room(3,4), of n] obtain s2 t2 where 2: "dma_claim (4 + 2 * n) t1 = ok (b, s2)" "zero_bytes b (4 + 2 * n) s2 = ok t2"
    "dma_at b n t2 = ok (region_at off b n, t2)" "free_frames t2 off (c # d # xs)" by blast
  from one_frame [OF 2(4) room(5,6), of n] obtain s3 t3 where 3: "dma_claim (4 + 8 * n) t2 = ok (c, s3)" "zero_bytes c (4 + 8 * n) s3 = ok t3"
    "dma_at c n t3 = ok (region_at off c n, t3)" "free_frames t3 off (d # xs)" by blast
  show ?thesis
    using 1 2 3 n(1) le
    by (simp add: virtqueue_new_def dma_zeroed_many_def dma_new_raw_def descriptor_bytes_def
        available_bytes_def used_bytes_def fresh_queue_def)
qed

section \<open>The entropy driver\<close>

text \<open>A queue of 8 after \<open>k\<close> requests.\<close>

definition offered_zeros :: "nat \<Rightarrow> split_virtqueue \<Rightarrow> bool" where
  "offered_zeros k q \<longleftrightarrow> k \<le> 8 \<and> freelist q = map of_nat [0..<8 - k] \<and> aq_index (available q) = of_nat k
     \<and> aq_ring (available q) = replicate 8 0 \<and> length (table (descriptors q)) = 8
     \<and> (k < 8 \<longrightarrow> table (descriptors q) ! 0 = descriptor_default)"

lemma fresh_offered_zeros: "offered_zeros 0 (fresh_queue 8 dr ar ur)"
  by (simp add: offered_zeros_def fresh_queue_def)

lemma offer_zero_full: "offered_zeros 8 q \<Longrightarrow> offer_zero desc q = fail UnwrapNone"
  by (simp add: offered_zeros_def offer_zero_def alloc_descriptor_def)

lemma offer_zero_ok:
  assumes "offered_zeros k q" "k < 8"
  shows "offer_zero desc q = ok (q\<lparr>freelist := map of_nat [0..<7 - k],
      descriptors := (descriptors q)\<lparr>table := (table (descriptors q))[7 - k := desc]\<rparr>,
      available := (available q)\<lparr>aq_ring := replicate 8 0, aq_index := of_nat k + 1\<rparr>\<rparr>)"
proof -
  note q = assms(1) [unfolded offered_zeros_def]
  define m where "m = 7 - k"
  have suc: "8 - k = Suc m" and m: "m < 8" using assms(2) by (simp_all add: m_def)
  have "freelist q = map of_nat [0..<8 - k]" using q by blast
  then have fl: "freelist q = map of_nat [0..<m] @ [of_nat m]" unfolding suc by simp
  have u: "unat (of_nat m :: u16) = m" using m by (simp add: unat_of_nat)
  have ring: "ring_ok (replicate 8 (0 :: u16))" by (simp add: ring_ok_def)
  have same: "(replicate 8 (0 :: u16))[i := 0] = replicate 8 0" for i
  proof (rule nth_equalityI)
    fix j assume "j < length ((replicate 8 (0 :: u16))[i := 0])"
    then show "(replicate 8 (0 :: u16))[i := 0] ! j = replicate 8 0 ! j"
      by (cases "i = j") simp_all
  qed simp
  have "aq_index (available q) = of_nat k" "aq_ring (available q) = replicate 8 0" "length (table (descriptors q)) = 8"
    using q by blast+
  then show ?thesis
    using u m ring same available_push_ok [of "available q" 0] unfolding m_def [symmetric]
    by (simp add: offer_zero_def alloc_descriptor_def fl descriptor_write_def)
qed

lemma offer_zero_step:
  assumes "offered_zeros k q" "offer_zero desc q = ok q'"
  shows "k < 8 \<and> offered_zeros (Suc k) q' \<and> table (descriptors q') = (table (descriptors q))[7 - k := desc]"
proof -
  note q = assms(1) [unfolded offered_zeros_def]
  have k: "k < 8"
    using q offer_zero_full [of q desc] assms by (cases "k = 8") auto
  then show ?thesis using offer_zero_ok [OF assms(1) k, of desc] q assms(2)
    by (auto simp: offered_zeros_def add.commute)
qed

definition entropy_requests :: "'d bus \<Rightarrow> usize list \<Rightarrow> entropy \<times> 'd host \<Rightarrow> (entropy \<times> 'd host) result" where
  "entropy_requests b lens eh = rfold (entropy_request b) lens eh"

lemma entropy_request_step:
  assumes "entropy_request b n (e, h) = ok (e', h')" "offered_zeros k (req e)"
  shows "k < 8 \<and> offered_zeros (Suc k) (req e')
    \<and> (\<exists>p. table (descriptors (req e')) = (table (descriptors (req e)))
         [7 - k := \<lparr>address = p, d_length = ucast n, d_flags = flags_WRITE, d_next = 0\<rparr>])"
proof -
  from assms(1) have "\<exists>p q. e' = \<lparr>req = q\<rparr>
    \<and> offer_zero \<lparr>address = p, d_length = ucast n, d_flags = flags_WRITE, d_next = 0\<rparr> (req e) = ok q"
    by (auto simp: entropy_request_def Let_def rbind_eq_ok)
  then obtain p q where q: "e' = \<lparr>req = q\<rparr>"
    "offer_zero \<lparr>address = p, d_length = ucast n, d_flags = flags_WRITE, d_next = 0\<rparr> (req e) = ok q" by blast
  from offer_zero_step [OF assms(2) q(2)] q(1) show ?thesis by auto
qed

lemma entropy_requests_run:
  assumes "entropy_requests b lens (e, h) = ok (e', h')" "offered_zeros 0 (req e)"
  shows "offered_zeros (length lens) (req e')
    \<and> (\<forall>k < length lens. d_length (table (descriptors (req e')) ! (7 - k)) = ucast (lens ! k))"
  using assms(1)
proof (induction lens arbitrary: e' h' rule: rev_induct)
  case Nil
  then show ?case using assms(2) by (simp add: entropy_requests_def)
next
  case (snoc n lens)
  then obtain e1 h1 where 1: "entropy_requests b lens (e, h) = ok (e1, h1)" "entropy_request b n (e1, h1) = ok (e', h')"
    by (auto simp: entropy_requests_def rfold_append rbind_eq_ok)
  note ih = snoc.IH [OF 1(1)]
  let ?l = "length lens"
  from entropy_request_step [OF 1(2) conjunct1 [OF ih]] obtain p where l: "?l < 8" "offered_zeros (Suc ?l) (req e')"
    and t: "table (descriptors (req e')) = (table (descriptors (req e1)))
         [7 - ?l := \<lparr>address = p, d_length = ucast n, d_flags = flags_WRITE, d_next = 0\<rparr>]" by blast
  have "length (table (descriptors (req e1))) = 8" using ih by (simp add: offered_zeros_def)
  then have "d_length (table (descriptors (req e')) ! (7 - k)) = ucast ((lens @ [n]) ! k)" if "k < Suc ?l" for k
    using that ih l(1) unfolding t by (cases "k = ?l") (auto simp: nth_append nth_list_update)
  with l(2) show ?case by simp
qed

lemma pending_zeros: "k \<le> 8 \<Longrightarrow> pending (replicate 8 (0 :: u16)) (of_nat k) 0 = replicate k 0"
proof -
  assume "k \<le> 8"
  then have "unat (of_nat k :: u16) = k" by (simp add: unat_of_nat)
  moreover have "replicate 8 (0 :: u16) ! (m mod 8) = 0" for m by (rule nth_replicate) simp
  ultimately show ?thesis
    by (intro nth_equalityI) (simp_all add: pending_def)
qed

lemma unwrapped_queue_fresh:
  assumes "unwrapped_queue n h = ok (q, h')"
  shows "\<exists>dr ar ur. q = fresh_queue n dr ar ur"
proof -
  from assms obtain r where r: "virtqueue_new n (memory h) = ok r"
    "(case r of Inl e \<Rightarrow> fail (UnwrapErr (show_queue_error e)) | Inr (q, s) \<Rightarrow> ok (q, h\<lparr>memory := s\<rparr>)) = ok (q, h')"
    by (auto simp: unwrapped_queue_def rbind_eq_ok)
  then obtain s where "r = Inr (q, s)" by (cases r) auto
  with r(1) virtqueue_new_fresh show ?thesis by blast
qed

lemma entropy_init_fresh: "entropy_init b h = ok (e, h') \<Longrightarrow> offered_zeros 0 (req e)"
  by (auto simp: entropy_init_def rbind_eq_ok Let_def dest!: unwrapped_queue_fresh intro: fresh_offered_zeros)

section \<open>Properties of the entropy driver\<close>

text \<open>However many random numbers are requested, the device is only ever offered descriptor 0:
  the buffers are in the descriptors 7, 6, .. that no entry of the available ring names, descriptor 0
  is the empty one of the new queue until the eighth request, and there is no ninth.\<close>

theorem entropy_offers_empty_descriptor:
  assumes "entropy_init b h = ok (e, h1)" and "entropy_requests b lens (e, h1) = ok (e', h')"
  shows "length lens \<le> 8
    \<and> offered (available (req e'), 0) = replicate (length lens) 0
    \<and> (\<forall>k < length lens. d_length (table (descriptors (req e')) ! (7 - k)) = ucast (lens ! k))
    \<and> (length lens < 8 \<longrightarrow> table (descriptors (req e')) ! 0 = descriptor_default)"
proof -
  note run = entropy_requests_run [OF assms(2) entropy_init_fresh [OF assms(1)]]
  then have "aq_ring (available (req e')) = replicate 8 0" "aq_index (available (req e')) = of_nat (length lens)"
    "length lens \<le> 8" by (simp_all add: offered_zeros_def)
  with run pending_zeros show ?thesis by (simp add: offered_zeros_def offered_def)
qed

section \<open>A machine with a device\<close>

text \<open>A device whose registers read back what was written, and the machine \<open>warm\<close> with it.\<close>

definition register_file :: "(u64 \<Rightarrow> u32) bus" where
  "register_file = \<lparr>mmio_read = (\<lambda>d r. (d r, d)), mmio_write = (\<lambda>d r v. d(r := v))\<rparr>"

definition warm_host :: "(u64 \<Rightarrow> u32) host" where
  "warm_host = \<lparr>memory = warm, device = (\<lambda>_. 0), screen = []\<rparr>"

lemma warm_free: "free_frames warm 0x80000000 ram_frames"
  using warm_boots(2) warm_null by (simp add: free_frames_def)

lemma reg_write_memory [simp]: "memory (reg_write b r v h) = memory h"
  by (simp add: reg_write_def)

lemma reg_read_memory: "reg_read b r h = (v, h') \<Longrightarrow> memory h' = memory h"
  by (auto simp: reg_read_def Let_def split: prod.splits)

lemma println_memory [simp]: "memory (println t h) = memory h"
  by (simp add: println_def)

lemma status_set_flag_memory [simp]: "memory (status_set_flag b f h) = memory h"
  by (auto simp: status_set_flag_def Let_def split: prod.splits dest: reg_read_memory)

lemma status_is_set_memory: "status_is_set b f h = (v, h') \<Longrightarrow> memory h' = memory h"
  by (auto simp: status_is_set_def Let_def split: prod.splits dest: reg_read_memory)

lemma features_ok_memory [simp]: "memory (features_ok b h) = memory h"
  by (auto simp: features_ok_def Let_def split: prod.splits dest: status_is_set_memory)

lemma queue_address_set_memory [simp]: "memory (queue_address_set b r a h) = memory h"
  by (simp add: queue_address_set_def Let_def)

lemma entropy_init_ok:
  assumes "free_frames (memory h) off (a # b # c # d # xs)"
  shows "\<exists>e h'. entropy_init bus h = ok (e, h') \<and> free_frames (memory h') off (d # xs)"
proof -
  have n: "is_power_of_two 8" "unat (8 :: usize) \<le> 256" by (simp_all add: is_power_of_two_def)
  from virtqueue_new_ok [OF assms n] obtain t q where "virtqueue_new 8 (memory h) = ok (Inr (q, t))"
    "free_frames t off (d # xs)" by blast
  then show ?thesis
    by (simp add: entropy_init_def unwrapped_queue_def Let_def status_reset_def queue_avail_set_def queue_desc_set_def
        queue_used_set_def queue_size_write_def queue_ready_def)
qed

lemma entropy_request_ok:
  assumes "free_frames (memory h) off (x # y # ys)" "0 < unat n" "unat n \<le> 4096"
    and "offered_zeros k (req e)" "k < 8"
  shows "\<exists>e' h'. entropy_request b n (e, h) = ok (e', h') \<and> free_frames (memory h') off (y # ys)"
proof -
  from one_frame [OF assms(1-3), of n] obtain u t where u: "dma_claim n (memory h) = ok (x, u)" "zero_bytes x n u = ok t"
    "dma_at x n u = ok (region_at off x n, u)" "free_frames t off (y # ys)" by blast
  then show ?thesis using offer_zero_ok [OF assms(4,5)]
    by (simp add: entropy_request_def dma_new_many_def region_at_def queue_notify_def Let_def)
qed

lemma ram_frames_list: "\<exists>a b c d e f xs. ram_frames = a # b # c # d # e # f # xs"
  by (simp add: ram_frames_def upt_rec)

theorem entropy_offers_empty_descriptor_witness:
  "\<exists>e h1 e' h'. entropy_init register_file warm_host = ok (e, h1)
     \<and> entropy_requests register_file [16, 32] (e, h1) = ok (e', h')
     \<and> offered (available (req e'), 0) = [0, 0] \<and> d_length (table (descriptors (req e')) ! 6) = 32
     \<and> table (descriptors (req e')) ! 0 = descriptor_default"
proof -
  obtain a b c d e f xs where fr: "ram_frames = a # b # c # d # e # f # xs" using ram_frames_list by blast
  have "free_frames (memory warm_host) 0x80000000 (a # b # c # d # e # f # xs)"
    using warm_free by (simp add: fr warm_host_def)
  from entropy_init_ok [OF this, of register_file] obtain e0 h1 where
    1: "entropy_init register_file warm_host = ok (e0, h1)" "free_frames (memory h1) 0x80000000 (d # e # f # xs)" by blast
  have z: "offered_zeros 0 (req e0)" by (rule entropy_init_fresh [OF 1(1)])
  from entropy_request_ok [OF 1(2) _ _ z, of 16 register_file] obtain e1 h2 where
    2: "entropy_request register_file 16 (e0, h1) = ok (e1, h2)" "free_frames (memory h2) 0x80000000 (e # f # xs)" by auto
  have "offered_zeros 1 (req e1)" using entropy_request_step [OF 2(1) z] by simp
  from entropy_request_ok [OF 2(2) _ _ this, of 32 register_file] obtain e2 h3 where
    3: "entropy_request register_file 32 (e1, h2) = ok (e2, h3)" by auto
  have run: "entropy_requests register_file [16, 32] (e0, h1) = ok (e2, h3)" using 2 3 by (simp add: entropy_requests_def)
  from entropy_offers_empty_descriptor [OF 1(1) run]
  have "offered (available (req e2), 0) = [0, 0]" "table (descriptors (req e2)) ! 0 = descriptor_default"
    "\<forall>k < 2. d_length (table (descriptors (req e2)) ! (7 - k)) = ucast ([16, 32 :: usize] ! k)"
    by (simp_all add: numeral_2_eq_2)
  from this(3) [rule_format, of 1] this(1,2) 1(1) run show ?thesis by (intro exI conjI) simp_all
qed

section \<open>Properties of the rings\<close>

text \<open>C23. Whatever the interleaving of the two sides and wherever the 16-bit indices wrap, a ring that
  is pushed to only when it has room is first in, first out: the device takes the indices the driver
  pushed, and the driver pops the elements the device completed, in order and none twice; storing an
  index without publishing it shows the device nothing; and \<open>drain\<close> yields exactly what is pending.\<close>

theorem rings_are_fifo:
  assumes "available_ok (aq, seen)" "fits (length (aq_ring aq)) (length (offered (aq, seen))) acts"
    and "used_ok uq" "fits (length (uq_ring uq)) (length (completed uq)) events"
  shows "(\<exists>out t. ring_run driver_push device_take acts (aq, seen) = ok (out, t)
      \<and> out @ offered t = offered (aq, seen) @ pushed acts)
    \<and> (\<exists>out t. ring_run device_complete used_pop events uq = ok (out, t)
      \<and> out @ completed t = completed uq @ pushed events
      \<and> used_drain t = ok (completed t, t\<lparr>last_seen := uq_index t\<rparr>))
    \<and> (length (offered (aq, seen)) < length (aq_ring aq) \<longrightarrow>
       (\<exists>aq'. available_store i aq = ok aq' \<and> offered (aq', seen) = offered (aq, seen)))"
proof (intro conjI impI)
  show "\<exists>out t. ring_run driver_push device_take acts (aq, seen) = ok (out, t)
      \<and> out @ offered t = offered (aq, seen) @ pushed acts"
    using available.run_fifo [OF assms(1), of acts] assms(2) by auto
  obtain out t where t: "ring_run device_complete used_pop events uq = ok (out, t)" "used_ok t"
    "out @ completed t = completed uq @ pushed events"
    using used.run_fifo [OF assms(3,4)] by blast
  have "uq_ring t \<noteq> []" using t(2) ring_ok_pos by (auto simp: used_ok_def)
  from used_drain_completed [OF this] t
  show "\<exists>out t. ring_run device_complete used_pop events uq = ok (out, t)
      \<and> out @ completed t = completed uq @ pushed events
      \<and> used_drain t = ok (completed t, t\<lparr>last_seen := uq_index t\<rparr>)" by blast
next
  assume "length (offered (aq, seen)) < length (aq_ring aq)"
  then show "\<exists>aq'. available_store i aq = ok aq' \<and> offered (aq', seen) = offered (aq, seen)"
    using assms(1) pending_store [of "aq_ring aq" "aq_index aq" seen]
    by (simp add: available_ok_def offered_def available_store_ok)
qed

definition wrapping_ring :: available_queue where
  "wrapping_ring = \<lparr>aq_region = region_at 0 0 0, aq_flags = 0, aq_index = 65535, aq_ring = [9, 9]\<rparr>"

definition wrapping_used :: used_queue where
  "wrapping_used = \<lparr>uq_region = region_at 0 0 0, uq_flags = 0, uq_index = 65535,
     uq_ring = [\<lparr>start_index = 9, u_length = 9\<rparr>, \<lparr>start_index = 9, u_length = 9\<rparr>], last_seen = 65535\<rparr>"

lemma wrapping_ok:
  "available_ok (wrapping_ring, 65535)" "offered (wrapping_ring, 65535) = []" "length (aq_ring wrapping_ring) = 2"
  "used_ok wrapping_used" "completed wrapping_used = []" "length (uq_ring wrapping_used) = 2"
  by (simp_all add: available_ok_def used_ok_def wrapping_ring_def wrapping_used_def ring_ok_def offered_def
      completed_def pending_def flip: numeral_2_eq_2)

theorem rings_are_fifo_witness:
  "\<exists>out t. ring_run driver_push device_take [Push 3, Push 1, Pop, Push 2, Pop, Pop] (wrapping_ring, 65535) = ok (out, t)
     \<and> out @ offered t = [3, 1, 2]"
  using rings_are_fifo [of wrapping_ring 65535 "[Push 3, Push 1, Pop, Push 2, Pop, Pop]" wrapping_used "[]" 0]
  by (auto simp: wrapping_ok)

text \<open>C24. A descriptor handed out by \<open>alloc_descriptor\<close> is below the queue's size and in nobody's
  hands, however descriptors were allocated and freed before, and allocation fails only when every
  descriptor is in use.\<close>

theorem descriptors_not_shared:
  assumes "virtqueue_new n s = ok (Inr (q0, t))" and "queue_run q0 q own"
  shows "case alloc_descriptor q of
      (Some i, q') \<Rightarrow> i \<notin> own \<and> unat i < unat n \<and> i \<notin> set (freelist q')
    | (None, q') \<Rightarrow> own = {i. unat i < unat n}"
proof -
  from virtqueue_new_fresh [OF assms(1)] have "freelist q0 = map of_nat [0..<unat n]" "n \<le> 32768"
    by (auto simp: fresh_queue_def)
  then have own: "split_ownership (freelist q) own (unat n)"
    using queue_run_ownership [OF assms(2)] fresh_freelist by simp
  show ?thesis
  proof (cases "freelist q = []")
    case True
    then show ?thesis using own by (simp add: alloc_descriptor_def split_ownership_def)
  next
    case False
    define i where "i = last (freelist q)"
    have "i \<in> set (freelist q)" using False by (simp add: i_def)
    then have "i \<notin> own" "unat i < unat n" using own by (auto simp: split_ownership_def)
    moreover have "last (freelist q) \<notin> set (butlast (freelist q))"
      using own False by (metis append_butlast_last_id distinct_append disjoint_insert(1) list.set(2) split_ownership_def)
    ultimately show ?thesis using False by (simp add: alloc_descriptor_def i_def)
  qed
qed

theorem descriptors_not_shared_witness:
  "\<exists>q0 t. virtqueue_new 4 warm = ok (Inr (q0, t)) \<and> fst (alloc_descriptor q0) = Some 3
     \<and> (\<exists>i q'. alloc_descriptor (snd (alloc_descriptor q0)) = (Some i, q') \<and> i \<noteq> 3 \<and> unat i < 4)"
proof -
  obtain a b c d e f xs where fr: "ram_frames = a # b # c # d # e # f # xs" using ram_frames_list by blast
  have "is_power_of_two 4" "unat (4 :: usize) \<le> 256" by (simp_all add: is_power_of_two_def)
  from virtqueue_new_ok [OF warm_free [unfolded fr] this] obtain q0 t where
    q: "virtqueue_new 4 warm = ok (Inr (q0, t))" "freelist q0 = [0, 1, 2, 3]"
    by (auto simp: fresh_queue_def upt_rec)
  let ?q = "q0\<lparr>freelist := [0, 1, 2]\<rparr>"
  have a: "alloc_descriptor q0 = (Some 3, ?q)" by (simp add: alloc_descriptor_def q(2))
  have "queue_run q0 ?q {3}" using queue_run.alloc [OF queue_run.start a] by simp
  from descriptors_not_shared [OF q(1) this] a q(1) show ?thesis by (auto simp: alloc_descriptor_def)
qed

section \<open>Properties of device memory and of the input driver\<close>

text \<open>\<open>zeroed_many\<close> with a run of frames for its bytes: the region is the first run, its bytes are
  zero, its physical address is that of the direct map, and exactly its frames leave the free list.\<close>

theorem zeroed_region_is_fresh:
  assumes "fl_inv s xs" "mem s 0 = None" "0 < unat (elem * n)"
    and "first_run (pages (elem * n)) 0 xs = Some i" "i + pages (elem * n) < length xs"
  shows "\<exists>t. dma_zeroed_many elem n s = ok (\<lparr>phys = xs ! i - hhdm s, virt = xs ! i, elements = n\<rparr>, t)
    \<and> fl_inv t (without_run (pages (elem * n)) i xs)
    \<and> (\<forall>j < unat (elem * n). rd_byte t (xs ! i + of_nat j) = ok 0)"
  using zeroed_run [of s xs "elem * n" i n] assms
  by (auto simp: dma_zeroed_many_def claims_run_def region_of_def)

theorem zeroed_region_is_fresh_witness:
  "\<exists>t. dma_zeroed_many 8 1024 warm = ok (\<lparr>phys = 0x1000, virt = 0x80001000, elements = 1024\<rparr>, t)
     \<and> fl_inv t (drop 2 ram_frames) \<and> rd_byte t 0x80001fff = ok 0"
proof -
  have run: "first_run (pages (8 * 1024)) 0 ram_frames = Some 0" and n: "pages (8 * 1024) = 2"
    and u: "unat (8 * 1024 :: usize) = 8192"
    by (simp_all add: ram_frames_def page_of_def upt_rec window_def frames_from_def pages_def)
  have i: "0 + pages (8 * 1024) < length ram_frames" unfolding n by (simp add: ram_frames_distinct)
  have x: "ram_frames ! 0 = 0x80001000" by (simp add: ram_frames_def page_of_def)
  from zeroed_region_is_fresh [OF warm_boots(2) warm_null _ run i] obtain t where
    t: "dma_zeroed_many 8 1024 warm = ok (\<lparr>phys = ram_frames ! 0 - hhdm warm, virt = ram_frames ! 0, elements = 1024\<rparr>, t)"
      "fl_inv t (without_run 2 0 ram_frames)" "\<forall>j < 8192. rd_byte t (ram_frames ! 0 + of_nat j) = ok 0"
    unfolding n u by auto
  from t(3) [rule_format, of 4095] t(1,2) show ?thesis by (auto simp: x without_run_def numeral_2_eq_2)
qed

definition is_fresh :: "usize \<Rightarrow> split_virtqueue \<Rightarrow> bool" where
  "is_fresh n q \<longleftrightarrow> (\<exists>dr ar ur. q = fresh_queue n dr ar ur)"

lemma unwrapped_is_fresh: "unwrapped_queue n h = ok (q, h') \<Longrightarrow> is_fresh n q"
  unfolding is_fresh_def by (rule unwrapped_queue_fresh)

lemma input_new_fresh: "input_new b 8 h = ok (inp, h') \<Longrightarrow> is_fresh 8 (statusqueue inp)"
  by (auto simp: input_new_def rbind_eq_ok Let_def case_prod_beta dest!: unwrapped_is_fresh)

lemma input_command_step:
  assumes "input_command b sel sub (inp, h) = ok (inp', h')" "offered_zeros k (statusqueue inp)"
  shows "offered_zeros (Suc k) (statusqueue inp') \<and> used (statusqueue inp') = used (statusqueue inp)"
proof -
  from assms(1) have "\<exists>desc q. inp' = inp\<lparr>statusqueue := q\<rparr> \<and> offer_zero desc (statusqueue inp) = ok q"
    by (auto simp: input_command_def Let_def rbind_eq_ok)
  then obtain desc q where q: "inp' = inp\<lparr>statusqueue := q\<rparr>" "offer_zero desc (statusqueue inp) = ok q" by blast
  from offer_zero_step [OF assms(2) q(2)] have k: "k < 8" "offered_zeros (Suc k) q" by blast+
  from offer_zero_ok [OF assms(2) k(1), of desc] q(2) have "used q = used (statusqueue inp)" by auto
  with k(2) q(1) show ?thesis by simp
qed

text \<open>What a used element with start index 0 gives the interrupt handler after the driver's first
  command.\<close>

definition complete_zero :: "u32 \<Rightarrow> input \<Rightarrow> input" where
  "complete_zero n inp = inp\<lparr>statusqueue := (statusqueue inp)\<lparr>used := (used (statusqueue inp))\<lparr>
     uq_ring := (uq_ring (used (statusqueue inp)))[0 := \<lparr>start_index = 0, u_length = n\<rparr>], uq_index := 1\<rparr>\<rparr>\<rparr>"

lemma input_init_fresh:
  assumes "input_init b h = ok (inp, h')"
  shows "offered_zeros 1 (statusqueue inp) \<and> uq_index (used (statusqueue inp)) = 0
    \<and> last_seen (used (statusqueue inp)) = 0 \<and> length (uq_ring (used (statusqueue inp))) = 8"
proof -
  from assms obtain inp1 h1 where 1: "input_new b 8 h = ok (inp1, h1)"
    "input_command b IDName 0 (inp1, println ''Name command sending'' h1) = ok (inp, h')"
    by (auto simp: input_init_def rbind_eq_ok Let_def)
  from input_new_fresh [OF 1(1)] obtain dr ar ur where q: "statusqueue inp1 = fresh_queue 8 dr ar ur"
    by (auto simp: is_fresh_def)
  then have "uq_index (used (statusqueue inp1)) = 0 \<and> last_seen (used (statusqueue inp1)) = 0
      \<and> length (uq_ring (used (statusqueue inp1))) = 8" by (auto simp: fresh_queue_def)
  with input_command_step [OF 1(2), of 0] q fresh_offered_zeros show ?thesis by simp
qed

text \<open>C25. The input driver's first command is never seen by the device: it is offered descriptor 0,
  the empty one; when it completes that, the interrupt handler takes the config to be at physical
  address 0, reads its select byte there, and panics unless that byte is 1, IDName.\<close>

theorem input_interrupt_reads_page_zero:
  assumes "input_init b h0 = ok (inp, h)"
  shows "offered (available (statusqueue inp), 0) = [0]
    \<and> (\<exists>inp'. used_descriptor (complete_zero n inp) = ok (descriptor_default, inp'))
    \<and> (case rd_byte (memory h') (hhdm (memory h')) of
         Some (Inr v) \<Rightarrow> v = 1 \<or> (\<exists>m. input_handle_int b (complete_zero n inp, h') = fail (Panic m))
       | r \<Rightarrow> \<exists>e. input_handle_int b (complete_zero n inp, h') = fail e)"
proof -
  note f = input_init_fresh [OF assms]
  have t: "table (descriptors (statusqueue inp)) ! 0 = descriptor_default" "length (table (descriptors (statusqueue inp))) = 8"
    using f by (simp_all add: offered_zeros_def)
  let ?q = "statusqueue (complete_zero n inp)"
  have "uq_ring (used ?q) ! 0 = \<lparr>start_index = 0, u_length = n\<rparr>" "length (uq_ring (used ?q)) = 8"
    "uq_index (used ?q) = 1" "last_seen (used ?q) = 0" "descriptors ?q = descriptors (statusqueue inp)"
    using f by (simp_all add: complete_zero_def)
  then have pop: "used_pop (used ?q) = ok (Some \<lparr>start_index = 0, u_length = n\<rparr>, (used ?q)\<lparr>last_seen := 1\<rparr>)"
    and d: "descriptors ?q = descriptors (statusqueue inp)" by (auto simp: used_pop_def)
  then have desc: "\<exists>inp'. used_descriptor (complete_zero n inp) = ok (descriptor_default, inp')"
    using t by (simp add: used_descriptor_def descriptor_read_def Let_def)
  have "offered (available (statusqueue inp), 0) = [0]"
    using f pending_zeros [of 1] by (simp add: offered_zeros_def offered_def)
  moreover have "case rd_byte (memory h') (hhdm (memory h')) of
         Some (Inr v) \<Rightarrow> v = 1 \<or> (\<exists>m. input_handle_int b (complete_zero n inp, h') = fail (Panic m))
       | r \<Rightarrow> \<exists>e. input_handle_int b (complete_zero n inp, h') = fail e"
  proof -
    obtain v h2 where r: "reg_read b Int_status (println ''Input int'' h') = (v, h2)" by fastforce
    then have m: "memory h2 = memory h'" using reg_read_memory by fastforce
    obtain inp' where inp': "used_descriptor (complete_zero n inp) = ok (descriptor_default, inp')" using desc by blast
    have "rd_byte (memory h') (hhdm (memory h')) \<noteq> None" by (simp add: rd_byte_def rd_def split: option.split)
    moreover have "select_of_byte w = Some IDName \<longleftrightarrow> w = 1" for w by (auto simp: select_of_byte_def)
    ultimately show ?thesis
      by (auto simp: input_handle_int_def Let_def r inp' m descriptor_default_def split: option.split sum.split input_select.split)
  qed
  ultimately show ?thesis using desc by blast
qed

lemma write_bytes_ok:
  assumes "free_frames t off xs" "frame_ok t x" "x \<notin> set xs" "length bs \<le> 4096"
  shows "\<exists>u. write_bytes x bs t = ok u \<and> free_frames u off xs"
proof -
  have "\<And>k. k < 1 \<Longrightarrow> frame_ok t (x + 0x1000 * of_nat k)" using assms(2) by simp
  from copy_run [of 1 t x "[0..<length bs]" "\<lambda>i. bs ! i", OF this] obtain u where u:
    "write_bytes x bs t = ok u" "changes_only {x} t u" "same_free t u"
    using assms(4) by (auto simp: write_bytes_def lessThan_Suc)
  have "fl_inv u xs"
    by (rule fl_inv_elsewhere [OF _ u(2)]) (use assms u(3) in \<open>auto simp: free_frames_def same_free_def\<close>)
  moreover have "hhdm u = hhdm t" using u(2) by (simp add: changes_only_def)
  ultimately show ?thesis using u(1) assms(1) changes_only_null [OF u(2)] by (auto simp: free_frames_def)
qed

lemma status_reset_memory [simp]: "memory (status_reset b h) = memory h"
  by (simp add: status_reset_def)

lemma queue_setup_memory [simp]: "memory (queue_setup b sel q h) = memory h"
  by (simp add: queue_setup_def Let_def queue_desc_set_def queue_avail_set_def queue_used_set_def
      queue_size_write_def queue_ready_def)

lemma queue_8_ok:
  assumes "free_frames (memory h) off (a # b # c # d # xs)"
  shows "\<exists>q t. unwrapped_queue 8 h = ok (q, h\<lparr>memory := t\<rparr>) \<and> free_frames t off (d # xs)"
proof -
  have n: "is_power_of_two 8" "unat (8 :: usize) \<le> 256" by (simp_all add: is_power_of_two_def)
  from virtqueue_new_ok [OF assms n] show ?thesis by (auto simp: unwrapped_queue_def)
qed

lemma input_new_ok:
  assumes "free_frames (memory h) off (a # b # c # d # e # f # g # xs)"
  shows "\<exists>inp h'. input_new bus 8 h = ok (inp, h') \<and> free_frames (memory h') off (g # xs)"
proof -
  from queue_8_ok [OF assms] obtain q1 t1 where 1: "unwrapped_queue 8 h = ok (q1, h\<lparr>memory := t1\<rparr>)"
    "free_frames t1 off (d # e # f # g # xs)" by blast
  from queue_8_ok [of "h\<lparr>memory := t1\<rparr>" off d e f g xs] 1(2) obtain q2 t2 where
    2: "unwrapped_queue 8 (h\<lparr>memory := t1\<rparr>) = ok (q2, h\<lparr>memory := t2\<rparr>)" "free_frames t2 off (g # xs)" by auto
  have "memory (snd (status_failed bus k)) = memory k" for k
    using status_is_set_memory [of bus Failed k] by (cases "status_failed bus k") (auto simp: status_failed_def)
  then show ?thesis using 2(2) by (simp add: input_new_def 1(1) 2(1) Let_def case_prod_beta)
qed

lemma input_init_ok:
  assumes "free_frames (memory h) off (a # b # c # d # e # f # g # i # xs)"
  shows "\<exists>inp h'. input_init bus h = ok (inp, h')"
proof -
  from input_new_ok [OF assms] obtain inp1 h1 where 1: "input_new bus 8 h = ok (inp1, h1)"
    "free_frames (memory h1) off (g # i # xs)" by blast
  from input_new_fresh [OF 1(1)] have z: "offered_zeros 0 (statusqueue inp1)"
    by (auto simp: is_fresh_def fresh_offered_zeros)
  from one_frame [OF 1(2), of 136 0] obtain u t where u: "dma_claim 136 (memory h1) = ok (g, u)" "zero_bytes g 136 u = ok t"
    "dma_at g 0 t = ok (region_at off g 0, t)" "free_frames t off (i # xs)" "frame_ok t g" "g \<notin> set (i # xs)" by auto
  have "length (config_bytes IDName 0) \<le> 4096" by (simp add: config_bytes_def)
  from write_bytes_ok [OF u(4-6) this] obtain v where v: "write_bytes g (config_bytes IDName 0) t = ok v" by blast
  have "\<exists>inp' h'. input_command bus IDName 0 (inp1, k) = ok (inp', h')" if "memory k = memory h1" for k
    using u(1-3) v offer_zero_ok [OF z] that
    by (simp add: input_command_def dma_new_raw_def Let_def region_at_def)
  then show ?thesis using 1(1) by (simp add: input_init_def Let_def)
qed

theorem input_interrupt_reads_page_zero_witness:
  "\<exists>inp h. input_init register_file warm_host = ok (inp, h) \<and> offered (available (statusqueue inp), 0) = [0]
     \<and> (\<exists>m. input_handle_int register_file (complete_zero 136 inp, warm_host) = fail (Panic m))"
proof -
  have "\<exists>a b c d e f g i xs. ram_frames = a # b # c # d # e # f # g # i # xs" by (simp add: ram_frames_def upt_rec)
  then obtain a b c d e f g i xs where fr: "ram_frames = a # b # c # d # e # f # g # i # xs" by blast
  have "free_frames (memory warm_host) 0x80000000 (a # b # c # d # e # f # g # i # xs)"
    using warm_free by (simp add: fr warm_host_def)
  from input_init_ok [OF this, of register_file] obtain inp h where
    1: "input_init register_file warm_host = ok (inp, h)" by blast
  have "mem warm 0x80000000 = Some 0" using warm_root [of 0] by (simp add: slot_def)
  then have "rd_byte warm 0x80000000 = ok 0" by (simp add: rd_byte_def byte_cell_def)
  then show ?thesis using input_interrupt_reads_page_zero [OF 1, of 136 warm_host] 1
    by (simp add: warm_host_def)
qed

end
