(* ===== verification/Userspace.thy ===== *)
theory Userspace
  imports Scheduler Dma
begin

text \<open>
  The program loader, LSD/src/userspace.rs: an ELF image into a new address space, a stack, and the
  task that starts in it. The crate \<open>elf\<close> is a parameter, what it parses of the bytes; so is \<open>vmem\<close>,
  whose arenas are named by numbers as in \<open>Scheduler\<close>. The state is the kernel's.
\<close>

section \<open>What the crates return\<close>

record elf_segment =
  p_type :: u32
  p_offset :: u64
  p_vaddr :: u64
  p_filesz :: u64
  p_memsz :: u64
  p_flags :: u32

record elf_file =
  e_entry :: u64
  e_segments :: "elf_segment list option"

record 'v arena_ops =
  new_arena :: "'v \<Rightarrow> nat \<times> 'v"
  add_span :: "nat \<Rightarrow> usize \<Rightarrow> usize \<Rightarrow> 'v \<Rightarrow> (string + 'v)"
  alloc_span :: "nat \<Rightarrow> usize \<Rightarrow> 'v \<Rightarrow> (string + usize \<times> 'v)"

section \<open>Segments\<close>

definition to_pageflags :: "u32 \<Rightarrow> u64" where
  "to_pageflags f =
     (let flags = 0;
          flags = (if f AND 1 = 1 then flags OR flag_EXECUTE else flags);
          flags = (if f AND 2 = 2 then flags OR flag_WRITE else flags)
      in if f AND 4 = 4 then flags OR flag_READ else flags)"

definition load_frames :: "u64 \<Rightarrow> usize" where
  "load_frames memsz = memsz div 4096 + (if memsz mod 4096 \<noteq> 0 then 1 else 0)"

definition copy_segment :: "u8 list \<Rightarrow> elf_segment \<Rightarrow> u64 \<Rightarrow> machine \<Rightarrow> machine result" where
  "copy_segment bytes seg current_entry s =
     rbind (if p_filesz seg = 0
            then rfold (\<lambda>i s. wr_byte s (current_entry + of_nat i) 0) [0..<unat (p_memsz seg)] s
            else ok s) (\<lambda>s.
     rfold (\<lambda>i s. rbind (index_at bytes (unat (of_nat i + p_offset seg))) (\<lambda>b.
                  wr_byte s (current_entry + of_nat i) b)) [0..<unat (p_filesz seg)] s)"

definition map_segment ::
  "u64 \<Rightarrow> page_level \<Rightarrow> u64 \<Rightarrow> u64 \<Rightarrow> u64 \<Rightarrow> u64 \<Rightarrow> machine \<Rightarrow> machine result" where
  "map_segment new_table level base_virt base_phys memsz flags s =
     rfold (\<lambda>offset s. vmm_map s new_table (base_virt + offset) (base_phys + offset) level Level1 flags)
       (page_offsets memsz) s"

definition load_segment :: "u8 list \<Rightarrow> u64 \<Rightarrow> page_level \<Rightarrow> elf_segment \<Rightarrow> machine \<Rightarrow> machine result" where
  "load_segment bytes new_table level seg s =
     (if p_type seg = 1 then
        rbind (claim_continuous s (load_frames (p_memsz seg))) (\<lambda>r.
        rbind (unwrap_res r) (\<lambda>(current_entry, s).
        rbind (copy_segment bytes seg current_entry s) (\<lambda>s.
        map_segment new_table level (p_vaddr seg) (current_entry - hhdm s) (p_memsz seg)
          (to_pageflags (p_flags seg) OR flag_USER) s)))
      else ok s)"

section \<open>Tasks\<close>

text \<open>The arena of task identifiers, \<open>TASK_IDS\<close>.\<close>

definition TASK_IDS :: nat where "TASK_IDS = 0"

definition arena_add :: "'v arena_ops \<Rightarrow> nat \<Rightarrow> usize \<Rightarrow> usize \<Rightarrow> 'v kernel \<Rightarrow> 'v kernel result" where
  "arena_add ops a base sz k = rbind (unwrap_res (add_span ops a base sz (arenas k))) (\<lambda>v. ok (k\<lparr>arenas := v\<rparr>))"

definition arena_alloc :: "'v arena_ops \<Rightarrow> nat \<Rightarrow> usize \<Rightarrow> 'v kernel \<Rightarrow> (usize \<times> 'v kernel) result" where
  "arena_alloc ops a sz k =
     rbind (unwrap_res (alloc_span ops a sz (arenas k))) (\<lambda>(x, v). ok (x, k\<lparr>arenas := v\<rparr>))"

definition arena_new :: "'v arena_ops \<Rightarrow> 'v kernel \<Rightarrow> nat \<times> 'v kernel" where
  "arena_new ops k = (let (a, v) = new_arena ops (arenas k) in (a, k\<lparr>arenas := v\<rparr>))"

definition on_mach :: "(machine \<Rightarrow> machine result) \<Rightarrow> 'v kernel \<Rightarrow> 'v kernel result" where
  "on_mach f k = rbind (f (mach k)) (\<lambda>s. ok (k\<lparr>mach := s\<rparr>))"

definition init_task_ids :: "'v arena_ops \<Rightarrow> 'v kernel \<Rightarrow> 'v kernel result" where
  "init_task_ids ops = arena_add ops TASK_IDS 0 (- 1)"

text \<open>\<open>start_tasks\<close> copies the current task out of the queue and starts it with \<open>TaskData::load\<close>
  (\<open>load_code\<close> of Trap_Shim).\<close>

definition start_tasks :: "'v kernel \<Rightarrow> (task_data \<times> 'v kernel) result" where
  "start_tasks k =
     rbind (lock_read k) (\<lambda>k.
     rbind (current_task (tasks k)) (\<lambda>task.
     rbind (print_out (Msg ''Jumping to userspace'' []) (unlock_read k)) (\<lambda>k. ok (task, k))))"

text \<open>The free parts of the lower half: the loop \<open>for i in 1..=256\<close> over the root's entries.\<close>

definition add_free_entry :: "'v arena_ops \<Rightarrow> nat \<Rightarrow> u64 \<Rightarrow> page_level \<Rightarrow> nat \<Rightarrow> 'v kernel \<Rightarrow> 'v kernel result" where
  "add_free_entry ops vmm new_table level i k =
     rbind (rd (mach k) (slot new_table i)) (\<lambda>entry.
     if pte_valid entry then ok k
     else arena_add ops vmm (va_set_index level (of_nat i) 0) (page_size_bytes (page_size_from_level level)) k)"

definition stack_flags :: u64 where
  "stack_flags = flag_READ OR flag_WRITE OR flag_USER"

definition map_stack_page :: "u64 \<Rightarrow> page_level \<Rightarrow> u64 \<Rightarrow> u64 \<Rightarrow> u64 \<Rightarrow> 'v kernel \<Rightarrow> 'v kernel result" where
  "map_stack_page new_table level stack_vaddr stack_paddr i k =
     rbind (print_out (Msg ''Mapping'' [stack_vaddr + i, stack_paddr + i]) k) (\<lambda>k.
     on_mach (\<lambda>s. vmm_map s new_table (stack_vaddr + i) (stack_paddr + i) level Level2 stack_flags) k)"

definition new_satp :: "u64 \<Rightarrow> page_level \<Rightarrow> u64" where
  "new_satp table_phys level =
     satp_set_ppn (drop_bit 12 table_phys)
       (satp_set_mode (page_type_mode (page_type_from_levels level)) (satp_set_asid 0 0))"

definition first_frame :: "usize \<Rightarrow> usize \<Rightarrow> usize \<Rightarrow> trap_frame" where
  "first_frame stack_vaddr entry tid =
     set_reg reg_a0 tid ((set_reg reg_sp stack_vaddr frame_default)\<lparr>sepc := entry\<rparr>)"

definition load_image :: "u8 list \<Rightarrow> elf_segment list \<Rightarrow> machine \<Rightarrow> (u64 \<times> machine) result" where
  "load_image bytes segs s =
     rbind (new_with_upperhalf s) (\<lambda>(new_table, s).
     let level = load_level s in
     rbind (rfold (load_segment bytes new_table level) segs s) (\<lambda>s. ok (new_table, s)))"

definition claim_stack :: "'v kernel \<Rightarrow> (u64 \<times> 'v kernel) result" where
  "claim_stack k =
     rbind (claim_aligned (mach k) 0x800 (page_size_bytes Medium)) (\<lambda>r.
     rbind (unwrap_res r) (\<lambda>(stack, s). ok (stack, k\<lparr>mach := s\<rparr>)))"

definition load ::
  "(u8 list \<Rightarrow> string + elf_file) \<Rightarrow> 'v arena_ops \<Rightarrow> u8 list \<Rightarrow> 'v kernel \<Rightarrow> (usize \<times> 'v kernel) result" where
  "load minimal_parse ops bytes k =
     rbind (unwrap_res (minimal_parse bytes)) (\<lambda>elfbytes.
     rbind (unwrap_opt (e_segments elfbytes)) (\<lambda>segs.
     rbind (load_image bytes segs (mach k)) (\<lambda>(new_table, s).
     let k = k\<lparr>mach := s\<rparr>; level = load_level s in
     rbind (arena_alloc ops TASK_IDS 1 k) (\<lambda>(tid, k).
     let (vmm, k) = arena_new ops k in
     rbind (rfold (add_free_entry ops vmm new_table level) [1..<257] k) (\<lambda>k.
     rbind (claim_stack k) (\<lambda>(stack, k).
     let stack_paddr = stack - hhdm (mach k) in
     rbind (arena_alloc ops vmm 0x800000 k) (\<lambda>(stack_vaddr, k).
     rbind (print_out (Msg ''Physical address of new stack'' [stack_paddr]) k) (\<lambda>k.
     rbind (rfold (map_stack_page new_table level stack_vaddr stack_paddr)
              (map (\<lambda>i. 0x200000 * of_nat i) [0..<4]) k) (\<lambda>k.
     let table_phys = new_table - hhdm (mach k); (tm, k) = arena_new ops k in
     rbind (arena_add ops tm 0 (- 1) k) (\<lambda>k.
     rbind (arena_alloc ops tm 1 k) (\<lambda>(thread, k).
     let task = \<lparr>trap_frame = first_frame stack_vaddr (e_entry elfbytes) tid, task_id = tid,
          task_table = new_satp table_phys level, task_privilege = User, waiting_on = WaitNone,
          thread_id = thread, thread_manager = tm, task_vmm = vmm\<rparr> in
     rbind (print_out (Msg ''Loading program with stack at'' [stack_vaddr]) k) (\<lambda>k.
     rbind (new_task task k) (\<lambda>k. ok (tid, k))))))))))))))"

end
