(* ===== verification/Load_Image.thy ===== *)
theory Load_Image
  imports Userspace
begin

text \<open>
  What \<open>load_segment\<close> of Userspace leaves in memory: the tree of the new table, the segment's frames
  and their bytes.
\<close>

section \<open>Trees and data\<close>

lemma tree_fl: "tree root s A xs D \<Longrightarrow> fl_inv s xs"
  by (auto simp: tree_def)

lemma tree_depth: "tree root s A xs D \<Longrightarrow> 0 < depth s \<and> depth s \<le> 5 \<and> page_aligned (hhdm s)"
  by (auto simp: tree_def dest: pt_inv_levels)

lemma tree_frames: "tree root s A xs D \<Longrightarrow> x \<in> D \<union> set xs \<Longrightarrow> frame_ok s x"
  by (auto simp: tree_def in_use_def dest: fl_inv_frame_ok)

text \<open>Writing data frames does not touch the tree.\<close>

lemma tree_data:
  assumes sp: "tree root s A xs D" and ch: "changes_only F s t" and F: "F \<subseteq> D" and same: "same_free s t"
  shows "tree root t A xs D"
proof -
  obtain T where T: "fl_inv s xs" "pt_inv s (depth s) T xs" "T [] = Some root" "A = leaves s T" "in_use s T xs D"
    using sp by (auto simp: tree_def)
  have 1: "\<forall>y \<in> F. page_aligned y \<and> y \<notin> ran T" and 2: "set xs \<inter> ran T = {}"
    and 3: "\<forall>y \<in> F. page_aligned y \<and> y \<notin> set xs"
    using T(5) F pt_inv_table [OF T(2)] by (auto simp: in_use_def ran_def)
  note e = pt_inv_elsewhere [OF T(2) ch 1 2]
  have "fl_inv t xs" using fl_inv_elsewhere [OF T(1) ch 3] same by (simp add: same_free_def)
  moreover have "in_use t T xs D" using T(5) changes_only_frame_ok [OF ch] by (simp add: in_use_def)
  ultimately show ?thesis using e T(3,4) changes_only_current [OF ch] unfolding tree_def by auto
qed

definition image_rep ::
  "u64 \<Rightarrow> nat \<Rightarrow> u64 \<Rightarrow> u64 \<Rightarrow> u64 set \<Rightarrow> (u64 \<rightharpoonup> u64) \<Rightarrow> machine \<Rightarrow> (nat list \<rightharpoonup> u64) \<Rightarrow> nat \<Rightarrow> bool" where
  "image_rep root L h flags D m s A n \<longleftrightarrow>
     leaf_flags flags \<and> depth s = L \<and> hhdm s = h \<and> (\<exists>xs. tree root s A xs D \<and> n = length xs)
     \<and> (\<forall>x \<in> D. \<forall>i < 512. mem s (slot x i) = m (slot x i))"

interpretation image: mapper "image_rep root L h flags D m" "\<lambda>(v, p) s. vmm_map s root v p (lv L) Level1 flags"
    "\<lambda>(v, p). path v L 0" "\<lambda>(v, p). leaf_entry p flags" "\<lambda>A (v, p). no_superpage L A v" L for root L h flags D m
proof (unfold_locales, goal_cases)
  case (1 s A n x)
  obtain v p where x: "x = (v, p)" by (cases x)
  from 1 obtain xs where xs: "leaf_flags flags" "depth s = L" "hhdm s = h" "tree root s A xs D" "n = length xs"
    "\<forall>x \<in> D. \<forall>i < 512. mem s (slot x i) = m (slot x i)" by (auto simp: image_rep_def)
  have "no_superpage (depth s) A v" "depth s \<le> length xs" using 1 xs by (simp_all add: x)
  from tree_map [OF xs(4,1) this(2,1), of p] obtain t k where
    t: "vmm_map s root v p (load_level s) Level1 flags = ok t" "k < depth s"
      "tree root t (A(path v (depth s) 0 \<mapsto> leaf_entry p flags)) (drop k xs) D" "hhdm t = hhdm s" "levels t = levels s"
      "\<forall>x \<in> D. \<forall>i < 512. mem t (slot x i) = mem s (slot x i)" by blast
  have "image_rep root L h flags D m t (A(path v L 0 \<mapsto> leaf_entry p flags)) (length (drop k xs))"
    using t(3-6) xs unfolding image_rep_def by auto
  moreover have "n \<le> length (drop k xs) + L" using t(2) xs(2,5) by simp
  ultimately show ?case using t(1) xs(2) by (auto simp: x load_level_lv)
next
  case (2 A x y)
  then show ?case by (cases x; cases y) (auto intro: no_superpage_upd)
qed

lemma put_all_image: "image.put_all L flags (zip vs ps) A = pages_map L flags vs ps A"
  unfolding image.put_all_def pages_map_def page_map_def by (simp add: case_prod_unfold)

section \<open>The loops\<close>

lemma map_segment_list:
  "map_segment root level v p sz flags s =
     rfold (\<lambda>(v, p) s. vmm_map s root v p level Level1 flags)
       (zip (map (page_of v) [0..<pages sz]) (map (page_of p) [0..<pages sz])) s"
proof -
  have "rfold (\<lambda>d s. vmm_map s root (v + d) (p + d) level Level1 flags) ds s =
      rfold (\<lambda>(v, p) s. vmm_map s root v p level Level1 flags) (zip (map ((+) v) ds) (map ((+) p) ds)) s" for ds
    by (induction ds arbitrary: s) (auto intro!: rbind_cong)
  then show ?thesis by (simp add: map_segment_def page_offsets_of)
qed

lemma image_list_ok:
  assumes sp: "tree root s A xs D" and flags: "leaf_flags flags" and room: "length vs * depth s \<le> length xs"
    and free: "\<forall>v \<in> set vs. no_superpage (depth s) A v" and len: "length ps = length vs"
    and lev: "depth s0 = depth s"
  shows "\<exists>t ys. rfold (\<lambda>(v, p) s. vmm_map s root v p (load_level s0) Level1 flags) (zip vs ps) s = ok t
    \<and> tree root t (pages_map (depth s) flags vs ps A) ys D \<and> depth t = depth s \<and> hhdm t = hhdm s
    \<and> (\<forall>x \<in> D. \<forall>i < 512. mem t (slot x i) = mem s (slot x i))"
proof -
  have rep: "image_rep root (depth s) (hhdm s) flags D (mem s) s A (length xs)"
    using sp flags by (auto simp: image_rep_def)
  have all: "\<forall>x \<in> set (zip vs ps). case x of (v, p) \<Rightarrow> no_superpage (depth s) A v"
    using free by (auto dest: set_zip_leftD)
  have "length (zip vs ps) * depth s \<le> length xs" using room len by simp
  from image.put_list [OF rep all this, unfolded put_all_image] obtain t m where
    "rfold (\<lambda>(v, p) s. vmm_map s root v p (lv (depth s0)) Level1 flags) (zip vs ps) s = ok t"
    "image_rep root (depth s) (hhdm s) flags D (mem s) t (pages_map (depth s) flags vs ps A) m"
    unfolding lev by blast
  then show ?thesis using lev by (auto simp: image_rep_def load_level_lv)
qed

lemma map_segment_ok:
  assumes sp: "tree root s A xs D" and flags: "leaf_flags flags" and room: "pages sz * depth s \<le> length xs"
    and free: "\<forall>i < pages sz. no_superpage (depth s) A (page_of v i)" and lev: "depth s0 = depth s"
  shows "\<exists>t ys. map_segment root (load_level s0) v p sz flags s = ok t
    \<and> tree root t (pages_map (depth s) flags (map (page_of v) [0..<pages sz]) (map (page_of p) [0..<pages sz]) A) ys D
    \<and> depth t = depth s \<and> hhdm t = hhdm s \<and> (\<forall>x \<in> D. \<forall>i < 512. mem t (slot x i) = mem s (slot x i))"
  unfolding map_segment_list
  by (rule image_list_ok [OF sp flags _ _ _ lev]) (use room free in auto)

lemma rfold_cong: "(\<And>x s. x \<in> set xs \<Longrightarrow> f x s = g x s) \<Longrightarrow> rfold f xs s = rfold g xs s"
  by (induction xs arbitrary: s) (auto intro!: rbind_cong)

text \<open>A run of frames of data, and the bytes read from it.\<close>

definition run_of :: "u64 \<Rightarrow> nat \<Rightarrow> u64 set" where
  "run_of x n = (\<lambda>k. x + 0x1000 * of_nat k) ` {..<n}"

lemma rd_byte_run:
  assumes "\<forall>y \<in> run_of x n. page_aligned y \<and> (\<forall>i < 512. mem t (slot y i) = mem s (slot y i))" "j < 4096 * n"
  shows "rd_byte t (x + of_nat j) = rd_byte s (x + of_nat j)"
proof -
  note b = run_byte(1) [OF assms(2), of x] run_byte(2,3) [OF assms(2)]
  let ?y = "x + 0x1000 * of_nat (j div 4096)"
  have y: "?y \<in> run_of x n" using b(2) by (auto simp: run_of_def)
  then have "byte_cell (x + of_nat j) = slot ?y (j mod 4096 div 8)"
    unfolding b(1) using assms(1) b(3) by (intro byte_in_page) auto
  moreover have "j mod 4096 div 8 < 512" using b(3) by (simp add: less_mult_imp_div_less)
  ultimately have "rd t (byte_cell (x + of_nat j)) = rd s (byte_cell (x + of_nat j))"
    using assms(1) y by (simp add: rd_def)
  then show ?thesis by (simp add: rd_byte_def)
qed

definition file_bytes :: "u8 list \<Rightarrow> elf_segment \<Rightarrow> bool" where
  "file_bytes bytes seg \<longleftrightarrow> p_filesz seg \<le> p_memsz seg \<and> length bytes < 2 ^ 64
     \<and> unat (p_offset seg) + unat (p_filesz seg) \<le> length bytes"

text \<open>What each byte of the frames is after the copy: the file's, zero when the segment has no file
  part, and what it was before in the rest.\<close>

definition image_byte :: "u8 list \<Rightarrow> elf_segment \<Rightarrow> u8 result \<Rightarrow> nat \<Rightarrow> u8 result" where
  "image_byte bytes seg old j =
     (if j < unat (p_filesz seg) then ok (bytes ! (unat (p_offset seg) + j))
      else if p_filesz seg = 0 then ok 0 else old)"

lemma segment_inj: "n \<le> unat (sz :: u64) \<Longrightarrow> inj_on (\<lambda>i. x + of_nat i :: u64) {..<n}"
  by (rule inj_on_subset [OF of_nat_inj_bytes [of x sz]]) auto

lemma copy_segment_ok:
  assumes image: "file_bytes bytes seg"
    and frames: "\<And>k. k < pages (p_memsz seg) \<Longrightarrow> frame_ok s (x + 0x1000 * of_nat k)"
  shows "\<exists>t. copy_segment bytes seg x s = ok t \<and> changes_only (run_of x (pages (p_memsz seg))) s t \<and> same_free s t
    \<and> (\<forall>j < unat (p_memsz seg). rd_byte t (x + of_nat j) = image_byte bytes seg (rd_byte s (x + of_nat j)) j)"
proof -
  let ?n = "pages (p_memsz seg)" and ?m = "unat (p_memsz seg)" and ?f = "unat (p_filesz seg)" and ?o = "unat (p_offset seg)"
  have fm: "?f \<le> ?m" using image by (simp add: file_bytes_def word_le_nat_alt)
  have idx: "unat (of_nat i + p_offset seg) = ?o + i \<and> ?o + i < length bytes" if "i < ?f" for i
  proof -
    have "?o + i < length bytes" "length bytes < 2 ^ 64" using image that by (simp_all add: file_bytes_def)
    then have "?o + i < 2 ^ 64" by linarith
    then have "unat (of_nat i :: u64) = i" by (simp add: unat_of_nat_less)
    then have "unat (of_nat i + p_offset seg) = (i + ?o) mod 2 ^ 64" by (simp only: unat_word_ariths) simp
    then show ?thesis using \<open>?o + i < length bytes\<close> \<open>?o + i < 2 ^ 64\<close> by (simp add: add.commute)
  qed
  have copy: "rfold (\<lambda>i s. rbind (index_at bytes (unat (of_nat i + p_offset seg))) (\<lambda>b. wr_byte s (x + of_nat i) b)) [0..<?f] u
      = rfold (\<lambda>i s. wr_byte s (x + of_nat i) (bytes ! (?o + i))) [0..<?f] u" for u
    by (rule rfold_cong) (simp add: idx)
  have room: "\<And>i. i \<in> set [0..<?m] \<Longrightarrow> i < 4096 * ?n" "\<And>i. i \<in> set [0..<?f] \<Longrightarrow> i < 4096 * ?n"
    using pages_bytes fm by (simp_all add: less_le_trans)
  show ?thesis
  proof (cases "p_filesz seg = 0")
    case True
    from copy_run [of ?n s x "[0..<?m]" "\<lambda>_. 0", OF frames room(1)] obtain t where
      t: "rfold (\<lambda>i s. wr_byte s (x + of_nat i) 0) [0..<?m] s = ok t" "changes_only (run_of x ?n) s t" "same_free s t"
      by (auto simp: run_of_def)
    have "rd_byte t (x + of_nat j) = ok 0" if "j < ?m" for j
      by (rule bytes.copy_get [OF t(1)]) (use that segment_inj [of ?m "p_memsz seg" x] in \<open>auto simp: atLeast0LessThan\<close>)
    then show ?thesis using t True by (simp add: copy_segment_def image_byte_def)
  next
    case False
    from copy_run [of ?n s x "[0..<?f]" "\<lambda>i. bytes ! (?o + i)", OF frames room(2)] obtain t where
      t: "rfold (\<lambda>i s. wr_byte s (x + of_nat i) (bytes ! (?o + i))) [0..<?f] s = ok t" "changes_only (run_of x ?n) s t" "same_free s t"
      by (auto simp: run_of_def)
    have inj: "inj_on (\<lambda>i. x + of_nat i :: u64) {..<?m}" using segment_inj [of ?m "p_memsz seg" x] by simp
    have "rd_byte t (x + of_nat j) = image_byte bytes seg (rd_byte s (x + of_nat j)) j" if j: "j < ?m" for j
    proof (cases "j < ?f")
      case True
      have "rd_byte t (x + of_nat j) = ok (bytes ! (?o + j))"
        by (rule bytes.copy_get [OF t(1)])
          (use True inj_on_subset [OF inj] fm in \<open>auto simp: atLeast0LessThan intro!: inj_on_subset [OF inj]\<close>)
      then show ?thesis using True by (simp add: image_byte_def)
    next
      case False
      have "x + of_nat j \<notin> (\<lambda>i. x + of_nat i) ` set [0..<?f]"
      proof
        assume "x + of_nat j \<in> (\<lambda>i. x + of_nat i) ` set [0..<?f]"
        then obtain i where "i < ?f" "x + of_nat j = (x + of_nat i :: u64)" by auto
        with inj_onD [OF inj, of j i] j fm False show False by auto
      qed
      from bytes.copy_other [OF t(1) this] False \<open>p_filesz seg \<noteq> 0\<close> show ?thesis by (simp add: image_byte_def)
    qed
    then show ?thesis using t False by (simp add: copy_segment_def copy)
  qed
qed

section \<open>A segment\<close>

lemma load_frames_pages: "unat (load_frames sz) = pages sz"
  using frames_for_pages [of sz] by (simp add: load_frames_def frames_for_def)

lemma leaf_choice:
  assumes "a \<or> b \<or> c"
  shows "leaf_flags ((let flags = 0; flags = (if a then flags OR flag_EXECUTE else flags);
      flags = (if b then flags OR flag_WRITE else flags) in if c then flags OR flag_READ else flags) OR flag_USER)"
  using assms
  by (cases a; cases b; cases c)
    (simp_all add: Let_def leaf_flags_def pte_read_def pte_write_def pte_exec_def flag_READ_def flag_WRITE_def
      flag_EXECUTE_def flag_USER_def bf_flag_def bf_get_def take_bit_eq_mod)

lemma segment_leaf_flags:
  assumes "f AND 7 \<noteq> 0"
  shows "leaf_flags (to_pageflags f OR flag_USER)"
proof -
  have "f AND 1 = 1 \<or> f AND 2 = 2 \<or> f AND 4 = 4"
  proof (rule ccontr)
    assume no: "\<not> (f AND 1 = 1 \<or> f AND 2 = 2 \<or> f AND 4 = 4)"
    have b: "f AND push_bit n 1 = (if bit f n then push_bit n 1 else 0)" for n
      by (rule bit_word_eqI) (auto simp: bit_simps)
    have "\<not> bit f 0" "\<not> bit f 1" "\<not> bit f 2" using no b [of 0] b [of 1] b [of 2] by (auto split: if_splits)
    then have no: "\<not> bit f n" if "n < 3" for n
    proof -
      have "n = 0 \<or> n = 1 \<or> n = 2" using that by linarith
      then show ?thesis using \<open>\<not> bit f 0\<close> \<open>\<not> bit f 1\<close> \<open>\<not> bit f 2\<close> by auto
    qed
    have "f AND 7 = f AND mask 3" by (simp add: mask_eq_exp_minus_1)
    also have "\<dots> = 0" by (rule bit_word_eqI) (auto simp: bit_and_iff bit_mask_iff no)
    finally have "f AND 7 = 0" .
    with assms show False by simp
  qed
  then show ?thesis unfolding to_pageflags_def by (rule leaf_choice)
qed

lemma run_of_frames: "set (frames_from x n) = run_of x n"
  by (auto simp: frames_from_def run_of_def)

definition loads :: "u64 \<Rightarrow> machine \<Rightarrow> (nat list \<rightharpoonup> u64) \<Rightarrow> u64 list \<Rightarrow> elf_segment \<Rightarrow> nat \<Rightarrow> bool" where
  "loads root s A xs seg i \<longleftrightarrow>
     p_type seg = 1 \<and> 0 < unat (p_memsz seg) \<and> p_flags seg AND 7 \<noteq> 0 \<and> mem s 0 = None
     \<and> first_run (pages (p_memsz seg)) 0 xs = Some i \<and> i + pages (p_memsz seg) < length xs
     \<and> pages (p_memsz seg) * depth s + pages (p_memsz seg) \<le> length xs
     \<and> segment (depth s) (p_vaddr seg) (pages (p_memsz seg))
     \<and> (\<forall>j < pages (p_memsz seg). no_superpage (depth s) A (page_of (p_vaddr seg) j))"

lemma claim_segment:
  assumes sp: "tree root s A xs D" and l: "loads root s A xs seg i"
  defines "n \<equiv> pages (p_memsz seg)"
  shows "\<exists>t. claim_continuous s (load_frames (p_memsz seg)) = ok (Inr (xs ! i, t))
    \<and> tree root t A (without_run n i xs) (D \<union> run_of (xs ! i) n)
    \<and> (\<forall>y \<in> run_of (xs ! i) n. frame_ok t y \<and> (\<forall>j < 512. mem t (slot y j) = mem s (slot y j)))
    \<and> hhdm t = hhdm s \<and> depth t = depth s"
proof -
  let ?ys = "without_run n i xs" and ?run = "run_of (xs ! i) n"
  have fl: "fl_inv s xs" by (rule tree_fl [OF sp])
  have n: "unat (load_frames (p_memsz seg)) = n" by (simp add: n_def load_frames_pages)
  have r: "first_run n 0 xs = Some i" "i + n < length xs" "0 < n" "mem s 0 = None"
    using l by (simp_all add: loads_def n_def pages_pos)
  from claim_run_list [OF fl r(4), of "load_frames (p_memsz seg)" i] r obtain t where
    t: "claim_continuous s (load_frames (p_memsz seg)) = ok (Inr (xs ! i, t))" "fl_inv t ?ys" "changes_only (set ?ys) s t"
    unfolding n by auto
  have "distinct xs" using fl by (simp add: fl_inv_def)
  note parts = without_run_parts [OF this, of n i]
  have run: "set (take n (drop i xs)) = ?run" using run_frames(2) [OF r(1)] by (simp add: run_of_frames)
  have "D \<inter> set ?ys = {}" using sp parts(1) by (auto simp: tree_def in_use_def)
  then have "tree root t A ?ys (D \<union> ?run)"
    by (intro tree_unclaim [OF sp t(3,2)]) (use parts run in auto)
  moreover have "frame_ok t y \<and> (\<forall>j < 512. mem t (slot y j) = mem s (slot y j))" if y: "y \<in> ?run" for y
  proof -
    have ys: "y \<in> set xs" "y \<notin> set ?ys" using y parts run by auto
    then have "frame_ok s y" using fl_inv_frame_ok [OF fl] by blast
    moreover have "\<forall>z \<in> set ?ys. page_aligned z" using fl_inv_frame_ok [OF t(2)] by auto
    ultimately show ?thesis
      using changes_only_cell [OF t(3) _ _ ys(2)] changes_only_frame_ok [OF t(3)] by auto
  qed
  ultimately show ?thesis using t(1) changes_only_current [OF t(3)] by blast
qed

lemma load_segment_ok:
  assumes sp: "tree root s A xs D" and l: "loads root s A xs seg i" and image: "file_bytes bytes seg"
  defines "n \<equiv> pages (p_memsz seg)" and "flags \<equiv> to_pageflags (p_flags seg) OR flag_USER"
  shows "\<exists>t ys. load_segment bytes root (load_level s) seg s = ok t
    \<and> tree root t (pages_map (depth s) flags (map (page_of (p_vaddr seg)) [0..<n])
         (map (page_of (xs ! i - hhdm s)) [0..<n]) A) ys (D \<union> run_of (xs ! i) n)
    \<and> depth t = depth s \<and> hhdm t = hhdm s
    \<and> (\<forall>j < unat (p_memsz seg). rd_byte t (xs ! i + of_nat j) = image_byte bytes seg (rd_byte s (xs ! i + of_nat j)) j)"
proof -
  let ?run = "run_of (xs ! i) n" and ?x = "xs ! i"
  from claim_segment [OF sp l, folded n_def] obtain s1 where
    1: "claim_continuous s (load_frames (p_memsz seg)) = ok (Inr (?x, s1))"
      "tree root s1 A (without_run n i xs) (D \<union> ?run)"
      "\<forall>y \<in> ?run. frame_ok s1 y \<and> (\<forall>j < 512. mem s1 (slot y j) = mem s (slot y j))"
      "hhdm s1 = hhdm s" "depth s1 = depth s" by blast
  have "frame_ok s1 (?x + 0x1000 * of_nat k)" if "k < pages (p_memsz seg)" for k
    using 1(3) that by (auto simp: run_of_def n_def)
  from copy_segment_ok [OF image this, folded n_def] obtain s2 where
    2: "copy_segment bytes seg ?x s1 = ok s2" "changes_only ?run s1 s2" "same_free s1 s2"
      "\<forall>j < unat (p_memsz seg). rd_byte s2 (?x + of_nat j) = image_byte bytes seg (rd_byte s1 (?x + of_nat j)) j" by blast
  have t2: "tree root s2 A (without_run n i xs) (D \<union> ?run)" by (rule tree_data [OF 1(2) 2(2) _ 2(3)]) simp
  have s2: "hhdm s2 = hhdm s" "depth s2 = depth s" using changes_only_current [OF 2(2)] 1(4,5) by simp_all
  have len: "n * depth s2 \<le> length (without_run n i xs)"
    using l length_without_run [of i n xs] s2(2) by (simp add: loads_def n_def)
  have free: "\<forall>j < n. no_superpage (depth s2) A (page_of (p_vaddr seg) j)" using l s2(2) by (simp add: loads_def n_def)
  have flags: "leaf_flags flags" using l by (simp add: loads_def flags_def segment_leaf_flags)
  from map_segment_ok [OF t2 [unfolded n_def] flags len [unfolded n_def] free [unfolded n_def], of s "?x - hhdm s", folded n_def] s2
  obtain t ys where
    3: "map_segment root (load_level s) (p_vaddr seg) (?x - hhdm s) (p_memsz seg) flags s2 = ok t"
      "tree root t (pages_map (depth s) flags (map (page_of (p_vaddr seg)) [0..<n])
         (map (page_of (?x - hhdm s)) [0..<n]) A) ys (D \<union> ?run)"
      "depth t = depth s" "hhdm t = hhdm s" "\<forall>x \<in> D \<union> ?run. \<forall>j < 512. mem t (slot x j) = mem s2 (slot x j)"
    by auto
  have al: "page_aligned y" if "y \<in> ?run" for y using 1(3) that by auto
  have "rd_byte t (?x + of_nat j) = image_byte bytes seg (rd_byte s (?x + of_nat j)) j" if j: "j < unat (p_memsz seg)" for j
  proof -
    have jn: "j < 4096 * n" using pages_bytes [OF j] by (simp add: n_def)
    have "rd_byte t (?x + of_nat j) = rd_byte s2 (?x + of_nat j)" by (rule rd_byte_run [OF _ jn]) (use 3(5) al in auto)
    also have "\<dots> = image_byte bytes seg (rd_byte s1 (?x + of_nat j)) j" using 2(4) j by simp
    also have "rd_byte s1 (?x + of_nat j) = rd_byte s (?x + of_nat j)" by (rule rd_byte_run [OF _ jn]) (use 1(3) al in auto)
    finally show ?thesis .
  qed
  moreover have "p_type seg = 1" using l by (simp add: loads_def)
  then have "load_segment bytes root (load_level s) seg s = ok t"
    using 1(1) 2(1) 3(1) by (simp add: load_segment_def s2(1) flags_def)
  ultimately show ?thesis using 3(2-4) by blast
qed

end
