(* ===== verification/User_Properties.thy ===== *)
theory User_Properties
  imports Load_Image Boot_Example
begin

text \<open>
  The properties of the program loader, with the machine on which their hypotheses hold.
\<close>

section \<open>The image in the new address space\<close>

lemma run_page_phys:
  assumes "tree root t A ys D" "run_of x n \<subseteq> D" "k < n"
  shows "page_aligned (page_of (x - hhdm t) k) \<and> page_of (x - hhdm t) k < 2 ^ 56"
proof -
  have "page_of x k \<in> run_of x n" using assms(3) by (auto simp: run_of_def page_of_def)
  then have "frame_ok t (page_of x k)" using tree_frames [OF assms(1)] assms(2) by auto
  moreover have "page_of (x - hhdm t) k = page_of x k - hhdm t" by (simp add: page_of_def)
  ultimately show ?thesis using frame_phys [of t "page_of x k"] tree_depth [OF assms(1)] by simp
qed

lemma loaded_image:
  assumes "tree root s A xs D" "loads root s A xs seg i" "file_bytes bytes seg"
  shows "\<exists>t. load_segment bytes root (load_level s) seg s = ok t
    \<and> (\<forall>w j. current_table (t\<lparr>satp := w\<rparr>) = root \<longrightarrow> j < unat (p_memsz seg) \<longrightarrow>
        (\<exists>a. virt_to_phys (t\<lparr>satp := w\<rparr>) (p_vaddr seg + of_nat j) = ok (Inr a)
           \<and> rd_byte t (a + hhdm t) = image_byte bytes seg (rd_byte s (a + hhdm s)) j))"
proof -
  let ?n = "pages (p_memsz seg)" and ?x = "xs ! i" and ?flags = "to_pageflags (p_flags seg) OR flag_USER"
  let ?vs = "map (page_of (p_vaddr seg)) [0..<?n]" and ?ps = "map (page_of (xs ! i - hhdm s)) [0..<?n]"
  from load_segment_ok [OF assms] obtain t ys where
    t: "load_segment bytes root (load_level s) seg s = ok t"
      "tree root t (pages_map (depth s) ?flags ?vs ?ps A) ys (D \<union> run_of ?x ?n)" "depth t = depth s" "hhdm t = hhdm s"
      "\<forall>j < unat (p_memsz seg). rd_byte t (?x + of_nat j) = image_byte bytes seg (rd_byte s (?x + of_nat j)) j" by blast
  have l: "segment (depth s) (p_vaddr seg) ?n" "\<forall>j < ?n. no_superpage (depth s) A (page_of (p_vaddr seg) j)"
    "leaf_flags ?flags" using assms(2) by (simp_all add: loads_def segment_leaf_flags)
  have "\<exists>a. virt_to_phys (t\<lparr>satp := w\<rparr>) (p_vaddr seg + of_nat j) = ok (Inr a)
      \<and> rd_byte t (a + hhdm t) = image_byte bytes seg (rd_byte s (a + hhdm s)) j"
    if w: "current_table (t\<lparr>satp := w\<rparr>) = root" and j: "j < unat (p_memsz seg)" for w j
  proof -
    have d: "depth (t\<lparr>satp := w\<rparr>) = depth s" using t(3) by simp
    have sp: "aspace (t\<lparr>satp := w\<rparr>) (pages_map (depth (t\<lparr>satp := w\<rparr>)) ?flags ?vs ?ps A) ys (D \<union> run_of ?x ?n)"
      using tree_satp [OF t(2) w] unfolding d .
    have jn: "j < 4096 * ?n" by (rule pages_bytes [OF j])
    note v = run_byte(1) [OF jn, of "p_vaddr seg"] and x = run_byte(1) [OF jn, of ?x] and b = run_byte(2,3) [OF jn]
    let ?o = "of_nat (j mod 4096) :: u64"
    have o: "?o < 0x1000" using b(2) by (simp add: word_less_nat_alt unat_of_nat)
    have ps: "\<forall>p \<in> set ?ps. page_aligned p \<and> p < 2 ^ 56"
      using run_page_phys [OF t(2), of ?x ?n] t(4) by auto
    have "virt_to_phys (t\<lparr>satp := w\<rparr>) (page_of (p_vaddr seg) (j div 4096) + ?o) = ok (Inr (?ps ! (j div 4096) + ?o))"
      by (rule segment_translates [OF _ sp _ ps l(3) _ b(1) o]) (use l d in simp_all)
    moreover have "page_of (p_vaddr seg) (j div 4096) + ?o = p_vaddr seg + of_nat j"
      unfolding v by (simp add: page_of_def)
    moreover have "?ps ! (j div 4096) + ?o + hhdm s = ?x + of_nat j"
      using b(1) unfolding x by (simp add: page_of_def algebra_simps)
    ultimately show ?thesis using t(4,5) j by (intro exI [of _ "?ps ! (j div 4096) + ?o"]) simp
  qed
  with t(1) show ?thesis by blast
qed

text \<open>C27. Loading a segment at a page-aligned address succeeds in a well-formed tree of tables with no
  larger page over the segment, when there is a run of frames for it and frames for the tables; and
  once the new table is in satp every byte of the segment is translated to a byte of the run: in the
  file part it is the file's, in a segment without a file part it is zero, and behind a file part it
  is whatever the frame held before.\<close>

theorem program_sees_its_image:
  assumes "tree root s A xs D" "loads root s A xs seg i" "file_bytes bytes seg"
  shows "\<exists>t. load_segment bytes root (load_level s) seg s = ok t
    \<and> (\<forall>w j. current_table (t\<lparr>satp := w\<rparr>) = root \<longrightarrow> j < unat (p_memsz seg) \<longrightarrow>
        (\<exists>a. virt_to_phys (t\<lparr>satp := w\<rparr>) (p_vaddr seg + of_nat j) = ok (Inr a)
           \<and> rd_byte t (a + hhdm t) =
               (if j < unat (p_filesz seg) then ok (bytes ! (unat (p_offset seg) + j))
                else if p_filesz seg = 0 then ok 0 else rd_byte s (a + hhdm s))))"
  using loaded_image [OF assms] unfolding image_byte_def .

definition small_segment :: elf_segment where
  "small_segment = \<lparr>p_type = 1, p_offset = 1, p_vaddr = 0x40000000, p_filesz = 2, p_memsz = 5000, p_flags = 5\<rparr>"

lemma small_pages: "pages 5000 = 2"
  by (simp add: pages_def)

lemma small_loads: "loads 0x80000000 warm (\<lambda>_. None) ram_frames small_segment 0"
proof -
  have "first_run 2 0 ram_frames = Some 0"
    by (simp add: ram_frames_def page_of_def upt_rec window_def frames_from_def)
  moreover have "segment (depth warm) 0x40000000 2" by (simp add: segment_def page_aligned_def)
  ultimately show ?thesis
    using warm_null ram_frames_distinct(2) by (simp add: loads_def small_segment_def small_pages no_superpage_def)
qed

theorem program_sees_its_image_witness:
  "\<exists>t. load_segment [5, 7, 9] 0x80000000 (load_level warm) small_segment warm = ok t
     \<and> (\<exists>a. virt_to_phys (t\<lparr>satp := 0\<rparr>) 0x40000001 = ok (Inr a) \<and> rd_byte t (a + hhdm t) = ok 9)"
proof -
  have sp: "tree 0x80000000 warm (\<lambda>_. None) ram_frames {}" using warm_aspace by (simp add: aspace_tree)
  have f: "file_bytes [5, 7, 9] small_segment" by (simp add: file_bytes_def small_segment_def)
  from load_segment_ok [OF sp small_loads f] obtain u where
    u: "load_segment [5, 7, 9] 0x80000000 (load_level warm) small_segment warm = ok u" "hhdm u = hhdm warm" by auto
  from program_sees_its_image [OF sp small_loads f] u obtain t where
    t: "load_segment [5, 7, 9] 0x80000000 (load_level warm) small_segment warm = ok t" "hhdm t = hhdm warm"
    and all: "\<And>w j. current_table (t\<lparr>satp := w\<rparr>) = 0x80000000 \<Longrightarrow> j < unat (p_memsz small_segment) \<Longrightarrow>
        (\<exists>a. virt_to_phys (t\<lparr>satp := w\<rparr>) (p_vaddr small_segment + of_nat j) = ok (Inr a)
           \<and> rd_byte t (a + hhdm t) = image_byte [5, 7, 9] small_segment (rd_byte warm (a + hhdm warm)) j)"
    unfolding image_byte_def by auto
  have "current_table (t\<lparr>satp := 0\<rparr>) = 0x80000000"
    using t(2) by (simp add: current_table_def satp_get_ppn_def bf_get_def)
  from all [OF this, of 1] t(1) show ?thesis
    by (auto simp: small_segment_def image_byte_def)
qed

section \<open>The task it starts\<close>

text \<open>What \<open>load\<close> may change: only the machine, the arenas and the console until the task is queued.\<close>

named_theorems task_keepers

lemma arena_alloc_keeps [task_keepers]: "arena_alloc ops a n k = ok (x, k') \<Longrightarrow> same_tasks k k'"
  by (auto simp: arena_alloc_def rbind_eq_ok same_tasks_def)

lemma arena_add_keeps [task_keepers]: "arena_add ops a b n k = ok k' \<Longrightarrow> same_tasks k k'"
  by (auto simp: arena_add_def rbind_eq_ok same_tasks_def)

lemma arena_new_keeps [simp]: "same_tasks k (snd (arena_new ops k))"
  by (simp add: arena_new_def case_prod_beta Let_def)

lemma claim_stack_keeps [task_keepers]: "claim_stack k = ok (x, k') \<Longrightarrow> same_tasks k k'"
  by (auto simp: claim_stack_def rbind_eq_ok same_tasks_def)

lemma print_out_keeps [task_keepers]: "print_out x k = ok k' \<Longrightarrow> same_tasks k k'"
  by (auto simp: print_out_def same_tasks_def split: if_splits)

lemma add_free_entry_keeps: "add_free_entry ops v r l i k = ok k' \<Longrightarrow> same_tasks k k'"
  by (auto simp: add_free_entry_def rbind_eq_ok split: if_splits dest: arena_add_keeps)

lemma map_stack_page_keeps: "map_stack_page r l v p i k = ok k' \<Longrightarrow> same_tasks k k'"
  by (auto simp: map_stack_page_def on_mach_def rbind_eq_ok print_out_def same_tasks_def split: if_splits)

lemma new_program_outcome:
  assumes "load minimal_parse ops bytes k = ok (tid, k')"
  shows "\<exists>elf t v v'. minimal_parse bytes = Inr elf
    \<and> queue (tasks k') = queue (tasks k) @ [t] \<and> cur_task_idx (tasks k') = cur_task_idx (tasks k)
    \<and> task_id t = tid \<and> waiting_on t = WaitNone \<and> task_privilege t = User
    \<and> sepc (trap_frame t) = e_entry elf
    \<and> regs (trap_frame t) = (\<lambda>_. 0)(reg_sp := regs (trap_frame t) reg_sp, reg_a0 := tid)
    \<and> alloc_span ops (task_vmm t) 0x800000 v = Inr (regs (trap_frame t) reg_sp, v')"
proof -
  from assms obtain elf segs root s k1 k3 stack k4 base k5 k6 k7 k9 thread k10 k11 where
    l: "minimal_parse bytes = Inr elf" "load_image bytes segs (mach k) = ok (root, s)"
      "arena_alloc ops TASK_IDS 1 (k\<lparr>mach := s\<rparr>) = ok (tid, k1)"
      "rfold (add_free_entry ops (fst (arena_new ops k1)) root (load_level s)) [1..<257] (snd (arena_new ops k1)) = ok k3"
      "claim_stack k3 = ok (stack, k4)" "arena_alloc ops (fst (arena_new ops k1)) 0x800000 k4 = ok (base, k5)"
      "print_out (Msg ''Physical address of new stack'' [stack - hhdm (mach k4)]) k5 = ok k6"
      "rfold (map_stack_page root (load_level s) base (stack - hhdm (mach k4))) (map (\<lambda>i. 0x200000 * of_nat i) [0..<4]) k6 = ok k7"
      "arena_add ops (fst (arena_new ops k7)) 0 (- 1) (snd (arena_new ops k7)) = ok k9"
      "arena_alloc ops (fst (arena_new ops k7)) 1 k9 = ok (thread, k10)"
      "print_out (Msg ''Loading program with stack at'' [base]) k10 = ok k11"
    and n: "new_task \<lparr>trap_frame = first_frame base (e_entry elf) tid, task_id = tid,
          task_table = new_satp (root - hhdm (mach k7)) (load_level s), task_privilege = User, waiting_on = WaitNone,
          thread_id = thread, thread_manager = fst (arena_new ops k7), task_vmm = fst (arena_new ops k1)\<rparr> k11 = ok k'"
    unfolding load_def Let_def
    by (auto simp: rbind_eq_ok unwrap_res_def unwrap_opt_def case_prod_beta split: sum.splits option.splits
        simp del: upt_Suc upt.simps)
  have "same_tasks k k1" using arena_alloc_keeps [OF l(3)] by (simp add: same_tasks_def)
  also have "same_tasks k1 (snd (arena_new ops k1))" by simp
  also have "same_tasks (snd (arena_new ops k1)) k3"
    by (rule rfold_keeps [OF l(4)]) (rule add_free_entry_keeps)
  also have "same_tasks k3 k4" by (rule claim_stack_keeps [OF l(5)])
  also have "same_tasks k4 k5" by (rule arena_alloc_keeps [OF l(6)])
  also have "same_tasks k5 k6" by (rule print_out_keeps [OF l(7)])
  also have "same_tasks k6 k7"
    by (rule rfold_keeps [OF l(8)]) (rule map_stack_page_keeps)
  also have "same_tasks k7 (snd (arena_new ops k7))" by simp
  also have "same_tasks (snd (arena_new ops k7)) k9" by (rule arena_add_keeps [OF l(9)])
  also have "same_tasks k9 k10" by (rule arena_alloc_keeps [OF l(10)])
  also have "same_tasks k10 k11" by (rule print_out_keeps [OF l(11)])
  finally have "tasks k11 = tasks k" by (simp add: same_tasks_def)
  moreover obtain v' where "alloc_span ops (fst (arena_new ops k1)) 0x800000 (arenas k4) = Inr (base, v')"
    using l(6) by (auto simp: arena_alloc_def rbind_eq_ok unwrap_res_def split: sum.splits)
  moreover obtain k12 where "lock_write k11 = ok k12" "tasks k12 = tasks k11" and q: "tasks k' = tq_new_task
      \<lparr>trap_frame = first_frame base (e_entry elf) tid, task_id = tid,
        task_table = new_satp (root - hhdm (mach k7)) (load_level s), task_privilege = User, waiting_on = WaitNone,
        thread_id = thread, thread_manager = fst (arena_new ops k7), task_vmm = fst (arena_new ops k1)\<rparr> (tasks k12)"
    using n by (auto simp: new_task_def rbind_eq_ok lock_write_def unlock_write_def split: if_splits)
  ultimately show ?thesis
    apply (intro exI conjI)
    apply (rule l(1))
    apply (simp add: q tq_new_task_def)
    apply (simp_all add: q tq_new_task_def first_frame_def set_reg_def frame_default_def fun_eq_iff
        reg_sp_def reg_a0_def)
    done
qed

end
