(* ===== verification/Cpu_Data.thy ===== *)
theory Cpu_Data
  imports Kernel_Prelude
begin

text \<open>
  \<open>CpuData\<close> of LSD/src/lib.rs: the extensions of a hart as a set of bits, the parser of the device
  tree's ISA string and the printing of a set. A \<open>bitflags!\<close> value is its bits; the declared flags
  are a datatype whose \<open>flag_bits\<close> are the constants of the source. The ISA string is ASCII, a list
  of \<open>char\<close>.
\<close>

section \<open>Flags\<close>

datatype cpu_flag =
    ISA_I | ISA_M | ISA_A | ISA_F | ISA_D | ISA_C | ZICBOM | ZICBOZ | ZICSR | ZIFENCEI | ZIHINTPAUSE
  | ZAWRS | ZBA | ZBB | ZBC | ZBS | SSTC | SVADU | SVPBMT | ISA_H

fun flag_bits :: "cpu_flag \<Rightarrow> u64" where
  "flag_bits ISA_I = 0b1"
| "flag_bits ISA_M = 0b10"
| "flag_bits ISA_A = 0b100"
| "flag_bits ISA_F = 0b1000"
| "flag_bits ISA_D = 0b10000"
| "flag_bits ISA_C = 0b100000"
| "flag_bits ZICBOM = 0b1000000"
| "flag_bits ZICBOZ = 0b10000000"
| "flag_bits ZICSR = 0b100000000"
| "flag_bits ZIFENCEI = 0b1000000000"
| "flag_bits ZIHINTPAUSE = 0b10000000000"
| "flag_bits ZAWRS = 0b100000000000"
| "flag_bits ZBA = 0b1000000000000"
| "flag_bits ZBB = 0b10000000000000"
| "flag_bits ZBC = 0b100000000000000"
| "flag_bits ZBS = 0b1000000000000000"
| "flag_bits SSTC = 0b10000000000000000"
| "flag_bits SVADU = 0b100000000000000000"
| "flag_bits SVPBMT = 0b1000000000000000000"
| "flag_bits ISA_H = 0b10000000000000000000"

text \<open>The operations of \<open>bitflags!\<close> that the source uses: \<open>set\<close> and \<open>contains\<close>.\<close>

definition cpu_set :: "cpu_flag \<Rightarrow> bool \<Rightarrow> u64 \<Rightarrow> u64" where
  "cpu_set f v w = (if v then w OR flag_bits f else w AND NOT (flag_bits f))"

definition cpu_contains :: "cpu_flag \<Rightarrow> u64 \<Rightarrow> bool" where
  "cpu_contains f w \<longleftrightarrow> w AND flag_bits f = flag_bits f"

section \<open>Parsing\<close>

text \<open>\<open>str::trim_start_matches\<close> takes the pattern off as often as it is there.\<close>

function trim_start_matches :: "string \<Rightarrow> string \<Rightarrow> string" where
  "trim_start_matches p s =
     (if p \<noteq> [] \<and> take (length p) s = p then trim_start_matches p (drop (length p) s) else s)"
  by auto
termination
  by (relation "measure (\<lambda>(p, s). length s)") (auto simp: take_Nil intro: diff_less)

declare trim_start_matches.simps [simp del]

definition set_from_str :: "string \<Rightarrow> u64 \<Rightarrow> u64 result" where
  "set_from_str s w =
     (if s = ''zicbom'' then ok (cpu_set ZICBOM True w)
      else if s = ''zicboz'' then ok (cpu_set ZICBOZ True w)
      else if s = ''zicsr'' then ok (cpu_set ZICSR True w)
      else if s = ''zifencei'' then ok (cpu_set ZIFENCEI True w)
      else if s = ''zihintpause'' then ok (cpu_set ZIHINTPAUSE True w)
      else if s = ''zawrs'' then ok (cpu_set ZAWRS True w)
      else if s = ''zba'' then ok (cpu_set ZBA True w)
      else if s = ''zbb'' then ok (cpu_set ZBB True w)
      else if s = ''zbc'' then ok (cpu_set ZBC True w)
      else if s = ''zbs'' then ok (cpu_set ZBS True w)
      else if s = ''sstc'' then ok (cpu_set SSTC True w)
      else if s = ''svadu'' then ok (cpu_set SVADU True w)
      else if s = ''svpbmt'' then ok (cpu_set SVPBMT True w)
      else fail (Panic ''Unrecognized extension''))"

definition set_from_char :: "char \<Rightarrow> u64 \<Rightarrow> u64 result" where
  "set_from_char c w =
     (if c = CHR ''i'' then ok (cpu_set ISA_I True w)
      else if c = CHR ''m'' then ok (cpu_set ISA_M True w)
      else if c = CHR ''a'' then ok (cpu_set ISA_A True w)
      else if c = CHR ''f'' then ok (cpu_set ISA_F True w)
      else if c = CHR ''d'' then ok (cpu_set ISA_D True w)
      else if c = CHR ''c'' then ok (cpu_set ISA_C True w)
      else if c = CHR ''h'' then ok (cpu_set ISA_H True w)
      else fail (Panic ''Unrecognized extension''))"

text \<open>The loop's variables: \<open>newself\<close>, \<open>single_char\<close> and \<open>character_buffer\<close>.\<close>

fun parse_char :: "char \<Rightarrow> u64 \<times> bool \<times> string \<Rightarrow> (u64 \<times> bool \<times> string) result" where
  "parse_char c (newself, single_char, buf) =
     (if single_char then
        (if c = CHR ''_'' then ok (newself, False, buf)
         else rbind (set_from_char c newself) (\<lambda>w. ok (w, True, buf)))
      else
        (if c = CHR ''_'' then rbind (set_from_str buf newself) (\<lambda>w. ok (w, False, []))
         else ok (newself, False, buf @ [c])))"

definition parse_str :: "string \<Rightarrow> u64 result" where
  "parse_str s =
     rbind (rfold parse_char (trim_start_matches ''rv64'' s) (0, True, [])) (\<lambda>(newself, _, buf).
     set_from_str buf newself)"

section \<open>Printing\<close>

definition unknown :: "string \<Rightarrow> string" where
  "unknown ext = ''Unknown extension: '' @ [CHR 0x27] @ ext @ [CHR 0x27]"

text \<open>The lines of \<open>Debug for CpuData\<close> behind the first, in the source's order.\<close>

definition debug_lines :: "(cpu_flag \<times> string) list" where
  "debug_lines =
    [(ISA_M, ''Multiply extension''), (ISA_A, ''Atomic extension''),
     (ISA_C, ''Compressed instruction extension''), (ISA_F, ''Single precision floating point extension''),
     (ISA_H, unknown ''H''), (ISA_D, ''Double precision floating point extension''),
     (SSTC, unknown ''SSTC''), (ZAWRS, unknown ''ZAWRS''),
     (ZBA, unknown ''ZBA''), (ZBB, unknown ''ZBB''),
     (ZBC, unknown ''ZBC''), (ZBS, unknown ''ZBS''),
     (ZICBOM, unknown ''ZICBOM''), (ZICBOZ, unknown ''ZICBOZ''),
     (ZICSR, ''Control status register extension''), (ZIFENCEI, ''Instruction-fetch fence extension''),
     (ZIHINTPAUSE, ''Pause hint extension''), (SVADU, unknown ''SVADU''),
     (SVPBMT, ''Page based memory type extension'')]"

definition newline :: string where "newline = [CHR 0x0A]"

definition cpu_fmt :: "u64 \<Rightarrow> string result" where
  "cpu_fmt w =
     (if cpu_contains ISA_I w then
        ok (newline @ ''Base extension'' @ newline @
            concat (map (\<lambda>(f, line). if cpu_contains f w then line @ newline else []) debug_lines))
      else fail (Panic ''Invalid extension set, base extension not set''))"

section \<open>What the parser accepts\<close>

text \<open>The name of a flag in an ISA string: single letters first, then the longer names, each behind an
  underscore.\<close>

fun isa_name :: "cpu_flag \<Rightarrow> string" where
  "isa_name ISA_I = ''i''"
| "isa_name ISA_M = ''m''"
| "isa_name ISA_A = ''a''"
| "isa_name ISA_F = ''f''"
| "isa_name ISA_D = ''d''"
| "isa_name ISA_C = ''c''"
| "isa_name ISA_H = ''h''"
| "isa_name ZICBOM = ''zicbom''"
| "isa_name ZICBOZ = ''zicboz''"
| "isa_name ZICSR = ''zicsr''"
| "isa_name ZIFENCEI = ''zifencei''"
| "isa_name ZIHINTPAUSE = ''zihintpause''"
| "isa_name ZAWRS = ''zawrs''"
| "isa_name ZBA = ''zba''"
| "isa_name ZBB = ''zbb''"
| "isa_name ZBC = ''zbc''"
| "isa_name ZBS = ''zbs''"
| "isa_name SSTC = ''sstc''"
| "isa_name SVADU = ''svadu''"
| "isa_name SVPBMT = ''svpbmt''"

definition single :: "cpu_flag \<Rightarrow> bool" where
  "single f \<longleftrightarrow> length (isa_name f) = 1"

fun join :: "cpu_flag list \<Rightarrow> string" where
  "join [] = []"
| "join [e] = isa_name e"
| "join (e # f # es) = isa_name e @ CHR ''_'' # join (f # es)"

definition isa_string :: "nat \<Rightarrow> cpu_flag list \<Rightarrow> cpu_flag list \<Rightarrow> string" where
  "isa_string n bs es = concat (replicate n ''rv64'') @ concat (map isa_name bs) @ CHR ''_'' # join es"

definition add_flags :: "cpu_flag list \<Rightarrow> u64 \<Rightarrow> u64" where
  "add_flags fs w = fold (\<lambda>f w. w OR flag_bits f) fs w"

lemma add_flags_simps [simp]:
  "add_flags [] w = w" "add_flags (f # fs) w = add_flags fs (w OR flag_bits f)"
  "add_flags (fs @ gs) w = add_flags gs (add_flags fs w)"
  by (simp_all add: add_flags_def)

subsection \<open>The bits of a set\<close>

fun flag_index :: "cpu_flag \<Rightarrow> nat" where
  "flag_index ISA_I = 0" | "flag_index ISA_M = 1" | "flag_index ISA_A = 2" | "flag_index ISA_F = 3"
| "flag_index ISA_D = 4" | "flag_index ISA_C = 5" | "flag_index ZICBOM = 6" | "flag_index ZICBOZ = 7"
| "flag_index ZICSR = 8" | "flag_index ZIFENCEI = 9" | "flag_index ZIHINTPAUSE = 10"
| "flag_index ZAWRS = 11" | "flag_index ZBA = 12" | "flag_index ZBB = 13" | "flag_index ZBC = 14"
| "flag_index ZBS = 15" | "flag_index SSTC = 16" | "flag_index SVADU = 17" | "flag_index SVPBMT = 18"
| "flag_index ISA_H = 19"

lemma flag_index_lt: "flag_index f < 20"
  by (cases f) simp_all

lemma flag_index_inj [simp]: "flag_index f = flag_index g \<longleftrightarrow> f = g"
  by (cases f; cases g; simp)

lemma flag_bits_index: "flag_bits f = push_bit (flag_index f) 1"
  by (cases f) simp_all

lemma bit_flag_bits: "bit (flag_bits f) n \<longleftrightarrow> n = flag_index f"
  using flag_index_lt [of f] by (auto simp: flag_bits_index bit_exp_iff)

lemma and_eq_bits: "w AND b = b \<longleftrightarrow> (\<forall>n. bit b n \<longrightarrow> bit (w :: u64) n)"
proof
  assume "w AND b = b"
  then show "\<forall>n. bit b n \<longrightarrow> bit w n" by (metis bit_and_iff)
next
  assume "\<forall>n. bit b n \<longrightarrow> bit w n"
  then show "w AND b = b" by (intro bit_word_eqI) (auto simp: bit_and_iff)
qed

lemma cpu_contains_bit: "cpu_contains f w \<longleftrightarrow> bit w (flag_index f)"
  by (simp add: cpu_contains_def and_eq_bits bit_flag_bits)

lemma cpu_contains_add: "cpu_contains f (add_flags fs w) \<longleftrightarrow> f \<in> set fs \<or> cpu_contains f w"
  by (induction fs arbitrary: w) (auto simp: cpu_contains_bit bit_or_iff bit_flag_bits)

definition all_flags :: "cpu_flag list" where
  "all_flags = [ISA_I, ISA_M, ISA_A, ISA_F, ISA_D, ISA_C, ZICBOM, ZICBOZ, ZICSR, ZIFENCEI, ZIHINTPAUSE,
     ZAWRS, ZBA, ZBB, ZBC, ZBS, SSTC, SVADU, SVPBMT, ISA_H]"

lemma flag_of_index: "n < 20 \<Longrightarrow> flag_index (all_flags ! n) = n"
proof -
  assume "n < 20"
  moreover have "map flag_index all_flags = [0..<20]" by code_simp
  moreover have "length all_flags = 20" by (simp add: all_flags_def)
  ultimately show ?thesis by (metis nth_map nth_upt add_0)
qed

text \<open>A set of declared bits is determined by the flags it contains.\<close>

definition declared :: "u64 \<Rightarrow> bool" where
  "declared w \<longleftrightarrow> take_bit 20 w = w"

lemma declared_bit: "declared w \<Longrightarrow> bit w n \<Longrightarrow> n < 20"
  by (metis bit_take_bit_iff declared_def)

lemma flags_determine:
  assumes "declared v" "declared w" "\<And>f. cpu_contains f v \<longleftrightarrow> cpu_contains f w"
  shows "v = w"
proof (rule bit_word_eqI)
  fix n
  show "bit v n = bit w n"
  proof (cases "n < 20")
    case True
    with assms(3) [of "all_flags ! n"] show ?thesis by (simp add: cpu_contains_bit flag_of_index)
  next
    case False
    then show ?thesis using declared_bit assms(1,2) by blast
  qed
qed

lemma declared_add: "declared w \<Longrightarrow> declared (add_flags fs w)"
proof (induction fs arbitrary: w)
  case (Cons f fs)
  have "take_bit 20 (flag_bits f) = flag_bits f" by (cases f) simp_all
  with Cons show ?case by (simp add: declared_def)
qed simp

lemma declared_0 [simp]: "declared 0" and contains_0 [simp]: "\<not> cpu_contains f 0"
  by (simp_all add: declared_def cpu_contains_bit)

subsection \<open>The two phases of the loop\<close>

lemma set_from_char_eq:
  "set_from_char c w = ok v \<longleftrightarrow> (\<exists>f. single f \<and> isa_name f = [c] \<and> v = w OR flag_bits f)"
proof
  assume c: "set_from_char c w = ok v"
  then have "\<exists>f \<in> set [ISA_I, ISA_M, ISA_A, ISA_F, ISA_D, ISA_C, ISA_H]. [c] = isa_name f"
    by (rule_tac ccontr) (simp add: set_from_char_def)
  then obtain f where "f \<in> set [ISA_I, ISA_M, ISA_A, ISA_F, ISA_D, ISA_C, ISA_H]" "[c] = isa_name f" by blast
  with c show "\<exists>f. single f \<and> isa_name f = [c] \<and> v = w OR flag_bits f"
    by (intro exI [of _ f]) (auto simp: single_def set_from_char_def cpu_set_def)
next
  assume "\<exists>f. single f \<and> isa_name f = [c] \<and> v = w OR flag_bits f"
  then obtain f where "single f" "isa_name f = [c]" "v = w OR flag_bits f" by blast
  then show "set_from_char c w = ok v"
    by (cases f) (auto simp: single_def set_from_char_def cpu_set_def)
qed

lemma set_from_name: "\<not> single f \<Longrightarrow> set_from_str (isa_name f) w = ok (w OR flag_bits f)"
  by (cases f) (simp_all add: single_def set_from_str_def cpu_set_def)

lemma set_from_str_eq:
  "set_from_str s w = ok v \<longleftrightarrow> (\<exists>f. \<not> single f \<and> isa_name f = s \<and> v = w OR flag_bits f)"
proof
  let ?exts = "[ZICBOM, ZICBOZ, ZICSR, ZIFENCEI, ZIHINTPAUSE, ZAWRS, ZBA, ZBB, ZBC, ZBS, SSTC, SVADU, SVPBMT]"
  assume c: "set_from_str s w = ok v"
  then have "\<exists>f \<in> set ?exts. s = isa_name f"
    by (rule_tac ccontr) (simp add: set_from_str_def)
  then obtain f where f: "f \<in> set ?exts" "s = isa_name f" by blast
  then have "\<not> single f" by (auto simp: single_def)
  with c f show "\<exists>f. \<not> single f \<and> isa_name f = s \<and> v = w OR flag_bits f"
    using set_from_name by (intro exI [of _ f]) simp
next
  assume "\<exists>f. \<not> single f \<and> isa_name f = s \<and> v = w OR flag_bits f"
  then show "set_from_str s w = ok v" using set_from_name by blast
qed

lemma set_from_outcome:
  "set_from_str s w = fail (Panic ''Unrecognized extension'') \<or> (\<exists>v. set_from_str s w = ok v)"
  "set_from_char c w = fail (Panic ''Unrecognized extension'') \<or> (\<exists>v. set_from_char c w = ok v)"
  by (simp_all add: set_from_str_def set_from_char_def)

lemma no_underscore [simp]: "CHR ''_'' \<notin> set (isa_name f)"
  by (cases f) simp_all

lemma isa_name_inj: "isa_name f = isa_name g \<longleftrightarrow> f = g"
  by (cases f; cases g; simp)

lemma isa_name_Nil [simp]: "isa_name f \<noteq> []"
  by (cases f) simp_all

subsection \<open>What the loop accepts\<close>

lemma join_Cons: "join (e # es) = isa_name e @ (if es = [] then [] else CHR ''_'' # join es)"
  by (cases es) simp_all

lemma underscore_split:
  assumes "xs @ CHR ''_'' # ys = us @ CHR ''_'' # vs" "CHR ''_'' \<notin> set xs" "CHR ''_'' \<notin> set us"
  shows "xs = us \<and> ys = vs"
  using assms
proof (induction xs arbitrary: us)
  case Nil
  then show ?case by (cases us) auto
next
  case (Cons x xs)
  then show ?case by (cases us) auto
qed

text \<open>From a buffer \<open>buf\<close> without underscores: the rest of the string completes it to a list of names.\<close>

lemma parse_names:
  assumes "CHR ''_'' \<notin> set buf"
  shows "rbind (rfold parse_char xs (w, False, buf)) (\<lambda>(n, _, b). set_from_str b n) = ok v \<longleftrightarrow>
    (\<exists>es. es \<noteq> [] \<and> list_all (\<lambda>f. \<not> single f) es \<and> join es = buf @ xs \<and> v = add_flags es w)"
  using assms
proof (induction xs arbitrary: w buf)
  case Nil
  have "(es \<noteq> [] \<and> list_all (\<lambda>f. \<not> single f) es \<and> join es = buf \<and> v = add_flags es w)
      \<longleftrightarrow> (\<exists>e. es = [e] \<and> \<not> single e \<and> isa_name e = buf \<and> v = w OR flag_bits e)" for es
    using Nil by (cases es; cases "tl es") auto
  then show ?case by (simp only: append_Nil2 rfold.simps rbind_simps prod.case set_from_str_eq) blast
next
  case (Cons c xs)
  show ?case
  proof (cases "c = CHR ''_''")
    case True
    have "rbind (rfold parse_char (c # xs) (w, False, buf)) (\<lambda>(n, _, b). set_from_str b n) = ok v \<longleftrightarrow>
      (\<exists>u. set_from_str buf w = ok u \<and>
        rbind (rfold parse_char xs (u, False, [])) (\<lambda>(n, _, b). set_from_str b n) = ok v)"
      using True by (simp add: rbind_eq_ok)
    also have "\<dots> \<longleftrightarrow> (\<exists>f es. \<not> single f \<and> isa_name f = buf \<and> es \<noteq> [] \<and> list_all (\<lambda>f. \<not> single f) es \<and>
        join es = xs \<and> v = add_flags es (w OR flag_bits f))"
      unfolding set_from_str_eq using Cons.IH [of "[]"] by auto
    also have "\<dots> \<longleftrightarrow> (\<exists>es. es \<noteq> [] \<and> list_all (\<lambda>f. \<not> single f) es \<and> join es = buf @ c # xs \<and> v = add_flags es w)"
      (is "?l \<longleftrightarrow> ?r")
    proof
      assume ?l
      then obtain f es where "\<not> single f" "isa_name f = buf" "es \<noteq> []" "list_all (\<lambda>f. \<not> single f) es"
        "join es = xs" "v = add_flags es (w OR flag_bits f)" by blast
      then show ?r using True by (intro exI [of _ "f # es"]) (simp add: join_Cons)
    next
      assume ?r
      then obtain f es where fes: "list_all (\<lambda>f. \<not> single f) (f # es)" "join (f # es) = buf @ c # xs"
        "v = add_flags (f # es) w" by (metis list.exhaust)
      have "CHR ''_'' \<in> set (join (f # es))" using fes(2) True by simp
      then have "es \<noteq> []" by (cases es) simp_all
      with fes(2) True have "isa_name f @ CHR ''_'' # join es = buf @ CHR ''_'' # xs" by (simp add: join_Cons)
      from underscore_split [OF this] Cons.prems have "isa_name f = buf" "join es = xs" by simp_all
      with fes \<open>es \<noteq> []\<close> show ?l by (intro exI [of _ f] exI [of _ es]) simp
    qed
    finally show ?thesis .
  next
    case False
    with Cons.IH [of "buf @ [c]"] Cons.prems show ?thesis by simp
  qed
qed

text \<open>The single letters, up to the first underscore.\<close>

lemma parse_letters:
  "rbind (rfold parse_char xs (w, True, [])) (\<lambda>(n, _, b). set_from_str b n) = ok v \<longleftrightarrow>
    (\<exists>bs es. list_all single bs \<and> es \<noteq> [] \<and> list_all (\<lambda>f. \<not> single f) es \<and>
       concat (map isa_name bs) @ CHR ''_'' # join es = xs \<and> v = add_flags (bs @ es) w)"
proof (induction xs arbitrary: w)
  case Nil
  have "\<not> single f" if "isa_name f = []" for f using that by simp
  then show ?case by (simp add: set_from_str_eq)
next
  case (Cons c xs)
  have s: "\<exists>d. isa_name f = [d] \<and> d \<noteq> CHR ''_''" if "single f" for f
    using that by (cases f) (simp_all add: single_def)
  show ?case
  proof (cases "c = CHR ''_''")
    case True
    have "concat (map isa_name bs) @ CHR ''_'' # join es = c # xs \<longleftrightarrow> bs = [] \<and> join es = xs"
      if "list_all single bs" for bs es
      using that True s by (cases bs) fastforce+
    then have "(\<exists>bs es. list_all single bs \<and> es \<noteq> [] \<and> list_all (\<lambda>f. \<not> single f) es \<and>
         concat (map isa_name bs) @ CHR ''_'' # join es = c # xs \<and> v = add_flags (bs @ es) w)
       \<longleftrightarrow> (\<exists>bs es. list_all single bs \<and> es \<noteq> [] \<and> list_all (\<lambda>f. \<not> single f) es \<and>
         (bs = [] \<and> join es = xs) \<and> v = add_flags (bs @ es) w)" by blast
    also have "\<dots> \<longleftrightarrow> (\<exists>es. es \<noteq> [] \<and> list_all (\<lambda>f. \<not> single f) es \<and> join es = xs \<and> v = add_flags es w)"
      by force
    finally show ?thesis using True parse_names [of "[]" xs w v] by simp
  next
    case False
    have "rbind (rfold parse_char (c # xs) (w, True, [])) (\<lambda>(n, _, b). set_from_str b n) = ok v \<longleftrightarrow>
      (\<exists>f. single f \<and> isa_name f = [c] \<and>
        rbind (rfold parse_char xs (w OR flag_bits f, True, [])) (\<lambda>(n, _, b). set_from_str b n) = ok v)"
      using False by (auto simp: rbind_eq_ok set_from_char_eq)
    also have "\<dots> \<longleftrightarrow> (\<exists>f bs es. single f \<and> isa_name f = [c] \<and> list_all single bs \<and> es \<noteq> [] \<and>
       list_all (\<lambda>f. \<not> single f) es \<and> concat (map isa_name bs) @ CHR ''_'' # join es = xs \<and>
       v = add_flags (bs @ es) (w OR flag_bits f))" unfolding Cons.IH by blast
    also have "\<dots> \<longleftrightarrow> (\<exists>bs es. list_all single bs \<and> es \<noteq> [] \<and> list_all (\<lambda>f. \<not> single f) es \<and>
       concat (map isa_name bs) @ CHR ''_'' # join es = c # xs \<and> v = add_flags (bs @ es) w)" (is "?l \<longleftrightarrow> ?r")
    proof
      assume ?l
      then obtain f bs es where "single f" "isa_name f = [c]" "list_all single bs" "es \<noteq> []"
        "list_all (\<lambda>f. \<not> single f) es" "concat (map isa_name bs) @ CHR ''_'' # join es = xs"
        "v = add_flags (bs @ es) (w OR flag_bits f)" by blast
      then show ?r by (intro exI [of _ "f # bs"] exI [of _ es]) simp
    next
      assume ?r
      then obtain bs es where r: "list_all single bs" "es \<noteq> []" "list_all (\<lambda>f. \<not> single f) es"
        "concat (map isa_name bs) @ CHR ''_'' # join es = c # xs" "v = add_flags (bs @ es) w" by blast
      with False obtain f gs where "bs = f # gs" by (cases bs) auto
      with r s [of f] show ?l by (intro exI [of _ f] exI [of _ gs] exI [of _ es]) auto
    qed
    finally show ?thesis .
  qed
qed

lemma trim_starts: "trim_start_matches ''rv64'' (''rv64'' @ s) = trim_start_matches ''rv64'' s"
  by (subst trim_start_matches.simps) simp

lemma trim_other: "take 4 s \<noteq> ''rv64'' \<Longrightarrow> trim_start_matches ''rv64'' s = s"
  by (subst trim_start_matches.simps) (simp add: eval_nat_numeral)

lemma trim_replicate: "trim_start_matches ''rv64'' (concat (replicate n ''rv64'') @ s) = trim_start_matches ''rv64'' s"
  by (induction n) (simp_all add: trim_starts [simplified])

lemma trim_prefix: "\<exists>n. s = concat (replicate n ''rv64'') @ trim_start_matches ''rv64'' s"
proof (induction "length s" arbitrary: s rule: less_induct)
  case less
  show ?case
  proof (cases "take 4 s = ''rv64''")
    case True
    then have s: "s = ''rv64'' @ drop 4 s" by (metis append_take_drop_id)
    then have "length (drop 4 s) < length s" by (metis True length_drop length_greater_0_conv diff_less take_Nil zero_less_numeral list.simps(3))
    from less [OF this] obtain n where "drop 4 s = concat (replicate n ''rv64'') @ trim_start_matches ''rv64'' (drop 4 s)" ..
    with s trim_starts [of "drop 4 s"] show ?thesis by (intro exI [of _ "Suc n"]) simp
  next
    case False
    then show ?thesis by (intro exI [of _ 0]) (simp add: trim_other)
  qed
qed

lemma letters_not_trimmed:
  assumes "list_all single bs"
  shows "take 4 (concat (map isa_name bs) @ CHR ''_'' # t) \<noteq> ''rv64''"
proof (cases bs)
  case (Cons b cs)
  with assms show ?thesis by (cases b) (simp_all add: single_def)
qed simp

lemma rfold_outcome:
  assumes "\<And>c x. (\<exists>y. f c x = ok y) \<or> f c x = fail e"
  shows "(\<exists>y. rfold f cs x = ok y) \<or> rfold f cs x = fail e"
proof (induction cs arbitrary: x)
  case (Cons c cs)
  from assms [of c x] show ?case
  proof
    assume "\<exists>y. f c x = ok y"
    then obtain y where "f c x = ok y" ..
    with Cons [of y] show ?case by simp
  qed simp
qed simp

text \<open>C28. \<open>parse_str\<close> accepts exactly the strings of \<open>rv64\<close> (any number of times), known single letters,
  and then, behind an underscore each, one or more known longer names; the set it returns holds the
  bits of the flags that were named and no others. Every other string makes it panic, also an ISA
  string without a longer name.\<close>

theorem parse_str_accepts:
  "(parse_str s = ok w \<longleftrightarrow>
      (\<exists>n bs es. list_all single bs \<and> es \<noteq> [] \<and> list_all (\<lambda>f. \<not> single f) es \<and> s = isa_string n bs es \<and>
         declared w \<and> (\<forall>f. cpu_contains f w \<longleftrightarrow> f \<in> set bs \<union> set es)))
   \<and> ((\<exists>w. parse_str s = ok w) \<or> parse_str s = fail (Panic ''Unrecognized extension''))"
proof
  have w: "w = add_flags fs 0 \<longleftrightarrow> declared w \<and> (\<forall>f. cpu_contains f w \<longleftrightarrow> f \<in> set fs)" for fs
    using flags_determine [of w "add_flags fs 0"] by (auto simp: cpu_contains_add declared_add)
  have "parse_str s = ok w \<longleftrightarrow> (\<exists>bs es. list_all single bs \<and> es \<noteq> [] \<and> list_all (\<lambda>f. \<not> single f) es \<and>
      concat (map isa_name bs) @ CHR ''_'' # join es = trim_start_matches ''rv64'' s \<and> w = add_flags (bs @ es) 0)"
    unfolding parse_str_def by (rule parse_letters)
  also have "\<dots> \<longleftrightarrow> (\<exists>n bs es. list_all single bs \<and> es \<noteq> [] \<and> list_all (\<lambda>f. \<not> single f) es \<and> s = isa_string n bs es \<and>
      w = add_flags (bs @ es) 0)" (is "?l \<longleftrightarrow> ?r")
  proof
    assume ?l
    with trim_prefix [of s] show ?r unfolding isa_string_def by metis
  next
    assume ?r
    then show ?l by (metis isa_string_def letters_not_trimmed trim_other trim_replicate)
  qed
  finally show "parse_str s = ok w \<longleftrightarrow>
      (\<exists>n bs es. list_all single bs \<and> es \<noteq> [] \<and> list_all (\<lambda>f. \<not> single f) es \<and> s = isa_string n bs es \<and>
         declared w \<and> (\<forall>f. cpu_contains f w \<longleftrightarrow> f \<in> set bs \<union> set es))"
    unfolding w by simp
next
  let ?bad = "Panic ''Unrecognized extension''"
  have "(\<exists>y. parse_char c (n, b, buf) = ok y) \<or> parse_char c (n, b, buf) = fail ?bad" for c n b buf
    using set_from_outcome(1) [of buf n] set_from_outcome(2) [of c n] by (cases b) auto
  then have "(\<exists>y. parse_char c x = ok y) \<or> parse_char c x = fail ?bad" for c x
    by (cases x) (simp only:)
  from rfold_outcome [of parse_char, OF this]
  have "(\<exists>y. rfold parse_char (trim_start_matches ''rv64'' s) (0, True, []) = ok y)
      \<or> rfold parse_char (trim_start_matches ''rv64'' s) (0, True, []) = fail ?bad" by blast
  then show "(\<exists>w. parse_str s = ok w) \<or> parse_str s = fail ?bad"
  proof
    assume "\<exists>y. rfold parse_char (trim_start_matches ''rv64'' s) (0, True, []) = ok y"
    then obtain n b buf where "rfold parse_char (trim_start_matches ''rv64'' s) (0, True, []) = ok (n, b, buf)" by auto
    then show ?thesis using set_from_outcome(1) [of buf n] by (auto simp: parse_str_def)
  qed (simp add: parse_str_def)
qed

text \<open>Printing a parsed set needs the base extension.\<close>

lemma cpu_fmt_ok: "(\<exists>t. cpu_fmt w = ok t) \<longleftrightarrow> cpu_contains ISA_I w"
  by (simp add: cpu_fmt_def)

end
