(* ===== verification/Core_Setup.thy ===== *)
theory Core_Setup
  imports Dma Heap Trap_Shim
begin

text \<open>
  What every core does before it runs tasks: \<open>init_tls\<close> (LSD/src/memory/mod.rs) copies the
  thread-local data of the kernel image into frames of its own, \<open>traps::init\<close> (LSD/src/traps/mod.rs)
  makes the block that sscratch points to, with an interrupt stack, and turns the interrupt sources
  on, \<open>plic_init\<close> sets the interrupt controller up. The registers and CSRs they touch are the record
  \<open>core\<close>; the PLIC (crate \<open>sifive_plic\<close>) is the list of the calls made to it. The linker's symbols
  are arguments.
\<close>

section \<open>A core\<close>

record core =
  c_sp :: u64
  c_tp :: u64
  c_gp :: u64
  c_satp :: u64
  c_sscratch :: u64
  c_sstatus :: u64
  c_sie :: u16

text \<open>\<open>regs::Sie\<close>, whose value is the low 16 bits of the CSR.\<close>

definition sie_ssie :: "u16 \<Rightarrow> bool" where "sie_ssie = bf_flag 1"
definition sie_stie :: "u16 \<Rightarrow> bool" where "sie_stie = bf_flag 5"
definition sie_seie :: "u16 \<Rightarrow> bool" where "sie_seie = bf_flag 9"

definition sie_set_ssie :: "bool \<Rightarrow> u16 \<Rightarrow> u16" where "sie_set_ssie = bf_set_flag 1"
definition sie_set_stie :: "bool \<Rightarrow> u16 \<Rightarrow> u16" where "sie_set_stie = bf_set_flag 5"
definition sie_set_seie :: "bool \<Rightarrow> u16 \<Rightarrow> u16" where "sie_set_seie = bf_set_flag 9"

definition sie_new :: "core \<Rightarrow> u16" where "sie_new c = c_sie c"
definition sie_csrw :: "u16 \<Rightarrow> core \<Rightarrow> core" where "sie_csrw v c = c\<lparr>c_sie := v\<rparr>"

definition sstatus_new :: "core \<Rightarrow> u64" where "sstatus_new c = c_sstatus c"
definition sstatus_csrw :: "u64 \<Rightarrow> core \<Rightarrow> core" where "sstatus_csrw v c = c\<lparr>c_sstatus := v\<rparr>"

section \<open>Thread-local data\<close>

definition tls_frames :: "usize \<Rightarrow> usize" where
  "tls_frames tdata_size = tdata_size div 4096 + (if tdata_size AND 0xfff \<noteq> 0 then 1 else 0)"

definition tls_copy :: "u64 \<Rightarrow> u64 \<Rightarrow> usize \<Rightarrow> machine \<Rightarrow> machine result" where
  "tls_copy tdata_start tls_base tdata_size s =
     rfold (\<lambda>i s. rbind (rd_byte s (tdata_start + of_nat i)) (\<lambda>b. wr_byte s (tls_base + of_nat i) b))
       [0..<unat tdata_size] s"

definition init_tls :: "u64 \<Rightarrow> u64 \<Rightarrow> core \<Rightarrow> machine \<Rightarrow> (core \<times> machine) result" where
  "init_tls tdata_start tdata_end c s =
     (let tdata_size = tdata_end - tdata_start in
      rbind (claim_continuous s (tls_frames tdata_size)) (\<lambda>r.
      rbind (unwrap_res r) (\<lambda>(tls_base, s).
      rbind (tls_copy tdata_start tls_base tdata_size s) (\<lambda>s.
      ok (c\<lparr>c_tp := tls_base\<rparr>, s)))))"

section \<open>Traps\<close>

text \<open>\<open>Layout::new::<Sscratch>()\<close>: four pointers.\<close>

definition sscratch_layout :: layout where
  "sscratch_layout = \<lparr>l_size = 32, l_align = 8\<rparr>"

definition traps_init ::
  "list_node list \<Rightarrow> core \<Rightarrow> machine \<Rightarrow> (list_node list \<times> core \<times> machine) result" where
  "traps_init heap c s =
     rbind (heap_alloc heap sscratch_layout) (\<lambda>(new_sscratch, heap).
     rbind (claim_continuous s 0x20) (\<lambda>r.
     rbind (unwrap_res r) (\<lambda>(int_stack, s).
     rbind (wr s (cell new_sscratch 0) (int_stack + 0x20 * 0x1000)) (\<lambda>s.
     rbind (wr s (cell new_sscratch 1) (c_tp c)) (\<lambda>s.
     rbind (wr s (cell new_sscratch 2) (c_gp c)) (\<lambda>s.
     let c = c\<lparr>c_sscratch := new_sscratch\<rparr>;
         c = sie_csrw (sie_set_ssie True (sie_set_stie True (sie_set_seie True (sie_new c)))) c;
         c = sstatus_csrw (sstatus_set_sie True (sstatus_new c)) c
     in ok (heap, c, s)))))))"

text \<open>The first context of a hart is its machine mode, the second its supervisor mode.\<close>

definition current_context :: "usize \<Rightarrow> usize" where
  "current_context hart_id = 1 + 2 * hart_id"

datatype plic_call =
    Plic_Init usize usize usize          \<comment> \<open>interrupts, first and last context\<close>
  | Plic_Threshold usize usize
  | Plic_Enable usize usize              \<comment> \<open>context, interrupt\<close>
  | Plic_Priority usize usize            \<comment> \<open>interrupt, priority\<close>

definition plic_init :: "usize \<Rightarrow> plic_call list \<Rightarrow> plic_call list" where
  "plic_init hart_id log =
     (let context = current_context hart_id
      in log @ [Plic_Init 64 context context, Plic_Threshold context 1])"

section \<open>Lemmas\<close>

lemma tls_frames_dma: "tls_frames sz = dma_frames sz"
proof -
  have "sz AND 0xfff = take_bit 12 sz" by (simp add: take_bit_eq_mask mask_eq_exp_minus_1)
  also have "\<dots> = sz mod 4096" by (simp add: take_bit_eq_mod)
  finally have "sz AND 0xfff = sz mod 4096" .
  then show ?thesis by (simp add: tls_frames_def dma_frames_def)
qed

text \<open>A copy whose source is not written to is a copy of the bytes there at the start.\<close>

lemma copy_reads:
  assumes "\<And>i. i \<in> set is \<Longrightarrow> rd_byte s (src i) = ok (f i)" "\<And>i j. i \<in> set is \<Longrightarrow> j \<in> set is \<Longrightarrow> dst i \<noteq> src j"
  shows "rfold (\<lambda>i s. rbind (rd_byte s (src i)) (\<lambda>b. wr_byte s (dst i) b)) is s
    = rfold (\<lambda>i s. wr_byte s (dst i) (f i)) is s"
  using assms
proof (induction "is" arbitrary: s)
  case (Cons i "is")
  have "rfold (\<lambda>i s. rbind (rd_byte s (src i)) (\<lambda>b. wr_byte s (dst i) b)) is u
      = rfold (\<lambda>i s. wr_byte s (dst i) (f i)) is u" if "wr_byte s (dst i) (f i) = ok u" for u
  proof (rule Cons.IH)
    fix j assume "j \<in> set is"
    then have "rd_byte u (src j) = rd_byte s (src j)"
      using bytes.get_put_other [OF that, of "src j"] Cons.prems(2) [of i j] by auto
    with \<open>j \<in> set is\<close> show "rd_byte u (src j) = ok (f j)" using Cons.prems(1) by simp
  qed (use Cons.prems(2) in auto)
  then show ?case using Cons.prems(1) by (auto intro!: rbind_cong)
qed simp

text \<open>Bytes outside the free frames.\<close>

definition outside_frames :: "u64 list \<Rightarrow> u64 \<Rightarrow> bool" where
  "outside_frames xs a \<longleftrightarrow> byte_cell a \<notin> \<Union> (page_cells ` set xs)"

lemma changes_only_byte:
  assumes "changes_only F s t" "byte_cell a \<notin> \<Union> (page_cells ` F)"
  shows "rd_byte t a = rd_byte s a"
  using assms by (simp add: rd_byte_def rd_def changes_only_def mem_only_def)

lemma changes_only_outside:
  assumes "changes_only F s t" "F \<subseteq> set xs" "outside_frames xs a"
  shows "rd_byte t a = rd_byte s a"
  by (rule changes_only_byte [OF assms(1)]) (use assms(2,3) in \<open>auto simp: outside_frames_def\<close>)

lemma run_byte_inside:
  assumes "\<And>k. k < n \<Longrightarrow> x + 0x1000 * of_nat k \<in> set xs \<and> page_aligned (x + 0x1000 * of_nat k)" "j < 4096 * n"
  shows "\<not> outside_frames xs (x + of_nat j)"
proof -
  note b = run_byte(1) [OF assms(2), of x] run_byte(2,3) [OF assms(2)]
  have "page_aligned (x + 0x1000 * of_nat (j div 4096))" "x + 0x1000 * of_nat (j div 4096) \<in> set xs" using assms(1) b(2) by auto
  then have "byte_cell (x + of_nat j) \<in> page_cells (x + 0x1000 * of_nat (j div 4096))"
    unfolding b(1) using byte_in_page [OF _ b(3)] b(3) by (auto simp: less_mult_imp_div_less)
  with \<open>x + 0x1000 * of_nat (j div 4096) \<in> set xs\<close> show ?thesis by (auto simp: outside_frames_def)
qed

lemma init_tls_claims:
  "init_tls tdata_start tdata_end c s =
     rbind (dma_claim (tdata_end - tdata_start) s) (\<lambda>(b, s).
     rbind (tls_copy tdata_start b (tdata_end - tdata_start) s) (\<lambda>s. ok (c\<lparr>c_tp := b\<rparr>, s)))"
  by (simp add: init_tls_def dma_claim_def tls_frames_dma Let_def)

text \<open>The free list does not see what is written elsewhere.\<close>

lemma fl_inv_cell:
  assumes "fl_inv s xs" "a \<notin> \<Union> (page_cells ` set xs)" "mem s a \<noteq> None"
  shows "fl_inv (s\<lparr>mem := (mem s)(a \<mapsto> v)\<rparr>) xs"
proof -
  have "dseg ((mem s)(a \<mapsto> v)) 0 xs 0 = dseg (mem s) 0 xs 0"
  proof (rule dseg_cong)
    fix x assume "x \<in> set xs"
    then have "a \<notin> page_cells x" using assms(2) by blast
    then have "prev_of x \<noteq> a" "next_of x \<noteq> a" using slot_in_page [of 0 x] slot_in_page [of 1 x] by auto
    then show "((mem s)(a \<mapsto> v)) (prev_of x) = mem s (prev_of x) \<and> ((mem s)(a \<mapsto> v)) (next_of x) = mem s (next_of x)"
      by simp
  qed
  then show ?thesis using assms(1) by (simp add: fl_inv_def frame_ok_def)
qed

lemma sscratch_layout_ok: "layout_ok sscratch_layout" "need sscratch_layout = 32"
  using pow2_8 by (simp_all add: layout_ok_def sscratch_layout_def need_def round_up_def)

text \<open>Memory the heap may hand out: mapped, and in no free frame.\<close>

definition heap_area :: "nat \<Rightarrow> nat \<Rightarrow> machine \<Rightarrow> u64 list \<Rightarrow> bool" where
  "heap_area lo hi s xs \<longleftrightarrow>
     (\<forall>a \<in> {a. lo \<le> unat a \<and> unat a < hi}. mem s a \<noteq> None \<and> a \<notin> \<Union> (page_cells ` set xs))"

lemma heap_areaD:
  assumes "heap_area lo hi s xs" "lo \<le> unat a" "unat a < hi"
  shows "mem s a \<noteq> None" "a \<notin> \<Union> (page_cells ` set xs)"
  using assms by (auto simp: heap_area_def)

text \<open>The block of \<open>Sscratch\<close> is four cells of the heap's area.\<close>

lemma sscratch_block:
  assumes inv: "heap_inv lo hi free live" and room: "align_room hi sscratch_layout"
    and some: "\<exists>r \<in> set free. fits r sscratch_layout"
  obtains p free' where "heap_alloc free sscratch_layout = ok (p, free')"
    "heap_inv lo hi free' ((p, sscratch_layout) # live)"
    "\<And>k. k < 4 \<Longrightarrow> lo \<le> unat (cell p k) \<and> unat (cell p k) < hi \<and> unat (cell p k) = unat p + 8 * k"
proof -
  from heap_alloc_some [OF inv sscratch_layout_ok(1) room some] obtain p free' where
    p: "heap_alloc free sscratch_layout = ok (p, free')" "heap_inv lo hi free' ((p, sscratch_layout) # live)" by blast
  have "lo \<le> unat p" "unat p + 32 \<le> hi" "hi < 2 ^ 64"
    using p(2) by (simp_all add: heap_inv_def arena_middle block_ivl_def ivl_ok_def sscratch_layout_ok arena_append)
  then have "lo \<le> unat (cell p k) \<and> unat (cell p k) < hi \<and> unat (cell p k) = unat p + 8 * k" if "k < 4" for k
    using that unat_cell [of p k] by simp
  with p that show ?thesis by blast
qed

text \<open>The cells of the interrupt stack that the shim writes are in the last of its 32 frames.\<close>

lemma stack_cell: "cell (b + 0x20000 - 256 - 264) j = slot (b + 0x1000 * of_nat 31) (447 + j)"
  by (simp add: cell_def slot_def algebra_simps)

end
