(* ===== verification/Kernel_Init.thy ===== *)
theory Kernel_Init
  imports Cpu_Data Core_Setup Userspace
begin

text \<open>
  \<open>init\<close> of LSD/src/lib.rs, which the boot processor runs once: it brings up the heap, the free list,
  its own thread-local data and traps and the kernel's address space, walks over the nodes of the
  device tree, and gives the free parts of the two halves of the address space to their arenas. The
  device tree (crate \<open>fdt\<close>) is a parameter: the nodes with the properties the code asks for. So are
  the registers of VirtIO headers, the linker's symbols and, as in Scheduler, the arenas of \<open>vmem\<close>.
  Text with names or debug formats is kept as a line with its numbers. \<open>Box\<close> and \<open>Vec\<close> of the crate
  \<open>alloc\<close> are values, their memory is not charged to the heap.
\<close>

section \<open>Write-once cells\<close>

record 'a set_once =
  once_set :: bool
  once_val :: 'a

definition set_once_new :: "'a \<Rightarrow> 'a set_once" where
  "set_once_new base_val = \<lparr>once_set = False, once_val = base_val\<rparr>"

definition set_once_set :: "'a \<Rightarrow> 'a set_once \<Rightarrow> 'a set_once result" where
  "set_once_set new_val c =
     (if once_set c then fail (Panic ''Attempted to write to a setonce cell'')
      else ok (c\<lparr>once_set := True, once_val := new_val\<rparr>))"

definition set_once_get :: "'a set_once \<Rightarrow> 'a" where
  "set_once_get c = once_val c"

section \<open>The device tree\<close>

text \<open>A property that is missing, or not of the type asked for, is \<open>None\<close>. \<open>n_reg\<close> are the starting
  addresses of the node's regions.\<close>

record fdt_node =
  n_name :: string
  n_reg :: "u64 list option"
  n_interrupts :: "usize list option"
  n_timebase :: "usize option"

record fdt =
  fdt_mmu_type :: "string option"      \<comment> \<open>of \<open>/cpus/cpu@0\<close>\<close>
  fdt_isa :: "string option"
  fdt_memory :: "usize option"         \<comment> \<open>the size of \<open>/memory@80000000\<close>\<close>
  fdt_plic :: "u64 list option"        \<comment> \<open>the regions of \<open>/soc/plic@c000000\<close>\<close>
  fdt_nodes :: "fdt_node list"

definition first_reg :: "u64 list option \<Rightarrow> u64 result" where
  "first_reg r = rbind (unwrap_opt r) (\<lambda>rs. case rs of [] \<Rightarrow> fail UnwrapNone | x # _ \<Rightarrow> ok x)"

text \<open>\<open>str::contains\<close>.\<close>

fun str_contains :: "string \<Rightarrow> string \<Rightarrow> bool" where
  "str_contains [] p \<longleftrightarrow> p = []"
| "str_contains (c # s) p \<longleftrightarrow> take (length p) (c # s) = p \<or> str_contains s p"

section \<open>State\<close>

record 'v boot =
  kern :: "'v kernel"
  heap_free :: "list_node list"
  core0 :: core
  fdt_ptr :: usize
  kern_phys :: usize
  hart_no :: usize
  cpu_data :: "u64 set_once"
  rtc_cell :: "u64 set_once"
  plic_addr :: u64
  plic_log :: "plic_call list"
  virtio_list :: "(u64 \<times> usize list) list"
  uart_ier :: u8

record 'v firmware =
  fw_map :: "memory_entry list"
  fw_fdt :: "usize \<Rightarrow> string + fdt"
  fw_heap :: usize                     \<comment> \<open>\<open>HEAP.get()\<close>\<close>
  fw_tdata_start :: u64
  fw_tdata_end :: u64
  fw_magic :: "u64 \<Rightarrow> u32"              \<comment> \<open>VirtIO registers by the header's address\<close>
  fw_dev_id :: "u64 \<Rightarrow> u32"
  fw_arenas :: "'v arena_ops"

definition IO_OFFSET :: u64 where "IO_OFFSET = 0xffffffff80000000"

definition LOWER_HALF :: nat where "LOWER_HALF = 1"
definition HIGHER_HALF :: nat where "HIGHER_HALF = 2"

definition on_kern :: "('v kernel \<Rightarrow> 'v kernel result) \<Rightarrow> 'v boot \<Rightarrow> 'v boot result" where
  "on_kern f b = rbind (f (kern b)) (\<lambda>k. ok (b\<lparr>kern := k\<rparr>))"

definition say :: "string \<Rightarrow> u64 list \<Rightarrow> 'v boot \<Rightarrow> 'v boot result" where
  "say t ns = on_kern (print_out (Msg t ns))"

text \<open>\<open>println!("{:#?}", extensions)\<close> holds the UART's lock while it formats: when \<open>Debug for CpuData\<close>
  panics, the panic handler waits for that lock for ever.\<close>

definition say_extensions :: "u64 \<Rightarrow> 'v boot \<Rightarrow> 'v boot result" where
  "say_extensions w b =
     (case cpu_fmt w of Some (Inr t) \<Rightarrow> say (''Extensions: '' @ t) [] b | _ \<Rightarrow> hang)"

section \<open>The address space\<close>

text \<open>\<open>vmm::init\<close> with its reads of the device tree around the machine part, \<open>vmm_init\<close> of Vmm.\<close>

definition vmm_bring_up :: "'v firmware \<Rightarrow> 'v boot \<Rightarrow> 'v boot result" where
  "vmm_bring_up fw b =
     (case fw_fdt fw (fdt_ptr b) of Inl e \<Rightarrow> fail (Panic ''Invalid FDT ptr'') | Inr dt \<Rightarrow>
     rbind (unwrap_opt (fdt_mmu_type dt)) (\<lambda>mmu_type.
     rbind (unwrap_opt (fdt_isa dt)) (\<lambda>isa.
     rbind (parse_str isa) (\<lambda>extensions.
     rbind (say_extensions extensions b) (\<lambda>b.
     rbind (set_once_set extensions (cpu_data b)) (\<lambda>c.
     let b = b\<lparr>cpu_data := c\<rparr> in
     rbind (mmu_of mmu_type) (\<lambda>(lv, pt).
     rbind (say ''MMU type: '' [page_type_mode pt] b) (\<lambda>b.
     rbind (unwrap_opt (fdt_memory dt)) (\<lambda>memory_size.
     rbind (say ''Memory size: '' [memory_size div 1048576] b) (\<lambda>b.
     rbind (say ''Mapping IO'' [] b) (\<lambda>b.
     rbind (on_kern (on_mach (vmm_init mmu_type (cpu_contains SVPBMT (set_once_get (cpu_data b))))) b) (\<lambda>b.
     rbind (say ''Mapped IO'' [] b) (\<lambda>b.
     let b = b\<lparr>core0 := (core0 b)\<lparr>c_satp := satp (mach (kern b))\<rparr>,
               kern := (kern b)\<lparr>uart_base := 0xffffffff90000000\<rparr>\<rparr> in
     say ''Virtual memory initialized'' [] b)))))))))))))"

section \<open>The nodes\<close>

definition enable_uart_int :: "usize \<Rightarrow> 'v boot \<Rightarrow> 'v boot result" where
  "enable_uart_int irq b =
     (let b = b\<lparr>plic_log := plic_log b @ [Plic_Enable (current_context (hart_no b)) irq, Plic_Priority irq 2]\<rparr> in
      if unat irq < length (handlers (kern b))
      then ok (b\<lparr>kern := (kern b)\<lparr>handlers := (handlers (kern b))[unat irq := Uart_Handler]\<rparr>\<rparr>)
      else fail (OutOfBounds (unat irq) (length (handlers (kern b)))))"

definition init_node :: "'v firmware \<Rightarrow> fdt_node \<Rightarrow> 'v boot \<Rightarrow> 'v boot result" where
  "init_node fw node b =
     (if n_name node = ''cpus'' then
        rbind (unwrap_opt (n_timebase node)) (\<lambda>tps.
        rbind (say ''Clock runs at'' [tps] b) (\<lambda>b.
        ok (b\<lparr>kern := (kern b)\<lparr>timer_speed := tps\<rparr>\<rparr>)))
      else if str_contains (n_name node) ''virtio'' then
        rbind (first_reg (n_reg node)) (\<lambda>r.
        let ptr = r + IO_OFFSET in
        if fw_magic fw ptr = 0x74726976 \<and> fw_dev_id fw ptr \<noteq> 0 then
          rbind (say ''Found valid VirtIO device'' [ucast (fw_dev_id fw ptr)] b) (\<lambda>b.
          rbind (unwrap_opt (n_interrupts node)) (\<lambda>ints.
          ok (b\<lparr>virtio_list := virtio_list b @ [(ptr, ints)]\<rparr>)))
        else ok b)
      else if str_contains (n_name node) ''rtc'' then
        rbind (say (''RTC Found '' @ n_name node) [] b) (\<lambda>b.
        rbind (first_reg (n_reg node)) (\<lambda>r.
        rbind (set_once_set (r + IO_OFFSET) (rtc_cell b)) (\<lambda>c.
        ok (b\<lparr>rtc_cell := c\<rparr>))))
      else if str_contains (n_name node) ''pci'' then say ''PCI host found'' [] b
      else if str_contains (n_name node) ''serial'' then
        rbind (say ''Found serial'' [] b) (\<lambda>b.
        rbind (unwrap_opt (n_interrupts node)) (\<lambda>ints.
        rbind (rfold enable_uart_int ints b) (\<lambda>b.
        if uart_locked (kern b) then hang else ok (b\<lparr>uart_ier := 1\<rparr>))))
      else ok b)"

section \<open>The halves of the address space\<close>

text \<open>The address made for entry \<open>index\<close> of the root table: all ones but for the index.\<close>

definition upper_vaddr :: "page_level \<Rightarrow> nat \<Rightarrow> u64" where
  "upper_vaddr level index = va_set_index level (of_nat index) (- 1)"

definition add_upper_entry :: "'v arena_ops \<Rightarrow> nat \<Rightarrow> 'v kernel \<Rightarrow> 'v kernel result" where
  "add_upper_entry ops index k =
     rbind (rd (mach k) (slot (current_table (mach k)) index)) (\<lambda>entry.
     let level = load_level (mach k); vaddr = upper_vaddr level index in
     if \<not> pte_valid entry
     then arena_add ops HIGHER_HALF vaddr (page_size_bytes (level_as_page_size level)) k
     else ok k)"

definition add_halves :: "'v arena_ops \<Rightarrow> u64 \<Rightarrow> 'v kernel \<Rightarrow> 'v kernel result" where
  "add_halves ops hhdm_start k =
     rbind (arena_add ops LOWER_HALF 0x1000 (hhdm_start - 0x1001) k) (\<lambda>k.
     rfold (add_upper_entry ops) [256..<512] k)"

section \<open>The whole of init\<close>

definition memory_bring_up :: "'v firmware \<Rightarrow> u64 \<Rightarrow> usize \<Rightarrow> 'v boot \<Rightarrow> 'v boot result" where
  "memory_bring_up fw hhdm_start dtb b =
     (let b = b\<lparr>kern := (kern b)\<lparr>mach := (mach (kern b))\<lparr>hhdm := hhdm_start\<rparr>\<rparr>, fdt_ptr := dtb\<rparr> in
      rbind (heap_init (fw_heap fw) 16384) (\<lambda>heap.
      rbind (pmm_init (mach (kern b)) (fw_map fw)) (\<lambda>s.
      rbind (init_tls (fw_tdata_start fw) (fw_tdata_end fw) (core0 b) s) (\<lambda>(c, s).
      rbind (traps_init heap c s) (\<lambda>(heap, c, s).
      ok (b\<lparr>heap_free := heap, core0 := c, kern := (kern b)\<lparr>mach := s\<rparr>\<rparr>))))))"

definition lib_init :: "'v firmware \<Rightarrow> u64 \<Rightarrow> usize \<Rightarrow> usize \<Rightarrow> 'v boot \<Rightarrow> 'v boot result" where
  "lib_init fw hhdm_start hart_id dtb b =
     rbind (memory_bring_up fw hhdm_start dtb b) (\<lambda>b.
     rbind (say ''Hart ID:'' [hart_id] (b\<lparr>hart_no := hart_id\<rparr>)) (\<lambda>b.
     rbind (vmm_bring_up fw b) (\<lambda>b.
     rbind (unwrap_res (fw_fdt fw dtb)) (\<lambda>dt.
     rbind (first_reg (fdt_plic dt)) (\<lambda>ptr.
     let b = b\<lparr>plic_addr := ptr + hhdm_start, plic_log := plic_init (hart_no b) (plic_log b)\<rparr> in
     rbind (say ''Initialized plic'' [] b) (\<lambda>b.
     rbind (rfold (init_node fw) (fdt_nodes dt) b) (\<lambda>b.
     rbind (on_kern (add_halves (fw_arenas fw) hhdm_start) b) (\<lambda>b.
     rbind (say ''Vmem initialized'' [] b) (\<lambda>b.
     on_kern (init_task_ids (fw_arenas fw)) b)))))))))"

end
