(* ===== verification/Init_Properties.thy ===== *)
theory Init_Properties
  imports Kernel_Init Kernel_Example
begin

text \<open>
  The properties of the kernel's initialisation: what the walk over the device tree leaves, and which
  addresses the arena of the upper half gets.
\<close>

section \<open>The walk over the device tree\<close>

text \<open>What a node is, by the first test of \<open>init_node\<close> that its name passes.\<close>

definition is_virtio :: "fdt_node \<Rightarrow> bool" where
  "is_virtio n \<longleftrightarrow> n_name n \<noteq> ''cpus'' \<and> str_contains (n_name n) ''virtio''"

definition is_rtc :: "fdt_node \<Rightarrow> bool" where
  "is_rtc n \<longleftrightarrow> n_name n \<noteq> ''cpus'' \<and> \<not> str_contains (n_name n) ''virtio'' \<and> str_contains (n_name n) ''rtc''"

definition is_serial :: "fdt_node \<Rightarrow> bool" where
  "is_serial n \<longleftrightarrow> n_name n \<noteq> ''cpus'' \<and> \<not> str_contains (n_name n) ''virtio'' \<and> \<not> str_contains (n_name n) ''rtc''
     \<and> \<not> str_contains (n_name n) ''pci'' \<and> str_contains (n_name n) ''serial''"

text \<open>What it contributes.\<close>

definition clocks :: "fdt_node list \<Rightarrow> u64 list" where
  "clocks ns = [the (n_timebase n). n \<leftarrow> ns, n_name n = ''cpus'']"

definition serial_ints :: "fdt_node list \<Rightarrow> usize list" where
  "serial_ints ns = concat [the (n_interrupts n). n \<leftarrow> ns, is_serial n]"

definition rtcs :: "fdt_node list \<Rightarrow> u64 list" where
  "rtcs ns = [hd (the (n_reg n)) + IO_OFFSET. n \<leftarrow> ns, is_rtc n]"

definition virtio_found :: "'v firmware \<Rightarrow> fdt_node list \<Rightarrow> (u64 \<times> usize list) list" where
  "virtio_found fw ns =
     [(hd (the (n_reg n)) + IO_OFFSET, the (n_interrupts n)). n \<leftarrow> ns, is_virtio n
        \<and> fw_magic fw (hd (the (n_reg n)) + IO_OFFSET) = 0x74726976
        \<and> fw_dev_id fw (hd (the (n_reg n)) + IO_OFFSET) \<noteq> 0]"

definition with_uart :: "usize list \<Rightarrow> handler list \<Rightarrow> handler list" where
  "with_uart irqs hs = map (\<lambda>i. if i \<in> unat ` set irqs then Uart_Handler else hs ! i) [0..<length hs]"

definition times_set :: "'a set_once \<Rightarrow> nat" where
  "times_set c = (if once_set c then 1 else 0)"

definition walked :: "'v firmware \<Rightarrow> fdt_node list \<Rightarrow> 'v boot \<Rightarrow> 'v boot \<Rightarrow> bool" where
  "walked fw ns b b' \<longleftrightarrow>
     handlers (kern b') = with_uart (serial_ints ns) (handlers (kern b))
     \<and> (\<forall>i \<in> set (serial_ints ns). unat i < length (handlers (kern b)))
     \<and> plic_log b' = plic_log b @ concat [[Plic_Enable (current_context (hart_no b)) i, Plic_Priority i 2]. i \<leftarrow> serial_ints ns]
     \<and> timer_speed (kern b') = last (timer_speed (kern b) # clocks ns)
     \<and> virtio_list b' = virtio_list b @ virtio_found fw ns
     \<and> once_val (rtc_cell b') = last (once_val (rtc_cell b) # rtcs ns)
     \<and> times_set (rtc_cell b') = times_set (rtc_cell b) + length (rtcs ns)
     \<and> mach (kern b') = mach (kern b) \<and> tasks (kern b') = tasks (kern b) \<and> hart_no b' = hart_no b
     \<and> uart_ier b' = (if \<exists>n \<in> set ns. is_serial n then 1 else uart_ier b)
     \<and> uart_locked (kern b') = uart_locked (kern b)"

text \<open>Which panic a node ends the walk with, on \<open>len\<close> interrupt handlers and with \<open>rtcs\<close> clocks found
  before it: a property the code asks for is missing or has no first address, the clock is the second
  one, or a number of a serial node is no index of the handlers.\<close>

definition lacks_property :: "'v firmware \<Rightarrow> fdt_node \<Rightarrow> bool" where
  "lacks_property fw n \<longleftrightarrow>
     n_name n = ''cpus'' \<and> n_timebase n = None
     \<or> (is_virtio n \<or> is_rtc n) \<and> (n_reg n = None \<or> n_reg n = Some [])
     \<or> is_virtio n \<and> virtio_found fw [n] \<noteq> [] \<and> n_interrupts n = None
     \<or> is_serial n \<and> n_interrupts n = None"

definition node_panic :: "'v firmware \<Rightarrow> nat \<Rightarrow> nat \<Rightarrow> fdt_node \<Rightarrow> fault option" where
  "node_panic fw len found n =
     (if lacks_property fw n then Some UnwrapNone
      else if is_rtc n \<and> 0 < found then Some (Panic ''Attempted to write to a setonce cell'')
      else if is_serial n
      then map_option (\<lambda>i. OutOfBounds (unat i) len) (find (\<lambda>i. len \<le> unat i) (the (n_interrupts n)))
      else None)"

lemma with_uart_append: "with_uart js (with_uart is hs) = with_uart (is @ js) hs"
  by (rule nth_equalityI) (auto simp: with_uart_def)

lemma with_uart_Nil [simp]: "with_uart [] hs = hs"
  by (simp add: with_uart_def map_nth)

lemma with_uart_one: "unat i < length hs \<Longrightarrow> with_uart [i] hs = hs[unat i := Uart_Handler]"
  by (rule nth_equalityI) (auto simp: with_uart_def nth_list_update)

lemma length_with_uart [simp]: "length (with_uart is hs) = length hs"
  by (simp add: with_uart_def)

lemma last_append_Cons: "last (last (x # xs) # ys) = last (x # xs @ ys)"
  by simp

lemma walked_Nil: "walked fw [] b b"
  by (simp add: walked_def clocks_def serial_ints_def rtcs_def virtio_found_def)

lemma found_append [simp]:
  "clocks (ns @ ms) = clocks ns @ clocks ms" "serial_ints (ns @ ms) = serial_ints ns @ serial_ints ms"
  "rtcs (ns @ ms) = rtcs ns @ rtcs ms" "virtio_found fw (ns @ ms) = virtio_found fw ns @ virtio_found fw ms"
  by (simp_all add: clocks_def serial_ints_def rtcs_def virtio_found_def)

lemma walked_append:
  assumes b: "walked fw ns b c" and d: "walked fw ms c d"
  shows "walked fw (ns @ ms) b d"
proof -
  have "timer_speed (kern d) = last (timer_speed (kern b) # clocks (ns @ ms))"
    "once_val (rtc_cell d) = last (once_val (rtc_cell b) # rtcs (ns @ ms))"
    using b d unfolding walked_def found_append by (metis last_append_Cons)+
  moreover have "\<forall>i \<in> set (serial_ints (ns @ ms)). unat i < length (handlers (kern b))"
    using b d by (simp add: walked_def ball_Un)
  moreover have "uart_ier d = (if \<exists>n \<in> set (ns @ ms). is_serial n then 1 else uart_ier b)"
    using b d by (auto simp: walked_def)
  ultimately show ?thesis using b d unfolding walked_def
    by (simp only: found_append with_uart_append map_append concat_append append_assoc length_append add.assoc)
qed

lemma enable_uart_ints:
  assumes "rfold enable_uart_int irqs b = ok b'"
  shows "b' = b\<lparr>plic_log := plic_log b @ concat [[Plic_Enable (current_context (hart_no b)) i, Plic_Priority i 2]. i \<leftarrow> irqs],
      kern := (kern b)\<lparr>handlers := with_uart irqs (handlers (kern b))\<rparr>\<rparr>
    \<and> (\<forall>i \<in> set irqs. unat i < length (handlers (kern b)))"
  using assms
proof (induction irqs arbitrary: b)
  case (Cons i irqs)
  from Cons.prems obtain c where c: "enable_uart_int i b = ok c" "rfold enable_uart_int irqs c = ok b'"
    by (auto simp: rbind_eq_ok)
  from c(1) have i: "unat i < length (handlers (kern b))" and
    ceq: "c = b\<lparr>plic_log := plic_log b @ [Plic_Enable (current_context (hart_no b)) i, Plic_Priority i 2],
      kern := (kern b)\<lparr>handlers := with_uart [i] (handlers (kern b))\<rparr>\<rparr>"
    by (auto simp: enable_uart_int_def Let_def with_uart_one split: if_splits)
  from Cons.IH [OF c(2)] show ?case unfolding ceq using i by (simp add: with_uart_append)
qed simp

lemma node_walked:
  assumes "init_node fw n b = ok b'"
  shows "walked fw [n] b b'"
proof -
  note defs = walked_def clocks_def serial_ints_def rtcs_def virtio_found_def is_virtio_def is_rtc_def is_serial_def
    say_def on_kern_def print_out_def rbind_eq_ok
  consider (cpus) "n_name n = ''cpus''" | (virtio) "is_virtio n" | (rtc) "is_rtc n" | (serial) "is_serial n"
    | (pci) "n_name n \<noteq> ''cpus''" "\<not> str_contains (n_name n) ''virtio''" "\<not> str_contains (n_name n) ''rtc''"
        "str_contains (n_name n) ''pci''"
    | (other) "n_name n \<noteq> ''cpus''" "\<not> is_virtio n" "\<not> is_rtc n" "\<not> is_serial n" "\<not> str_contains (n_name n) ''pci''"
    by (auto simp: is_virtio_def is_rtc_def is_serial_def)
  then show ?thesis
  proof cases
    case cpus
    then show ?thesis using assms by (auto simp: init_node_def defs unwrap_opt_def split: option.splits if_splits)
  next
    case virtio
    then have v: "n_name n \<noteq> ''cpus''" "str_contains (n_name n) ''virtio''" by (simp_all add: is_virtio_def)
    then have "init_node fw n b = rbind (first_reg (n_reg n)) (\<lambda>r.
        let ptr = r + IO_OFFSET in
        if fw_magic fw ptr = 0x74726976 \<and> fw_dev_id fw ptr \<noteq> 0 then
          rbind (say ''Found valid VirtIO device'' [ucast (fw_dev_id fw ptr)] b) (\<lambda>b.
          rbind (unwrap_opt (n_interrupts n)) (\<lambda>ints.
          ok (b\<lparr>virtio_list := virtio_list b @ [(ptr, ints)]\<rparr>)))
        else ok b)" by (simp add: init_node_def)
    with v virtio assms show ?thesis
      by (cases "n_reg n"; cases "the (n_reg n)"; cases "n_interrupts n")
        (auto simp: first_reg_def Let_def defs split: if_splits)
  next
    case rtc
    then show ?thesis using assms
      by (cases "n_reg n"; cases "the (n_reg n)")
        (auto simp: init_node_def first_reg_def set_once_set_def times_set_def defs split: if_splits)
  next
    case serial
    then have "init_node fw n b = rbind (say ''Found serial'' [] b) (\<lambda>b.
        rbind (unwrap_opt (n_interrupts n)) (\<lambda>ints.
        rbind (rfold enable_uart_int ints b) (\<lambda>b.
        if uart_locked (kern b) then hang else ok (b\<lparr>uart_ier := 1\<rparr>))))"
      by (simp add: init_node_def is_serial_def)
    with assms obtain c irqs d where c: "say ''Found serial'' [] b = ok c" "n_interrupts n = Some irqs"
      "rfold enable_uart_int irqs c = ok d" "b' = d\<lparr>uart_ier := 1\<rparr>"
      by (auto simp: rbind_eq_ok unwrap_opt_def split: option.splits if_splits)
    from c(1) have "c = b\<lparr>kern := (kern b)\<lparr>console := console (kern b) @ [Msg ''Found serial'' []]\<rparr>\<rparr>"
      by (auto simp: say_def on_kern_def print_out_def split: if_splits)
    with enable_uart_ints [OF c(3)] c(2,4) serial show ?thesis
      by (auto simp: walked_def clocks_def serial_ints_def rtcs_def virtio_found_def is_virtio_def is_rtc_def is_serial_def)
  next
    case pci
    then show ?thesis using assms by (auto simp: init_node_def defs split: if_splits)
  next
    case other
    then show ?thesis using assms by (auto simp: init_node_def defs split: if_splits)
  qed
qed

lemma enable_uart_ints_outcome:
  "case find (\<lambda>i. length (handlers (kern b)) \<le> unat i) irqs of
     Some i \<Rightarrow> rfold enable_uart_int irqs b = fail (OutOfBounds (unat i) (length (handlers (kern b))))
   | None \<Rightarrow> \<exists>b'. rfold enable_uart_int irqs b = ok b' \<and> uart_locked (kern b') = uart_locked (kern b)"
proof (induction irqs arbitrary: b)
  case (Cons i irqs)
  show ?case
  proof (cases "unat i < length (handlers (kern b))")
    case True
    then obtain c where "enable_uart_int i b = ok c" "length (handlers (kern c)) = length (handlers (kern b))"
      "uart_locked (kern c) = uart_locked (kern b)" by (auto simp: enable_uart_int_def Let_def)
    with Cons.IH [of c] True show ?thesis by (auto split: option.splits)
  qed (simp add: enable_uart_int_def Let_def)
qed simp

lemma node_outcome:
  assumes u: "\<not> uart_locked (kern b)"
  shows "case node_panic fw (length (handlers (kern b))) (times_set (rtc_cell b)) n of
     Some p \<Rightarrow> init_node fw n b = fail p
   | None \<Rightarrow> \<exists>b'. init_node fw n b = ok b' \<and> walked fw [n] b b'"
proof -
  note defs = node_panic_def lacks_property_def say_def on_kern_def print_out_def u virtio_found_def
  consider (cpus) "n_name n = ''cpus''" | (virtio) "is_virtio n" | (rtc) "is_rtc n" | (serial) "is_serial n"
    | (pci) "n_name n \<noteq> ''cpus''" "\<not> str_contains (n_name n) ''virtio''" "\<not> str_contains (n_name n) ''rtc''"
        "str_contains (n_name n) ''pci''"
    | (other) "n_name n \<noteq> ''cpus''" "\<not> is_virtio n" "\<not> is_rtc n" "\<not> is_serial n" "\<not> str_contains (n_name n) ''pci''"
    by (auto simp: is_virtio_def is_rtc_def is_serial_def)
  then have "case node_panic fw (length (handlers (kern b))) (times_set (rtc_cell b)) n of
     Some p \<Rightarrow> init_node fw n b = fail p | None \<Rightarrow> \<exists>b'. init_node fw n b = ok b'"
  proof cases
    case cpus
    then have "\<not> is_virtio n" "\<not> is_rtc n" "\<not> is_serial n" by (simp_all add: is_virtio_def is_rtc_def is_serial_def)
    with cpus show ?thesis by (cases "n_timebase n") (simp_all add: init_node_def defs)
  next
    case virtio
    then have v: "n_name n \<noteq> ''cpus''" "str_contains (n_name n) ''virtio''" "\<not> is_rtc n" "\<not> is_serial n"
      by (simp_all add: is_virtio_def is_rtc_def is_serial_def)
    with virtio show ?thesis
      by (cases "n_reg n"; cases "the (n_reg n)"; cases "n_interrupts n")
        (auto simp: init_node_def first_reg_def Let_def defs)
  next
    case rtc
    then have v: "n_name n \<noteq> ''cpus''" "\<not> str_contains (n_name n) ''virtio''" "str_contains (n_name n) ''rtc''"
      "\<not> is_virtio n" "\<not> is_serial n"
      by (simp_all add: is_virtio_def is_rtc_def is_serial_def)
    with rtc show ?thesis
      by (cases "n_reg n"; cases "the (n_reg n)")
        (auto simp: init_node_def first_reg_def set_once_set_def times_set_def defs)
  next
    case serial
    then have v: "n_name n \<noteq> ''cpus''" "\<not> is_virtio n" "\<not> is_rtc n" by (simp_all add: is_virtio_def is_rtc_def is_serial_def)
    have n: "init_node fw n b = rbind (say ''Found serial'' [] b) (\<lambda>b.
        rbind (unwrap_opt (n_interrupts n)) (\<lambda>ints.
        rbind (rfold enable_uart_int ints b) (\<lambda>b.
        if uart_locked (kern b) then hang else ok (b\<lparr>uart_ier := 1\<rparr>))))"
      using serial by (simp add: init_node_def is_serial_def)
    show ?thesis
    proof (cases "n_interrupts n")
      case None
      then show ?thesis unfolding n using serial v by (simp add: defs)
    next
      case (Some irqs)
      let ?b = "b\<lparr>kern := (kern b)\<lparr>console := console (kern b) @ [Msg ''Found serial'' []]\<rparr>\<rparr>"
      have s: "say ''Found serial'' [] b = ok ?b" by (simp add: say_def on_kern_def print_out_def u)
      have l: "\<not> lacks_property fw n" using serial v Some by (simp add: lacks_property_def)
      show ?thesis using enable_uart_ints_outcome [where b = ?b and irqs = irqs] serial v(3) u l
        by (auto simp: n s Some node_panic_def split: option.splits)
    qed
  next
    case pci
    then have "\<not> is_virtio n" "\<not> is_rtc n" "\<not> is_serial n" by (simp_all add: is_virtio_def is_rtc_def is_serial_def)
    with pci show ?thesis by (simp add: init_node_def defs)
  next
    case other
    then have "\<not> str_contains (n_name n) ''virtio''" "\<not> str_contains (n_name n) ''rtc''" "\<not> str_contains (n_name n) ''serial''"
      by (auto simp: is_virtio_def is_rtc_def is_serial_def)
    with other show ?thesis by (simp add: init_node_def defs)
  qed
  then show ?thesis using node_walked by (auto split: option.splits)
qed

text \<open>What node \<open>i\<close> of the walk ends it with, if anything.\<close>

definition panic_at :: "'v firmware \<Rightarrow> fdt_node list \<Rightarrow> 'v boot \<Rightarrow> nat \<Rightarrow> fault option" where
  "panic_at fw ns b i = node_panic fw (length (handlers (kern b))) (times_set (rtc_cell b) + length (rtcs (take i ns))) (ns ! i)"

lemma panic_at_Suc:
  assumes "walked fw [n] b c"
  shows "panic_at fw (n # ns) b (Suc i) = panic_at fw ns c i"
proof -
  have "rtcs (n # take i ns) = rtcs [n] @ rtcs (take i ns)" using found_append(3) [of "[n]" "take i ns"] by simp
  moreover have "times_set (rtc_cell c) = times_set (rtc_cell b) + length (rtcs [n])"
    using assms unfolding walked_def by blast
  moreover have "handlers (kern c) = with_uart (serial_ints [n]) (handlers (kern b))"
    using assms unfolding walked_def by blast
  then have "length (handlers (kern c)) = length (handlers (kern b))" by (simp only: length_with_uart)
  ultimately show ?thesis unfolding panic_at_def by (simp only: take_Suc_Cons nth_Cons_Suc length_append add.assoc)
qed

lemma walk_outcome:
  assumes "\<not> uart_locked (kern b)"
  shows "if \<forall>i < length ns. panic_at fw ns b i = None
    then \<exists>b'. rfold (init_node fw) ns b = ok b' \<and> walked fw ns b b'
    else \<exists>i < length ns. \<exists>p. (\<forall>j < i. panic_at fw ns b j = None) \<and> panic_at fw ns b i = Some p
      \<and> rfold (init_node fw) ns b = fail p"
  using assms
proof (induction ns arbitrary: b)
  case Nil
  then show ?case by (simp add: walked_Nil)
next
  case (Cons n ns)
  have zero: "panic_at fw (n # ns) b 0 = node_panic fw (length (handlers (kern b))) (times_set (rtc_cell b)) n"
    by (simp add: panic_at_def rtcs_def)
  show ?case
  proof (cases "panic_at fw (n # ns) b 0")
    case (Some p)
    then have "init_node fw n b = fail p" using node_outcome [OF Cons.prems, of fw n] by (simp add: zero)
    then have "rfold (init_node fw) (n # ns) b = fail p" by simp
    moreover have "\<not> (\<forall>i < length (n # ns). panic_at fw (n # ns) b i = None)" using Some by fastforce
    ultimately show ?thesis using Some by (subst if_not_P) (auto intro!: exI [of _ 0])
  next
    case None
    then obtain c where c: "init_node fw n b = ok c" "walked fw [n] b c"
      using node_outcome [OF Cons.prems, of fw n] by (auto simp: zero)
    note S = panic_at_Suc [OF c(2)]
    have "\<not> uart_locked (kern c)" using c(2) Cons.prems by (simp add: walked_def)
    note IH = Cons.IH [OF this]
    have all: "(\<forall>i < length (n # ns). panic_at fw (n # ns) b i = None) \<longleftrightarrow> (\<forall>i < length ns. panic_at fw ns c i = None)"
      using None by (simp add: All_less_Suc2 S)
    show ?thesis
    proof (cases "\<forall>i < length ns. panic_at fw ns c i = None")
      case True
      then obtain d where "rfold (init_node fw) ns c = ok d" "walked fw ns c d" using IH unfolding if_P [OF True] by blast
      then show ?thesis using c walked_append [OF c(2)] True unfolding all by auto
    next
      case False
      then obtain i p where "i < length ns" "\<forall>j < i. panic_at fw ns c j = None" "panic_at fw ns c i = Some p"
        "rfold (init_node fw) ns c = fail p" using IH unfolding if_not_P [OF False] by blast
      then have "Suc i < length (n # ns)" "\<forall>j < Suc i. panic_at fw (n # ns) b j = None"
        "panic_at fw (n # ns) b (Suc i) = Some p" "rfold (init_node fw) (n # ns) b = fail p"
        using None c(1) by (simp_all add: All_less_Suc2 S)
      then show ?thesis using False unfolding all by (subst if_not_P) blast+
    qed
  qed
qed

text \<open>C30. The walk over the device tree, with the UART not locked, ends with the panic of the first node
  that has one, and otherwise completes. A node panics when a property the code asks for is missing
  (the time base of \<open>cpus\<close>, the registers of a VirtIO or clock node, the interrupts of a serial line
  or of a VirtIO header that has a device), when it is the second clock, or when an interrupt of a
  serial line is no index of the handlers. After a walk that completes, exactly the interrupts of the
  serial nodes have the UART's handler, each of them is enabled for the boot hart's supervisor context
  with priority 2, and the UART's own interrupt is on when there is a serial node; the timer's speed
  is that of the last \<open>cpus\<close> node; the list of VirtIO devices is that of the nodes behind whose
  registers there is one, in order; and neither memory nor the tasks have changed.\<close>

theorem device_walk_outcome:
  assumes "\<not> uart_locked (kern b)"
  shows "if \<forall>i < length ns. panic_at fw ns b i = None
    then \<exists>b'. rfold (init_node fw) ns b = ok b' \<and> walked fw ns b b'
    else \<exists>i < length ns. \<exists>p. (\<forall>j < i. panic_at fw ns b j = None) \<and> panic_at fw ns b i = Some p
      \<and> rfold (init_node fw) ns b = fail p"
  by (rule walk_outcome [OF assms])

text \<open>A tree with a clock speed, a serial line with interrupt 10, a real-time clock and two VirtIO headers,
  behind the second of which there is a device.\<close>

definition board_nodes :: "fdt_node list" where
  "board_nodes =
    [\<lparr>n_name = ''cpus'', n_reg = None, n_interrupts = None, n_timebase = Some 10000000\<rparr>,
     \<lparr>n_name = ''serial@10000000'', n_reg = Some [0x10000000], n_interrupts = Some [10], n_timebase = None\<rparr>,
     \<lparr>n_name = ''rtc@101000'', n_reg = Some [0x101000], n_interrupts = Some [11], n_timebase = None\<rparr>,
     \<lparr>n_name = ''virtio_mmio@1'', n_reg = Some [0x10001000], n_interrupts = Some [1], n_timebase = None\<rparr>,
     \<lparr>n_name = ''virtio_mmio@2'', n_reg = Some [0x10002000], n_interrupts = Some [2], n_timebase = None\<rparr>]"

definition count_arenas :: "usize arena_ops" where
  "count_arenas = \<lparr>new_arena = (\<lambda>v. (unat v, v + 1)), add_span = (\<lambda>_ _ _ v. Inr v), alloc_span = (\<lambda>_ n v. Inr (v, v + n))\<rparr>"

definition board_fw :: "usize firmware" where
  "board_fw = \<lparr>fw_map = [], fw_fdt = (\<lambda>_. Inl ''none''), fw_heap = 0x80001008, fw_tdata_start = 0, fw_tdata_end = 0,
     fw_magic = (\<lambda>_. 0x74726976), fw_dev_id = (\<lambda>a. if a = 0x10002000 + IO_OFFSET then 18 else 0),
     fw_arenas = count_arenas\<rparr>"

definition no_handlers :: "handler list" where
  "no_handlers = replicate 64 Unknown_Handler"

lemma length_no_handlers [simp]: "length no_handlers = 64"
  unfolding no_handlers_def by (rule length_replicate)

definition cold_boot :: "usize boot" where
  "cold_boot = \<lparr>kern = three\<lparr>handlers := no_handlers\<rparr>, heap_free = [],
     core0 = \<lparr>c_sp = 0, c_tp = 0, c_gp = 0, c_satp = 0, c_sscratch = 0, c_sstatus = 0, c_sie = 0\<rparr>,
     fdt_ptr = 0, kern_phys = 0, hart_no = 0, cpu_data = set_once_new 0, rtc_cell = set_once_new 0, plic_addr = 0,
     plic_log = [], virtio_list = [], uart_ier = 0\<rparr>"

text \<open>A second clock ends the walk.\<close>

definition second_clock :: fdt_node where
  "second_clock = \<lparr>n_name = ''rtc@101001'', n_reg = Some [0x101100], n_interrupts = None, n_timebase = None\<rparr>"

lemma board_found:
  "serial_ints board_nodes = [10]" "rtcs board_nodes = [0x101000 + IO_OFFSET]"
  "virtio_found board_fw board_nodes = [(0x10002000 + IO_OFFSET, [2])]"
  by (simp_all add: serial_ints_def rtcs_def virtio_found_def board_nodes_def is_serial_def is_rtc_def is_virtio_def
      board_fw_def IO_OFFSET_def)

lemma cold_boot_fields: "\<not> uart_locked (kern cold_boot)" "times_set (rtc_cell cold_boot) = 0"
  "handlers (kern cold_boot) = no_handlers" "virtio_list cold_boot = []"
  by (simp_all add: cold_boot_def times_set_def set_once_new_def)

lemma board_node_panics:
  "node_panic board_fw 64 0 (board_nodes ! 0) = None" "node_panic board_fw 64 0 (board_nodes ! 1) = None"
  "node_panic board_fw 64 0 (board_nodes ! 2) = None" "node_panic board_fw 64 1 (board_nodes ! 3) = None"
  "node_panic board_fw 64 1 (board_nodes ! 4) = None"
  by (simp_all add: board_nodes_def node_panic_def lacks_property_def is_virtio_def is_rtc_def
      is_serial_def virtio_found_def board_fw_def IO_OFFSET_def)

lemma board_rtcs:
  "length (rtcs (take 0 board_nodes)) = 0" "length (rtcs (take 1 board_nodes)) = 0"
  "length (rtcs (take 2 board_nodes)) = 0" "length (rtcs (take 3 board_nodes)) = 1" "length (rtcs (take 4 board_nodes)) = 1"
  by (simp_all add: rtcs_def board_nodes_def is_rtc_def)

lemma board_panics:
  assumes "i < 5"
  shows "panic_at board_fw (board_nodes @ ns) cold_boot i = None"
proof -
  have len: "length board_nodes = 5" by (simp add: board_nodes_def)
  then have "panic_at board_fw (board_nodes @ ns) cold_boot i = node_panic board_fw 64 (length (rtcs (take i board_nodes))) (board_nodes ! i)"
    using assms by (simp add: panic_at_def cold_boot_fields nth_append)
  moreover have "i = 0 \<or> i = 1 \<or> i = 2 \<or> i = 3 \<or> i = 4" using assms by arith
  ultimately show ?thesis using board_node_panics board_rtcs by (elim disjE) (simp_all only:)
qed

theorem device_walk_outcome_witness:
  "(\<exists>b. rfold (init_node board_fw) board_nodes cold_boot = ok b
     \<and> handlers (kern b) = with_uart [10] no_handlers
     \<and> virtio_list b = [(0x10002000 + IO_OFFSET, [2])] \<and> once_val (rtc_cell b) = 0x101000 + IO_OFFSET)
   \<and> rfold (init_node board_fw) (board_nodes @ [second_clock]) cold_boot
     = fail (Panic ''Attempted to write to a setonce cell'')"
proof
  have len: "length board_nodes = 5" by (simp add: board_nodes_def)
  have all: "\<forall>i < length board_nodes. panic_at board_fw board_nodes cold_boot i = None"
    using board_panics [of _ "[]"] len by simp
  obtain b where b: "rfold (init_node board_fw) board_nodes cold_boot = ok b" "walked board_fw board_nodes cold_boot b"
    using device_walk_outcome [OF cold_boot_fields(1), of board_nodes board_fw] all by auto
  then show "\<exists>b. rfold (init_node board_fw) board_nodes cold_boot = ok b
     \<and> handlers (kern b) = with_uart [10] no_handlers
     \<and> virtio_list b = [(0x10002000 + IO_OFFSET, [2])] \<and> once_val (rtc_cell b) = 0x101000 + IO_OFFSET"
    unfolding walked_def board_found cold_boot_fields by auto
  let ?p = "Panic ''Attempted to write to a setonce cell''" and ?ns = "board_nodes @ [second_clock]"
  have five: "panic_at board_fw ?ns cold_boot 5 = Some ?p"
    by (simp add: panic_at_def len nth_append cold_boot_fields board_found)
      (simp add: second_clock_def node_panic_def lacks_property_def is_virtio_def is_rtc_def is_serial_def)
  then have "\<not> (\<forall>i < length ?ns. panic_at board_fw ?ns cold_boot i = None)" by (auto simp: len intro!: exI [of _ 5])
  note walk = device_walk_outcome [OF cold_boot_fields(1), of ?ns board_fw, unfolded if_not_P [OF this]]
  then obtain i p where i: "i < length ?ns" "\<forall>j < i. panic_at board_fw ?ns cold_boot j = None"
    "panic_at board_fw ?ns cold_boot i = Some p" "rfold (init_node board_fw) ?ns cold_boot = fail p"
    using walk by blast
  have "i = 5" using i(1,3) board_panics [of i "[second_clock]"] len by (cases "i < 5") auto
  then show "rfold (init_node board_fw) ?ns cold_boot = fail ?p" using i(3,4) five by simp
qed

section \<open>The arena of the upper half\<close>

lemma complement_9: "i < 512 \<Longrightarrow> of_nat (511 - i) = take_bit 9 (NOT (of_nat i :: u64))"
proof -
  assume i: "i < 512"
  then have "take_bit 9 (of_nat i :: u64) = of_nat i"
    by (simp add: take_bit_of_nat take_bit_nat_eq_self)
  then have "take_bit 9 (NOT (of_nat i :: u64)) = mask 9 - of_nat i" by (simp add: take_bit_not_eq_mask_diff)
  moreover have "mask 9 = (of_nat 511 :: u64)" by (simp add: mask_eq_exp_minus_1)
  ultimately show ?thesis using i by (simp add: of_nat_diff)
qed

lemma upper_vaddr_bits:
  assumes "i < 512" "l \<noteq> PageOffset"
  shows "upper_vaddr l i = NOT (push_bit (level_lsb l) (of_nat (511 - i)))"
proof -
  have b: "level_bits l = 9" using assms(2) by (cases l) simp_all
  show ?thesis unfolding complement_9 [OF assms(1)]
    by (rule bit_word_eqI) (auto simp: upper_vaddr_def va_set_index_bf b bit_bf_set bit_simps)
qed

lemma bf_get_nat:
  assumes "msb = lsb + 8" "N < 2 ^ 64"
  shows "bf_get msb lsb (of_nat N :: u64) = of_nat (N div 2 ^ lsb mod 512)"
proof -
  have "bf_get msb lsb (of_nat N :: u64) = take_bit 9 (drop_bit lsb (of_nat N))" by (simp add: bf_get_def assms(1))
  moreover have "unat (of_nat N :: u64) = N" using assms(2) by (simp add: unat_of_nat)
  then have "unat (take_bit 9 (drop_bit lsb (of_nat N :: u64))) = take_bit 9 (drop_bit lsb N)"
    by (simp only: unsigned_take_bit_eq unat_drop_bit_eq)
  then have "unat (take_bit 9 (drop_bit lsb (of_nat N :: u64))) = N div 2 ^ lsb mod 512"
    by (simp only: take_bit_eq_mod drop_bit_eq_div) simp
  ultimately show ?thesis by (metis of_nat_of_unat)
qed

lemma upper_byte:
  assumes i: "256 \<le> i" "i < 511" and l: "l \<in> {Level3, Level4, Level5}"
    and off: "0 < off" "off < page_size_bytes (page_size_from_level l)"
  shows "va_index (upper_vaddr l i + off) l = of_nat (i + 1)"
proof -
  define m where "m = 511 - i"
  define L where "L = level_lsb l"
  have L: "L = 30 \<or> L = 39 \<or> L = 48" using l by (auto simp: L_def)
  have m: "0 < m" "m \<le> 255" "i + 1 = 512 - m" using i by (simp_all add: m_def)
  have o: "0 < unat off" "unat off < 2 ^ L"
    using off l by (auto simp: L_def word_less_nat_alt unat_gt_0)
  let ?N = "2 ^ L * (2 ^ (64 - L) - m) + (unat off - 1)"
  let ?Q = "2 ^ (64 - L) - m"
  have "?N div 2 ^ L = (unat off - 1 + ?Q * 2 ^ L) div 2 ^ L" by (simp add: ac_simps)
  also have "\<dots> = ?Q" using o by (subst div_mult_self1) simp_all
  finally have d: "?N div 2 ^ L = ?Q" .
  have Q: "?Q < 2 ^ (64 - L)" "?Q mod 512 = 512 - m"
  proof -
    show "?Q < 2 ^ (64 - L)" using m by simp
    have "(2 :: nat) ^ (64 - L) = 2 ^ 9 * 2 ^ (55 - L)" using L by (subst power_add [symmetric]) auto
    moreover have "1 \<le> (2 :: nat) ^ (55 - L)" by simp
    then obtain q where "(2 :: nat) ^ (55 - L) = Suc q" by (metis Suc_le_D One_nat_def)
    ultimately have "?Q = (512 - m) + q * 512" using m by simp
    then show "?Q mod 512 = 512 - m" using m by (simp only: mod_mult_self1) simp
  qed
  have "(2 :: nat) ^ 64 = 2 ^ (64 - L) * 2 ^ L" using L by (subst power_add [symmetric]) auto
  then have "?N < 2 ^ 64" using Q(1) d by (metis div_less_iff_less_mult zero_less_numeral zero_less_power)
  then have N: "?N < 2 ^ 64" "?N div 2 ^ L mod 512 = i + 1" unfolding d Q(2) m(3) by assumption (rule refl)
  have "upper_vaddr l i = - (2 ^ L * of_nat m) - 1"
    using i l by (subst upper_vaddr_bits) (auto simp: m_def L_def push_bit_eq_mult not_eq_complement ac_simps)
  moreover have "(of_nat ?N :: u64) = - (2 ^ L * of_nat m) + (off - 1)"
  proof -
    have "(2 :: u64) ^ LENGTH(64) = 0" by (rule word_exp_length_eq_0)
    then have z: "(2 :: u64) ^ L * 2 ^ (64 - L) = 0" using L by (subst power_add [symmetric]) auto
    have "m \<le> (2 :: nat) ^ (64 - L)" using L m(2) by auto
    then have "(of_nat ?N :: u64) = 2 ^ L * (2 ^ (64 - L) - of_nat m) + (of_nat (unat off) - 1)"
      using o(1) by (simp add: of_nat_diff del: of_nat_unat)
    then show ?thesis using z by (simp add: right_diff_distrib)
  qed
  ultimately have "upper_vaddr l i + off = of_nat ?N" by simp
  moreover have "va_index w l = bf_get (L + 8) L w" for w using l by (auto simp: L_def)
  ultimately show ?thesis using bf_get_nat [OF refl N(1), of L] N(2) by simp
qed

text \<open>The span of addresses that \<open>init\<close> gives to the arena of the upper half for an unused entry \<open>i\<close>
  of the root table has one byte in the part of the address space of that entry, the last one; all
  the others belong to entry \<open>i + 1\<close>, used or not. The span does not start at a page.\<close>

theorem upper_span_is_shifted:
  assumes "rd (mach k) (slot (current_table (mach k)) i) = ok e" "\<not> pte_valid e"
    and "load_level (mach k) = l" "l \<in> {Level3, Level4, Level5}" "256 \<le> i" "i < 511"
  shows "\<exists>base sz. add_upper_entry ops i k = arena_add ops HIGHER_HALF base sz k
    \<and> sz = page_size_bytes (page_size_from_level l)
    \<and> va_index base l = of_nat i \<and> va_index base PageOffset = 0xfff
    \<and> (\<forall>off \<in> {off. 0 < off \<and> off < sz}. va_index (base + off) l = of_nat (i + 1))"
proof (intro exI conjI ballI)
  show "add_upper_entry ops i k = arena_add ops HIGHER_HALF (upper_vaddr l i) (page_size_bytes (page_size_from_level l)) k"
    using assms(1-3) by (cases l) (simp_all add: add_upper_entry_def Let_def)
  have "take_bit 9 (of_nat i :: u64) = of_nat i" using assms(6) by (simp add: take_bit_of_nat take_bit_nat_eq_self)
  then show "va_index (upper_vaddr l i) l = of_nat i"
    using assms(4) va_field.get_set [of l "of_nat i" "- 1"] by (auto simp: upper_vaddr_def)
  have "bit (va_index (upper_vaddr l i) PageOffset) n = bit (0xfff :: u64) n" for n
  proof -
    have "(0xfff :: u64) = mask 12" by (simp add: mask_eq_exp_minus_1)
    then have "bit (0xfff :: u64) n = bit (mask 12 :: u64) n" by (rule arg_cong)
    then have "bit (0xfff :: u64) n = (n < 12)" by (simp only: bit_mask_iff) auto
    then show ?thesis using assms(4) by (auto simp: bit_bf_get upper_vaddr_def bit_bf_set bit_minus_1_iff)
  qed
  then show "va_index (upper_vaddr l i) PageOffset = 0xfff" by (rule bit_word_eqI)
  fix off assume "off \<in> {off. 0 < off \<and> off < page_size_bytes (page_size_from_level l)}"
  then show "va_index (upper_vaddr l i + off) l = of_nat (i + 1)" using upper_byte [OF assms(5,6,4)] by simp
qed simp_all

theorem upper_span_is_shifted_witness:
  "\<exists>base sz. add_upper_entry count_arenas 300 three = arena_add count_arenas HIGHER_HALF base sz three
     \<and> va_index (base + 1) Level3 = 301"
proof -
  have "rd (mach three) (slot (current_table (mach three)) 300) = ok 0" using warm_root [of 300] by simp
  moreover have "load_level (mach three) = Level3" by (simp add: load_level_def level_from_usize_def)
  ultimately show ?thesis using upper_span_is_shifted [of three 300 0 Level3 count_arenas] by force
qed

end
