(* ===== verification/Smp.thy ===== *)
theory Smp
  imports Core_Setup
begin

text \<open>
  The other cores, LSD/src/main.rs: \<open>smp_init\<close> on the boot processor and \<open>core_main\<close> on each core it
  starts. They share the static \<open>CORE_INIT\<close>, the free list and the heap, and run in any interleaving:
  a state has a program counter for the boot processor and one for every hart, and a step is one
  access to \<open>CORE_INIT\<close> or one piece of work under a lock. The bootloader (crate \<open>limine\<close>) starts a
  parked hart at \<open>core_main\<close>; lines printed are left out. A panic ends in \<open>pause_loop\<close>, a state
  without steps.

  \<open>sm_given\<close> is not in the program: it records the values of \<open>CORE_INIT\<close> when a core is started.
\<close>

section \<open>State\<close>

record core_init =
  ci_sp :: usize
  ci_satp :: usize
  ci_claimed :: bool

text \<open>The boot processor: at the head of the loop, about to store \<open>satp\<close>, to claim the stack, to store
  \<open>sp\<close>, to start the core, waiting for \<open>claimed\<close>, about to store \<open>claimed\<close>.\<close>

datatype bsp_pc =
    At_loop | Store_satp usize u64 | Claim_stack usize | Store_sp usize u64 | Start_core usize
  | Await_claim | Claim_again | Bsp_done | Bsp_dead

text \<open>A hart: with the bootloader, at the first instruction of \<open>core_main\<close>, with satp read, before
  \<open>init_tls\<close>, before \<open>traps::init\<close>, about to store \<open>claimed\<close>, in its idle loop.\<close>

datatype hart_pc =
    Parked | Entered | Has_satp u64 | Setup core | Traps core | Report core | Running core | Hart_dead

record smp =
  sm_mach :: machine
  sm_heap :: "list_node list"
  sm_init :: core_init
  sm_cpus :: "usize list"
  sm_bsp :: bsp_pc
  sm_harts :: "usize \<Rightarrow> hart_pc"
  sm_given :: "usize \<Rightarrow> (u64 \<times> u64) option"

record smp_env =
  bsp_hart :: usize
  tdata_from :: u64
  tdata_to :: u64
  global_pointer :: u64
  reset_core :: core

section \<open>Steps\<close>

text \<open>\<open>Satp::new()\<close> reads the boot processor's satp; its page number and mode are replaced.\<close>

definition core_satp :: "machine \<Rightarrow> u64 \<Rightarrow> u64" where
  "core_satp s new_table = satp_set_mode 9 (satp_set_ppn (drop_bit 12 (new_table - hhdm s)) (satp s))"

definition bsp_step :: "smp_env \<Rightarrow> smp \<Rightarrow> smp option" where
  "bsp_step e s =
     (case sm_bsp s of
        At_loop \<Rightarrow>
          (case sm_cpus s of
             [] \<Rightarrow> Some (s\<lparr>sm_bsp := Bsp_done\<rparr>)
           | h # hs \<Rightarrow>
               if h = bsp_hart e then Some (s\<lparr>sm_cpus := hs\<rparr>)
               else
                 (case new_with_upperhalf (sm_mach s) of
                    Some (Inr (t, m)) \<Rightarrow> Some (s\<lparr>sm_mach := m, sm_cpus := hs, sm_bsp := Store_satp h (core_satp m t)\<rparr>)
                  | Some (Inl _) \<Rightarrow> Some (s\<lparr>sm_bsp := Bsp_dead\<rparr>)
                  | None \<Rightarrow> None))
      | Store_satp h w \<Rightarrow> Some (s\<lparr>sm_init := (sm_init s)\<lparr>ci_satp := w\<rparr>, sm_bsp := Claim_stack h\<rparr>)
      | Claim_stack h \<Rightarrow>
          (case claim_continuous (sm_mach s) 0x80 of
             Some (Inr (Inr (p, m))) \<Rightarrow> Some (s\<lparr>sm_mach := m, sm_bsp := Store_sp h p\<rparr>)
           | Some _ \<Rightarrow> Some (s\<lparr>sm_bsp := Bsp_dead\<rparr>)
           | None \<Rightarrow> None)
      | Store_sp h p \<Rightarrow> Some (s\<lparr>sm_init := (sm_init s)\<lparr>ci_sp := p\<rparr>, sm_bsp := Start_core h\<rparr>)
      | Start_core h \<Rightarrow>
          Some (s\<lparr>sm_harts := (sm_harts s)(h := if sm_harts s h = Parked then Entered else sm_harts s h),
                  sm_given := (sm_given s)(h \<mapsto> (ci_satp (sm_init s), ci_sp (sm_init s))),
                  sm_bsp := Await_claim\<rparr>)
      | Await_claim \<Rightarrow> if ci_claimed (sm_init s) then Some (s\<lparr>sm_bsp := Claim_again\<rparr>) else None
      | Claim_again \<Rightarrow> Some (s\<lparr>sm_init := (sm_init s)\<lparr>ci_claimed := True\<rparr>, sm_bsp := At_loop\<rparr>)
      | Bsp_done \<Rightarrow> None
      | Bsp_dead \<Rightarrow> None)"

definition hart_goes :: "usize \<Rightarrow> hart_pc \<Rightarrow> smp \<Rightarrow> smp" where
  "hart_goes h pc s = s\<lparr>sm_harts := (sm_harts s)(h := pc)\<rparr>"

definition hart_step :: "smp_env \<Rightarrow> usize \<Rightarrow> smp \<Rightarrow> smp option" where
  "hart_step e h s =
     (case sm_harts s h of
        Parked \<Rightarrow> None
      | Entered \<Rightarrow> Some (hart_goes h (Has_satp (ci_satp (sm_init s))) s)
      | Has_satp w \<Rightarrow>
          Some (hart_goes h (Setup ((reset_core e)\<lparr>c_satp := w, c_sp := ci_sp (sm_init s), c_gp := global_pointer e\<rparr>)) s)
      | Setup c \<Rightarrow>
          (case init_tls (tdata_from e) (tdata_to e) c (sm_mach s) of
             Some (Inr (c, m)) \<Rightarrow> Some (hart_goes h (Traps c) (s\<lparr>sm_mach := m\<rparr>))
           | Some (Inl _) \<Rightarrow> Some (hart_goes h Hart_dead s)
           | None \<Rightarrow> None)
      | Traps c \<Rightarrow>
          (case traps_init (sm_heap s) c (sm_mach s) of
             Some (Inr (heap, c, m)) \<Rightarrow> Some (hart_goes h (Report c) (s\<lparr>sm_mach := m, sm_heap := heap\<rparr>))
           | Some (Inl _) \<Rightarrow> Some (hart_goes h Hart_dead s)
           | None \<Rightarrow> None)
      | Report c \<Rightarrow> Some (hart_goes h (Running c) (s\<lparr>sm_init := (sm_init s)\<lparr>ci_claimed := True\<rparr>\<rparr>))
      | Running c \<Rightarrow> None
      | Hart_dead \<Rightarrow> None)"

inductive smp_step :: "smp_env \<Rightarrow> smp \<Rightarrow> smp \<Rightarrow> bool" for e where
  boot: "bsp_step e s = Some s' \<Longrightarrow> smp_step e s s'"
| core: "hart_step e h s = Some s' \<Longrightarrow> smp_step e s s'"

inductive smp_steps :: "smp_env \<Rightarrow> smp \<Rightarrow> smp \<Rightarrow> bool" for e where
  refl: "smp_steps e s s"
| step: "smp_steps e s t \<Longrightarrow> smp_step e t u \<Longrightarrow> smp_steps e s u"

inductive_cases smp_stepE: "smp_step e s s'"

text \<open>Before \<open>smp_init\<close>: every hart is parked and \<open>CORE_INIT\<close> is as its initialiser has it.\<close>

definition smp_start :: "machine \<Rightarrow> list_node list \<Rightarrow> usize list \<Rightarrow> smp" where
  "smp_start m heap cpus =
     \<lparr>sm_mach = m, sm_heap = heap, sm_init = \<lparr>ci_sp = 0, ci_satp = 0, ci_claimed = False\<rparr>, sm_cpus = cpus,
      sm_bsp = At_loop, sm_harts = (\<lambda>_. Parked), sm_given = (\<lambda>_. None)\<rparr>"

section \<open>Which values a core starts with\<close>

text \<open>A hart that has yet to read \<open>CORE_INIT\<close>, and one that has.\<close>

fun reading :: "hart_pc \<Rightarrow> bool" where
  "reading Entered = True"
| "reading (Has_satp _) = True"
| "reading _ = False"

fun started_with :: "hart_pc \<Rightarrow> (u64 \<times> u64) option" where
  "started_with (Setup c) = Some (c_satp c, c_sp c)"
| "started_with (Traps c) = Some (c_satp c, c_sp c)"
| "started_with (Report c) = Some (c_satp c, c_sp c)"
| "started_with (Running c) = Some (c_satp c, c_sp c)"
| "started_with _ = None"

text \<open>The core the boot processor is preparing.\<close>

fun preparing :: "bsp_pc \<Rightarrow> usize option" where
  "preparing (Store_satp h _) = Some h"
| "preparing (Claim_stack h) = Some h"
| "preparing (Store_sp h _) = Some h"
| "preparing (Start_core h) = Some h"
| "preparing _ = None"

definition cores_left :: "smp_env \<Rightarrow> smp \<Rightarrow> nat" where
  "cores_left e s = length (filter (\<lambda>h. h \<noteq> bsp_hart e) (sm_cpus s)) + (if preparing (sm_bsp s) = None then 0 else 1)"

definition given_inv :: "smp_env \<Rightarrow> smp \<Rightarrow> bool" where
  "given_inv e s \<longleftrightarrow>
     distinct (sm_cpus s) \<and> (\<forall>h \<in> set (sm_cpus s). sm_given s h = None)
     \<and> (\<forall>h. preparing (sm_bsp s) = Some h \<longrightarrow> sm_given s h = None \<and> h \<notin> set (sm_cpus s))
     \<and> (\<forall>h. sm_harts s h \<noteq> Parked \<longrightarrow> sm_given s h \<noteq> None)
     \<and> cores_left e s \<le> 2 \<and> ((\<exists>h. sm_given s h \<noteq> None) \<longrightarrow> cores_left e s \<le> 1)
     \<and> ((\<exists>h. sm_given s h \<noteq> None) \<longrightarrow> sm_bsp s \<noteq> Await_claim \<longrightarrow> sm_bsp s \<noteq> Bsp_dead \<longrightarrow> ci_claimed (sm_init s))
     \<and> ((\<forall>h. sm_given s h = None) \<longrightarrow> \<not> ci_claimed (sm_init s))
     \<and> (\<not> ci_claimed (sm_init s) \<longrightarrow> (\<forall>h h'. sm_harts s h \<noteq> Parked \<longrightarrow> sm_harts s h' \<noteq> Parked \<longrightarrow> h = h'))
     \<and> (\<forall>h. reading (sm_harts s h) \<longrightarrow>
          sm_given s h = Some (ci_satp (sm_init s), ci_sp (sm_init s)) \<and> preparing (sm_bsp s) = None
          \<and> (sm_bsp s = Await_claim \<and> \<not> ci_claimed (sm_init s) \<or> cores_left e s = 0))
     \<and> (\<forall>h w. sm_harts s h = Has_satp w \<longrightarrow> w = ci_satp (sm_init s))
     \<and> (\<forall>h v. started_with (sm_harts s h) = Some v \<longrightarrow> sm_given s h = Some v)
     \<and> (sm_bsp s = Claim_again \<longrightarrow> ci_claimed (sm_init s))"

lemma given_invD:
  assumes "given_inv e s"
  shows given_distinct: "distinct (sm_cpus s)"
    and given_left: "\<forall>h \<in> set (sm_cpus s). sm_given s h = None"
    and given_preparing: "\<forall>h. preparing (sm_bsp s) = Some h \<longrightarrow> sm_given s h = None \<and> h \<notin> set (sm_cpus s)"
    and given_parked: "\<forall>h. sm_harts s h \<noteq> Parked \<longrightarrow> sm_given s h \<noteq> None"
    and given_two: "cores_left e s \<le> 2"
    and given_second: "(\<exists>h. sm_given s h \<noteq> None) \<longrightarrow> cores_left e s \<le> 1"
    and given_none: "(\<forall>h. sm_given s h = None) \<longrightarrow> \<not> ci_claimed (sm_init s)"
    and given_claimed: "(\<exists>h. sm_given s h \<noteq> None) \<longrightarrow> sm_bsp s \<noteq> Await_claim \<longrightarrow> sm_bsp s \<noteq> Bsp_dead \<longrightarrow> ci_claimed (sm_init s)"
    and given_one: "\<not> ci_claimed (sm_init s) \<longrightarrow> (\<forall>h h'. sm_harts s h \<noteq> Parked \<longrightarrow> sm_harts s h' \<noteq> Parked \<longrightarrow> h = h')"
    and given_reading: "\<forall>h. reading (sm_harts s h) \<longrightarrow>
          sm_given s h = Some (ci_satp (sm_init s), ci_sp (sm_init s)) \<and> preparing (sm_bsp s) = None
          \<and> (sm_bsp s = Await_claim \<and> \<not> ci_claimed (sm_init s) \<or> cores_left e s = 0)"
    and given_satp: "\<forall>h w. sm_harts s h = Has_satp w \<longrightarrow> w = ci_satp (sm_init s)"
    and given_started: "\<forall>h v. started_with (sm_harts s h) = Some v \<longrightarrow> sm_given s h = Some v"
    and given_again: "sm_bsp s = Claim_again \<longrightarrow> ci_claimed (sm_init s)"
  using assms unfolding given_inv_def by - (elim conjE, assumption)+

lemma started_not_reading: "started_with pc = Some v \<Longrightarrow> \<not> reading pc \<and> pc \<noteq> Parked"
  by (cases pc) simp_all

lemma init_keeps_core:
  "init_tls a b c m = ok (c', m') \<Longrightarrow> c_satp c' = c_satp c \<and> c_sp c' = c_sp c"
  "traps_init heap c m = ok (heap', c', m') \<Longrightarrow> c_satp c' = c_satp c \<and> c_sp c' = c_sp c"
  by (auto simp: init_tls_def traps_init_def rbind_eq_ok Let_def sie_csrw_def sstatus_csrw_def)

lemma given_inv_loop:
  assumes inv: "given_inv e s" and b: "sm_bsp s = At_loop" "bsp_step e s = Some s'"
  shows "given_inv e s'"
proof (cases "sm_cpus s")
  case Nil
  then show ?thesis using assms by (auto simp: bsp_step_def given_inv_def cores_left_def)
next
  case (Cons h hs)
  show ?thesis
  proof (cases "h = bsp_hart e")
    case True
    then have "s' = s\<lparr>sm_cpus := hs\<rparr>" using b Cons by (simp add: bsp_step_def)
    then show ?thesis using inv b(1) Cons True by (auto simp: given_inv_def cores_left_def)
  next
    case False
    have none: "\<not> reading (sm_harts s x)" for x
      using inv b(1) Cons False by (auto simp: given_inv_def cores_left_def)
    consider t m where "s' = s\<lparr>sm_mach := m, sm_cpus := hs, sm_bsp := Store_satp h (core_satp m t)\<rparr>"
      | "s' = s\<lparr>sm_bsp := Bsp_dead\<rparr>"
      using b Cons False by (auto simp: bsp_step_def split: option.splits sum.splits)
    then show ?thesis
    proof cases
      case 1
      then show ?thesis using inv b(1) Cons False none
        by (auto simp: given_inv_def cores_left_def started_not_reading)
    next
      case 2
      then show ?thesis using inv b(1) Cons False none by (auto simp: given_inv_def cores_left_def)
    qed
  qed
qed

lemma given_inv_quiet:
  assumes inv: "given_inv e s" and p: "preparing (sm_bsp s) = Some h"
  shows "\<not> reading (sm_harts s x)" "sm_harts s x \<noteq> Has_satp w"
proof -
  show r: "\<not> reading (sm_harts s x)" using inv p by (auto simp: given_inv_def)
  then show "sm_harts s x \<noteq> Has_satp w" by auto
qed

lemma given_inv_store:
  assumes inv: "given_inv e s" and p: "preparing (sm_bsp s) = Some h" and b: "preparing b = Some h \<or> b = Bsp_dead"
    and i: "ci_claimed i = ci_claimed (sm_init s)"
  shows "given_inv e (s\<lparr>sm_mach := m, sm_init := i, sm_bsp := b\<rparr>)"
proof -
  let ?s = "s\<lparr>sm_mach := m, sm_init := i, sm_bsp := b\<rparr>"
  have left: "cores_left e ?s \<le> cores_left e s" using p by (auto simp: cores_left_def)
  have f: "sm_given ?s = sm_given s" "sm_cpus ?s = sm_cpus s" "sm_harts ?s = sm_harts s" "sm_bsp ?s = b"
    "ci_claimed (sm_init ?s) = ci_claimed (sm_init s)" using i by simp_all
  have at: "sm_bsp s \<noteq> Await_claim" "sm_bsp s \<noteq> Bsp_dead" using p by auto
  note quiet = given_inv_quiet [OF inv p]
  show ?thesis unfolding given_inv_def f
  proof (intro conjI)
    show "\<forall>x. preparing b = Some x \<longrightarrow> sm_given s x = None \<and> x \<notin> set (sm_cpus s)"
      using b p given_preparing [OF inv] by auto
    show "cores_left e ?s \<le> 2" using left given_two [OF inv] by simp
    show "(\<exists>x. sm_given s x \<noteq> None) \<longrightarrow> cores_left e ?s \<le> 1" using left given_second [OF inv] le_trans by blast
    show "(\<exists>x. sm_given s x \<noteq> None) \<longrightarrow> b \<noteq> Await_claim \<longrightarrow> b \<noteq> Bsp_dead \<longrightarrow> ci_claimed (sm_init s)"
      using given_claimed [OF inv] at by blast
    show "b = Claim_again \<longrightarrow> ci_claimed (sm_init s)" using b by auto
    show "\<forall>x. reading (sm_harts s x) \<longrightarrow> sm_given s x = Some (ci_satp (sm_init ?s), ci_sp (sm_init ?s))
        \<and> preparing b = None \<and> (b = Await_claim \<and> \<not> ci_claimed (sm_init s) \<or> cores_left e ?s = 0)"
      "\<forall>x w. sm_harts s x = Has_satp w \<longrightarrow> w = ci_satp (sm_init ?s)"
      using quiet by blast+
  qed (intro given_invD [OF inv])+
qed

lemma given_inv_prepare:
  assumes inv: "given_inv e s" and p: "preparing (sm_bsp s) = Some h" and b: "bsp_step e s = Some s'"
  shows "given_inv e s'"
proof (cases "sm_bsp s")
  case (Start_core x)
  then have x: "x = h" using p by simp
  have par: "sm_harts s h = Parked" using inv p by (auto simp: given_inv_def)
  let ?v = "(ci_satp (sm_init s), ci_sp (sm_init s))"
  have s': "s' = s\<lparr>sm_harts := (sm_harts s)(h := Entered), sm_given := (sm_given s)(h \<mapsto> ?v), sm_bsp := Await_claim\<rparr>"
    using b Start_core x par by (simp add: bsp_step_def)
  have left: "cores_left e s' + 1 = cores_left e s" using Start_core s' by (simp add: cores_left_def)
  note quiet = given_inv_quiet [OF inv p]
  have f: "sm_cpus s' = sm_cpus s" "sm_init s' = sm_init s" "sm_bsp s' = Await_claim" unfolding s' by simp_all
  have g: "sm_given s' y = (if y = h then Some ?v else sm_given s y)" "sm_harts s' y = (if y = h then Entered else sm_harts s y)" for y
    unfolding s' by simp_all
  have claimed: "cores_left e s \<le> 1" if "ci_claimed (sm_init s)" using inv that unfolding given_inv_def by blast
  have parked: "sm_harts s y = Parked" if "\<not> ci_claimed (sm_init s)" for y
  proof -
    have "sm_bsp s \<noteq> Await_claim" "sm_bsp s \<noteq> Bsp_dead" using Start_core by simp_all
    with inv that have "\<not> (\<exists>h. sm_given s h \<noteq> None)" unfolding given_inv_def by blast
    with inv show ?thesis unfolding given_inv_def by blast
  qed
  show ?thesis unfolding given_inv_def
  proof (intro conjI)
    show "distinct (sm_cpus s')" "\<forall>y. preparing (sm_bsp s') = Some y \<longrightarrow> sm_given s' y = None \<and> y \<notin> set (sm_cpus s')"
      "(\<exists>y. sm_given s' y \<noteq> None) \<longrightarrow> sm_bsp s' \<noteq> Await_claim \<longrightarrow> sm_bsp s' \<noteq> Bsp_dead \<longrightarrow> ci_claimed (sm_init s')"
      using inv by (simp_all add: f given_inv_def)
    show "\<forall>y \<in> set (sm_cpus s'). sm_given s' y = None" using inv p by (auto simp: f g given_inv_def)
    show "\<forall>y. sm_harts s' y \<noteq> Parked \<longrightarrow> sm_given s' y \<noteq> None" using inv by (simp add: g given_inv_def)
    have "cores_left e s \<le> 2" using inv by (simp add: given_inv_def)
    then show "cores_left e s' \<le> 2" "(\<exists>y. sm_given s' y \<noteq> None) \<longrightarrow> cores_left e s' \<le> 1" using left by simp_all
    show "(\<forall>y. sm_given s' y = None) \<longrightarrow> \<not> ci_claimed (sm_init s')" by (simp add: g) (metis option.distinct(1))
    show "\<not> ci_claimed (sm_init s') \<longrightarrow> (\<forall>y z. sm_harts s' y \<noteq> Parked \<longrightarrow> sm_harts s' z \<noteq> Parked \<longrightarrow> y = z)"
      using parked by (simp add: f g)
    show "\<forall>y. reading (sm_harts s' y) \<longrightarrow> sm_given s' y = Some (ci_satp (sm_init s'), ci_sp (sm_init s'))
        \<and> preparing (sm_bsp s') = None \<and> (sm_bsp s' = Await_claim \<and> \<not> ci_claimed (sm_init s') \<or> cores_left e s' = 0)"
      using quiet(1) claimed left by (simp add: f g) linarith
    show "\<forall>y w. sm_harts s' y = Has_satp w \<longrightarrow> w = ci_satp (sm_init s')" using quiet(2) by (simp add: g)
    show "\<forall>y v. started_with (sm_harts s' y) = Some v \<longrightarrow> sm_given s' y = Some v" using inv by (simp add: g given_inv_def)
    show "sm_bsp s' = Claim_again \<longrightarrow> ci_claimed (sm_init s')" by (simp add: f)
  qed
next
  case (Store_satp x w)
  then show ?thesis using given_inv_store [OF inv p, of "Claim_stack x" "(sm_init s)\<lparr>ci_satp := w\<rparr>" "sm_mach s"] b p
    by (simp add: bsp_step_def)
next
  case (Claim_stack x)
  have "s' = s\<lparr>sm_mach := sm_mach s, sm_init := sm_init s, sm_bsp := Bsp_dead\<rparr>
      \<or> (\<exists>m w. s' = s\<lparr>sm_mach := m, sm_init := sm_init s, sm_bsp := Store_sp h w\<rparr>)"
    using b p Claim_stack by (auto simp: bsp_step_def split: option.splits sum.splits)
  then have "\<exists>b' m. s' = s\<lparr>sm_mach := m, sm_init := sm_init s, sm_bsp := b'\<rparr> \<and> (preparing b' = Some h \<or> b' = Bsp_dead)"
    using preparing.simps(3) by blast
  then show ?thesis using given_inv_store [OF inv p] by blast
next
  case (Store_sp x w)
  then show ?thesis using given_inv_store [OF inv p, of "Start_core x" "(sm_init s)\<lparr>ci_sp := w\<rparr>" "sm_mach s"] b p
    by (simp add: bsp_step_def)
qed (use p in simp_all)

lemma given_inv_bsp:
  assumes "given_inv e s" "bsp_step e s = Some s'"
  shows "given_inv e s'"
proof (cases "preparing (sm_bsp s)")
  case (Some h)
  then show ?thesis using assms given_inv_prepare by blast
next
  case None
  show ?thesis
  proof (cases "sm_bsp s")
    case At_loop
    then show ?thesis using assms given_inv_loop by blast
  next
    case Await_claim
    then have "ci_claimed (sm_init s)" "s' = s\<lparr>sm_bsp := Claim_again\<rparr>" using assms(2) by (auto simp: bsp_step_def split: if_splits)
    then show ?thesis using assms(1) Await_claim by (simp add: given_inv_def cores_left_def)
  next
    case Claim_again
    then have "s' = s\<lparr>sm_init := (sm_init s)\<lparr>ci_claimed := True\<rparr>, sm_bsp := At_loop\<rparr>" using assms(2) by (simp add: bsp_step_def)
    moreover have "ci_claimed (sm_init s)" using assms(1) Claim_again by (simp add: given_inv_def)
    ultimately show ?thesis using assms(1) Claim_again by (simp add: given_inv_def cores_left_def)
  qed (use None assms(2) in \<open>simp_all add: bsp_step_def\<close>)
qed

lemma given_inv_memory [simp]:
  "given_inv e (s\<lparr>sm_mach := m\<rparr>) = given_inv e s" "given_inv e (s\<lparr>sm_heap := heap\<rparr>) = given_inv e s"
  by (simp_all add: given_inv_def cores_left_def)

text \<open>A hart moves on and does not touch \<open>CORE_INIT\<close>.\<close>

lemma given_inv_move:
  assumes inv: "given_inv e s" and h: "sm_harts s h \<noteq> Parked" "pc \<noteq> Parked"
    and r: "reading pc \<Longrightarrow> reading (sm_harts s h)" "\<And>w. pc = Has_satp w \<Longrightarrow> w = ci_satp (sm_init s)"
    and v: "\<And>v. started_with pc = Some v \<Longrightarrow> sm_given s h = Some v"
  shows "given_inv e (hart_goes h pc s)"
proof -
  let ?s = "hart_goes h pc s"
  have f: "sm_given ?s = sm_given s" "sm_cpus ?s = sm_cpus s" "sm_bsp ?s = sm_bsp s" "sm_init ?s = sm_init s"
    "cores_left e ?s = cores_left e s" by (simp_all add: hart_goes_def cores_left_def)
  have p: "sm_harts ?s x = Parked \<longleftrightarrow> sm_harts s x = Parked" for x using h by (simp add: hart_goes_def)
  have 1: "reading (sm_harts s x)" if "reading (sm_harts ?s x)" for x
    using that r(1) by (cases "x = h") (simp_all add: hart_goes_def)
  have 2: "w = ci_satp (sm_init s)" if "sm_harts ?s x = Has_satp w" for x w
    using that r(2) inv by (cases "x = h") (auto simp: hart_goes_def given_inv_def)
  have 3: "sm_given s x = Some u" if "started_with (sm_harts ?s x) = Some u" for x u
  proof (cases "x = h")
    case False
    then have "started_with (sm_harts s x) = Some u" using that by (simp add: hart_goes_def)
    then show ?thesis using given_started [OF inv] by blast
  qed (use that v in \<open>simp add: hart_goes_def\<close>)
  have 4: "\<forall>x. reading (sm_harts ?s x) \<longrightarrow>
        sm_given s x = Some (ci_satp (sm_init s), ci_sp (sm_init s)) \<and> preparing (sm_bsp s) = None
        \<and> (sm_bsp s = Await_claim \<and> \<not> ci_claimed (sm_init s) \<or> cores_left e s = 0)"
    by (intro allI impI, drule 1, rule given_reading [OF inv, rule_format])
  have 5: "\<forall>x w. sm_harts ?s x = Has_satp w \<longrightarrow> w = ci_satp (sm_init s)"
    "\<forall>x u. started_with (sm_harts ?s x) = Some u \<longrightarrow> sm_given s x = Some u"
    by (intro allI impI, erule 2, intro allI impI, erule 3)
  show ?thesis unfolding given_inv_def f p by (intro conjI 4 5 given_invD [OF inv])
qed

lemma given_inv_hart:
  assumes inv: "given_inv e s" and b: "hart_step e h s = Some s'"
  shows "given_inv e s'"
proof (cases "sm_harts s h")
  case (Report c)
  then have s': "s' = hart_goes h (Running c) (s\<lparr>sm_init := (sm_init s)\<lparr>ci_claimed := True\<rparr>\<rparr>)" using b by (simp add: hart_step_def)
  have g: "sm_given s h = Some (c_satp c, c_sp c)" using inv Report by (auto simp: given_inv_def)
  then have some: "\<exists>x a b. sm_given s x = Some (a, b)" by blast
  have quiet: "cores_left e s = 0" if "reading (sm_harts s x)" for x
  proof (rule ccontr)
    assume "cores_left e s \<noteq> 0"
    with that inv have "\<not> ci_claimed (sm_init s)" by (auto simp: given_inv_def)
    moreover have "sm_harts s x \<noteq> Parked" "sm_harts s h \<noteq> Parked" using that Report by auto
    ultimately have "x = h" using inv by (auto simp: given_inv_def)
    with that Report show False by simp
  qed
  have "given_inv e (s\<lparr>sm_init := (sm_init s)\<lparr>ci_claimed := True\<rparr>\<rparr>)"
    using inv some quiet by (auto simp: given_inv_def cores_left_def)
  then show ?thesis unfolding s' by (rule given_inv_move) (use Report g in simp_all)
next
  case (Setup c)
  have g: "sm_given s h = Some (c_satp c, c_sp c)" using inv Setup by (auto simp: given_inv_def)
  consider c' m where "s' = hart_goes h (Traps c') (s\<lparr>sm_mach := m\<rparr>)" "c_satp c' = c_satp c" "c_sp c' = c_sp c"
    | "s' = hart_goes h Hart_dead s"
    using b Setup by (auto simp: hart_step_def dest: init_keeps_core(1) split: option.splits sum.splits)
  then show ?thesis by cases (use inv Setup g in \<open>auto intro!: given_inv_move\<close>)
next
  case (Traps c)
  have g: "sm_given s h = Some (c_satp c, c_sp c)" using inv Traps by (auto simp: given_inv_def)
  consider c' m heap where "s' = hart_goes h (Report c') (s\<lparr>sm_mach := m, sm_heap := heap\<rparr>)" "c_satp c' = c_satp c" "c_sp c' = c_sp c"
    | "s' = hart_goes h Hart_dead s"
    using b Traps by (auto simp: hart_step_def dest: init_keeps_core(2) split: option.splits sum.splits)
  then show ?thesis by cases (use inv Traps g in \<open>auto intro!: given_inv_move\<close>)
next
  case Entered
  then have "s' = hart_goes h (Has_satp (ci_satp (sm_init s))) s" using b by (simp add: hart_step_def)
  then show ?thesis using inv Entered by (auto intro!: given_inv_move)
next
  case (Has_satp w)
  then have "s' = hart_goes h (Setup ((reset_core e)\<lparr>c_satp := w, c_sp := ci_sp (sm_init s), c_gp := global_pointer e\<rparr>)) s"
    using b by (simp add: hart_step_def)
  moreover have "reading (sm_harts s h)" using Has_satp by simp
  then have "sm_given s h = Some (ci_satp (sm_init s), ci_sp (sm_init s))" "w = ci_satp (sm_init s)"
    using Has_satp inv by (simp_all add: given_inv_def)
  ultimately show ?thesis using inv Has_satp by (auto intro!: given_inv_move)
qed (use b in \<open>simp_all add: hart_step_def\<close>)

lemma given_inv_steps: "smp_steps e s s' \<Longrightarrow> given_inv e s \<Longrightarrow> given_inv e s'"
  by (induction rule: smp_steps.induct) (auto elim!: smp_stepE dest: given_inv_bsp given_inv_hart)

end
