(* ===== verification/Table_Copy.thy ===== *)
theory Table_Copy
  imports Translation
begin

text \<open>
  What \<open>clone_table_range\<close> and \<open>new_with_upperhalf\<close> of LSD/src/memory/vmm.rs make: a copy of the table
  tree in tables of its own. \<open>copy_of s T p R t U y\<close> says that in \<open>t\<close> the page \<open>y\<close> is the root of a tree
  \<open>U\<close> with the same entries as the table of path \<open>p\<close> has in \<open>s\<close>, for the indices \<open>R\<close> of the root and
  every index below it.
\<close>

section \<open>Copies\<close>

definition copied :: "machine \<Rightarrow> u64 option \<Rightarrow> u64 option \<Rightarrow> u64 option \<Rightarrow> bool" where
  "copied t below old new =
     (case new of None \<Rightarrow> False
      | Some e \<Rightarrow> (case below of Some z \<Rightarrow> is_branch e \<and> entry_table t e = z | None \<Rightarrow> old = Some e))"

definition copy_of ::
  "machine \<Rightarrow> (nat list \<rightharpoonup> u64) \<Rightarrow> nat list \<Rightarrow> nat set \<Rightarrow> machine \<Rightarrow> (nat list \<rightharpoonup> u64) \<Rightarrow> u64 \<Rightarrow> bool" where
  "copy_of s T p R t U y \<longleftrightarrow>
     U [] = Some y
     \<and> (\<forall>j q. U (j # q) \<noteq> None \<longleftrightarrow> j \<in> R \<and> set (j # q) \<subseteq> {..<512} \<and> T (p @ j # q) \<noteq> None)
     \<and> (\<forall>q q' z. U q = Some z \<longrightarrow> U q' = Some z \<longrightarrow> q = q')
     \<and> (\<forall>q z j. U q = Some z \<longrightarrow> j < 512 \<longrightarrow> (q = [] \<longrightarrow> j \<in> R) \<longrightarrow>
          copied t (U (q @ [j])) (mem s (slot (the (T (p @ q))) j)) (mem t (slot z j)))"

text \<open>The tables below the entries \<open>js\<close> of a table \<open>d\<close> levels above the pages: the frames a copy takes.\<close>

fun tables_in :: "nat \<Rightarrow> (nat list \<rightharpoonup> u64) \<Rightarrow> nat list \<Rightarrow> nat list \<Rightarrow> nat" where
  "tables_in 0 T p js = 0"
| "tables_in (Suc d) T p js =
     (\<Sum>j\<leftarrow>js. if T (p @ [j]) = None then 0 else Suc (tables_in d T (p @ [j]) [0..<512]))"

lemma tables_in_Cons:
  "tables_in (Suc d) T p (j # js) =
     (if T (p @ [j]) = None then 0 else Suc (tables_in d T (p @ [j]) [0..<512])) + tables_in (Suc d) T p js"
  by simp

lemma copied_cong: "hhdm t' = hhdm t \<Longrightarrow> copied t' b old new = copied t b old new"
  by (simp add: copied_def entry_table_def split: option.splits)

section \<open>The new branch\<close>

lemma is_branch_set_ppn: "is_branch (pte_set_ppn n e) = is_branch e"
  by (simp add: is_branch_def pte_defs pte_set_ppn_def bit_bf_set)

lemma entry_table_set_ppn:
  assumes "frame_ok s x" "page_aligned (hhdm s)" "hhdm t = hhdm s"
  shows "entry_table t (pte_set_ppn (drop_bit 12 (x - hhdm s)) e) = x"
proof -
  have d: "page_aligned (x - hhdm s)" "x - hhdm s < 2 ^ 56"
    using assms by (auto simp: frame_ok_def intro: page_aligned_diff)
  have "pte_get_ppn (pte_set_ppn (drop_bit 12 (x - hhdm s)) e) = take_bit 44 (drop_bit 12 (x - hhdm s))"
    using pte_ppn.get_set [of "drop_bit 12 (x - hhdm s)" e]
    by (simp add: pte_get_ppn_def pte_set_ppn_def)
  then show ?thesis using ppn_of_frame [OF d] assms(3) by (simp add: entry_table_def)
qed

section \<open>One iteration\<close>

lemma clone_done: "\<not> i < e \<Longrightarrow> clone_table_range s x y i e = ok s"
  by (subst clone_table_range.simps) simp

lemma clone_flat:
  assumes "i < e" "mem s (slot x i) = Some v" "\<not> is_branch v" "v = 0 \<or> is_leaf v" "mem s (slot y i) \<noteq> None"
  shows "clone_table_range s x y i e =
    clone_table_range (s\<lparr>mem := (mem s)(slot y i \<mapsto> v)\<rparr>) x y (i + 1) e"
  by (subst clone_table_range.simps) (use assms in \<open>auto simp: wr_def\<close>)

lemma clone_branch:
  assumes "i < e" "mem s (slot x i) = Some v" "is_branch v" "mem s (slot y i) \<noteq> None" "slot x i \<noteq> slot y i"
    and "fl_claim (s\<lparr>mem := (mem s)(slot y i \<mapsto> v)\<rparr>) = ok (w, u)" "mem u (slot y i) = Some v" "mem u (slot x i) = Some v"
    and "hhdm u = hhdm s"
  shows "clone_table_range s x y i e =
    rbind (clone_table_range (u\<lparr>mem := (mem u)(slot y i \<mapsto> pte_set_ppn (drop_bit 12 (w - hhdm s)) v)\<rparr>)
             (entry_table s v) w 0 512) (\<lambda>t. clone_table_range t x y (i + 1) e)"
  by (subst clone_table_range.simps)
    (use assms in \<open>auto simp: wr_def entry_table_def\<close>)

section \<open>Putting copies together\<close>

definition same_tables :: "(nat list \<rightharpoonup> u64) \<Rightarrow> machine \<Rightarrow> machine \<Rightarrow> bool" where
  "same_tables T s t \<longleftrightarrow> (\<forall>z \<in> ran T. \<forall>j < 512. mem t (slot z j) = mem s (slot z j))"

lemma same_tables_trans: "same_tables T s t \<Longrightarrow> same_tables T t u \<Longrightarrow> same_tables T s u"
  by (simp add: same_tables_def)

lemma same_tablesD: "same_tables T s t \<Longrightarrow> T q = Some z \<Longrightarrow> j < 512 \<Longrightarrow> mem t (slot z j) = mem s (slot z j)"
  by (auto simp: same_tables_def ran_def)

lemma same_tables_elsewhere:
  assumes "pt_inv s L T xs" "changes_only F s t" "\<forall>y \<in> F. page_aligned y \<and> y \<notin> ran T"
  shows "same_tables T s t"
  unfolding same_tables_def
proof (intro ballI allI impI)
  fix z j assume z: "z \<in> ran T" and j: "j < (512 :: nat)"
  then have "page_aligned z" using pt_inv_table [OF assms(1)] by (auto simp: ran_def)
  then show "mem t (slot z j) = mem s (slot z j)"
    using z assms(3) by (intro changes_only_cell [OF assms(2) _ _ _ j]) auto
qed

lemma copy_ofI:
  assumes "U [] = Some y"
    and "\<And>j q. U (j # q) \<noteq> None \<longleftrightarrow> j \<in> R \<and> set (j # q) \<subseteq> {..<512} \<and> T (p @ j # q) \<noteq> None"
    and "\<And>q q' z. U q = Some z \<Longrightarrow> U q' = Some z \<Longrightarrow> q = q'"
    and "\<And>q z j. U q = Some z \<Longrightarrow> j < 512 \<Longrightarrow> (q = [] \<Longrightarrow> j \<in> R) \<Longrightarrow>
      copied t (U (q @ [j])) (mem s (slot (the (T (p @ q))) j)) (mem t (slot z j))"
  shows "copy_of s T p R t U y"
  using assms unfolding copy_of_def by blast

lemma copy_ofD:
  assumes "copy_of s T p R t U y"
  shows "U [] = Some y"
    and "U (j # q) \<noteq> None \<longleftrightarrow> j \<in> R \<and> set (j # q) \<subseteq> {..<512} \<and> T (p @ j # q) \<noteq> None"
    and "U q = Some z \<Longrightarrow> U q' = Some z \<Longrightarrow> q = q'"
    and "U q = Some z \<Longrightarrow> k < 512 \<Longrightarrow> (q = [] \<Longrightarrow> k \<in> R) \<Longrightarrow>
      copied t (U (q @ [k])) (mem s (slot (the (T (p @ q))) k)) (mem t (slot z k))"
  using assms unfolding copy_of_def by blast+

lemma copy_source:
  assumes "copy_of s T p R t U y" "T p = Some x" "U q = Some z"
  shows "T (p @ q) = Some (the (T (p @ q)))"
proof (cases q)
  case (Cons j q')
  then have "T (p @ q) \<noteq> None" using copy_ofD(2) [OF assms(1), of j q'] assms(3) by simp
  then show ?thesis by auto
qed (use assms(2) in simp)

text \<open>The first index of the range holds no table.\<close>

lemma copy_flat:
  assumes U: "copy_of u T p {Suc i..<e} t U y" and none: "\<And>q. T (p @ i # q) = None"
    and same: "same_tables T s u" and x: "T p = Some x" "mem s (slot x i) = Some v" "mem t (slot y i) = Some v"
    and i: "i < e"
  shows "copy_of s T p {i..<e} t U y"
proof (rule copy_ofI)
  have Ui: "U (i # q) = None" for q using copy_ofD(2) [OF U, of i q] by simp
  show "U [] = Some y" by (rule copy_ofD(1) [OF U])
  show "U (j # q) \<noteq> None \<longleftrightarrow> j \<in> {i..<e} \<and> set (j # q) \<subseteq> {..<512} \<and> T (p @ j # q) \<noteq> None" for j q
    using copy_ofD(2) [OF U, of j q] none [of q] Ui [of q] by (cases "j = i") auto
  show "q = q'" if "U q = Some z" "U q' = Some z" for q q' z using copy_ofD(3) [OF U that] .
  show "copied t (U (q @ [j])) (mem s (slot (the (T (p @ q))) j)) (mem t (slot z j))"
    if q: "U q = Some z" "j < 512" "q = [] \<Longrightarrow> j \<in> {i..<e}" for q z j
  proof (cases "q = [] \<and> j = i")
    case True
    then show ?thesis using x q(1) copy_ofD(1) [OF U] Ui [of "[]"] by (simp add: copied_def)
  next
    case False
    then have "q = [] \<Longrightarrow> j \<in> {Suc i..<e}" using q(3) by auto
    from copy_ofD(4) [OF U q(1,2) this] show ?thesis
      using same_tablesD [OF same copy_source [OF U x(1) q(1)] q(2)] by simp
  qed
qed

text \<open>The first index of the range holds a table, of which \<open>U1\<close> is a copy.\<close>

definition join :: "nat \<Rightarrow> (nat list \<rightharpoonup> u64) \<Rightarrow> (nat list \<rightharpoonup> u64) \<Rightarrow> nat list \<rightharpoonup> u64" where
  "join i U1 U2 q = (case q of [] \<Rightarrow> U2 [] | j # q' \<Rightarrow> if j = i then U1 q' else U2 q)"

lemma join_simps [simp]:
  "join i U1 U2 [] = U2 []" "join i U1 U2 (i # q) = U1 q" "j \<noteq> i \<Longrightarrow> join i U1 U2 (j # q) = U2 (j # q)"
  by (simp_all add: join_def)

lemma join_cases:
  assumes "join i U1 U2 q = Some z"
  obtains q' where "q = i # q'" "U1 q' = Some z" | "U2 q = Some z" "\<And>q'. q \<noteq> i # q'"
proof (cases q)
  case Nil
  with assms that(2) show ?thesis by simp
next
  case (Cons j q')
  with assms that show ?thesis by (cases "j = i") auto
qed

lemma ran_join: "ran (join i U1 U2) \<subseteq> ran U1 \<union> ran U2"
proof
  fix z assume "z \<in> ran (join i U1 U2)"
  then obtain q where "join i U1 U2 q = Some z" by (auto simp: ran_def)
  then show "z \<in> ran U1 \<union> ran U2" by (cases rule: join_cases) (auto intro: ranI)
qed

lemma copy_join:
  assumes U1: "copy_of u T (p @ [i]) {0..<512} v U1 w" and U2: "copy_of v' T p {Suc i..<e} t U2 y"
    and same: "same_tables T s u" "same_tables T s v'"
    and kept: "\<And>q z j. U1 q = Some z \<Longrightarrow> j < 512 \<Longrightarrow> mem t (slot z j) = mem v (slot z j)" "hhdm t = hhdm v"
    and apart: "ran U1 \<inter> ran U2 = {}"
    and x: "T p = Some x" "T (p @ [i]) \<noteq> None" and i: "i < e" "i < 512"
    and b: "mem t (slot y i) = Some b" "is_branch b" "entry_table t b = w"
  shows "copy_of s T p {i..<e} t (join i U1 U2) y"
proof (rule copy_ofI)
  let ?U = "join i U1 U2"
  have U2i: "U2 (i # q) = None" for q using copy_ofD(2) [OF U2, of i q] by simp
  obtain x' where x': "T (p @ [i]) = Some x'" using x(2) by auto
  show "?U [] = Some y" by (simp add: copy_ofD(1) [OF U2])
  show "?U (j # q) \<noteq> None \<longleftrightarrow> j \<in> {i..<e} \<and> set (j # q) \<subseteq> {..<512} \<and> T (p @ j # q) \<noteq> None" for j q
  proof (cases "j = i")
    case True
    show ?thesis
    proof (cases q)
      case Nil
      then show ?thesis using True i x(2) copy_ofD(1) [OF U1] by simp
    next
      case (Cons k q')
      then show ?thesis using True i copy_ofD(2) [OF U1, of k q'] by auto
    qed
  next
    case False
    then show ?thesis using copy_ofD(2) [OF U2, of j q] by auto
  qed
  show "q = q'" if "?U q = Some z" "?U q' = Some z" for q q' z
    using that(1)
  proof (cases rule: join_cases)
    case q: (1 r)
    from that(2) show ?thesis
    proof (cases rule: join_cases)
      case (1 r')
      with q show ?thesis using copy_ofD(3) [OF U1] by blast
    next
      case 2
      with q apart show ?thesis by (auto intro: ranI)
    qed
  next
    case q: 2
    from that(2) show ?thesis
    proof (cases rule: join_cases)
      case (1 r')
      with q apart show ?thesis by (auto intro: ranI)
    next
      case 2
      with q show ?thesis using copy_ofD(3) [OF U2] by blast
    qed
  qed
  show "copied t (?U (q @ [j])) (mem s (slot (the (T (p @ q))) j)) (mem t (slot z j))"
    if q: "?U q = Some z" "j < 512" "q = [] \<Longrightarrow> j \<in> {i..<e}" for q z j
    using q(1)
  proof (cases rule: join_cases)
    case (1 r)
    have "copied v (U1 (r @ [j])) (mem u (slot (the (T (p @ q))) j)) (mem v (slot z j))"
      using copy_ofD(4) [OF U1 1(2) q(2)] 1(1) q(2) by simp
    moreover have "mem u (slot (the (T (p @ q))) j) = mem s (slot (the (T (p @ q))) j)"
      using same_tablesD [OF same(1) copy_source [OF U1 x' 1(2)] q(2)] 1(1) by simp
    ultimately show ?thesis using 1 kept(1) [OF 1(2) q(2)] copied_cong [OF kept(2)] by simp
  next
    case 2
    show ?thesis
    proof (cases "q = [] \<and> j = i")
      case True
      then show ?thesis using 2 b copy_ofD(1) [OF U1] copy_ofD(1) [OF U2] by (simp add: copied_def)
    next
      case False
      then have "q = [] \<Longrightarrow> j \<in> {Suc i..<e}" using q(3) by auto
      moreover have "?U (q @ [j]) = U2 (q @ [j])" using False 2(2) by (cases q) (auto simp: join_def)
      ultimately show ?thesis
        using copy_ofD(4) [OF U2 2(1) q(2)] same_tablesD [OF same(2) copy_source [OF U2 x(1) 2(1)] q(2)] by simp
    qed
  qed
qed

section \<open>The loop\<close>

text \<open>What a call relies on, with \<open>x\<close> the table of path \<open>p\<close>, \<open>d\<close> levels above the pages, and \<open>y\<close> the frame
  to copy to; and what it has done after it took \<open>n\<close> frames.\<close>

definition clone_pre ::
  "machine \<Rightarrow> nat \<Rightarrow> (nat list \<rightharpoonup> u64) \<Rightarrow> u64 list \<Rightarrow> nat list \<Rightarrow> u64 \<Rightarrow> u64 \<Rightarrow> nat \<Rightarrow> bool" where
  "clone_pre s L T xs p x y d \<longleftrightarrow>
     pt_inv s L T xs \<and> fl_inv s xs \<and> T p = Some x \<and> length p + d = L
     \<and> frame_ok s y \<and> y \<notin> set xs \<and> y \<notin> ran T"

definition cloned ::
  "machine \<Rightarrow> (nat list \<rightharpoonup> u64) \<Rightarrow> nat list \<Rightarrow> u64 \<Rightarrow> nat \<Rightarrow> nat \<Rightarrow> nat \<Rightarrow> u64 list \<Rightarrow> machine \<Rightarrow> (nat list \<rightharpoonup> u64) \<Rightarrow> bool"
where
  "cloned s T p y i e n xs t U \<longleftrightarrow>
     fl_inv t (drop n xs) \<and> changes_only (insert y (set xs)) s t
     \<and> copy_of s T p {i..<e} t U y \<and> ran U \<subseteq> insert y (set (take n xs))
     \<and> (\<forall>j < 512. j \<notin> {i..<e} \<longrightarrow> mem t (slot y j) = mem s (slot y j))"

lemma clone_preD:
  assumes "clone_pre s L T xs p x y d"
  shows "pt_inv s L T xs" "fl_inv s xs" "T p = Some x" "frame_ok s y" "y \<notin> set xs" "y \<notin> ran T"
    "frame_ok s x" "x \<notin> set xs" "x \<noteq> y" "length p + d = L"
  using assms pt_inv_table [of s L T xs p x] by (auto simp: clone_pre_def ran_def)

lemma clone_pre_frames:
  assumes "clone_pre s L T xs p x y d" "z \<in> insert y (set xs)"
  shows "page_aligned z \<and> z \<notin> ran T"
proof -
  have "z \<notin> ran T" using assms(2) clone_preD(6) [OF assms(1)] pt_inv_table [OF clone_preD(1) [OF assms(1)]]
    by (auto simp: ran_def)
  then show ?thesis using assms(2) clone_preD(4) [OF assms(1)] fl_inv_frame_ok [OF clone_preD(2) [OF assms(1)]] by auto
qed

lemma clone_pre_change:
  assumes pre: "clone_pre s L T xs p x y d" and ch: "changes_only F s t"
    and F: "\<forall>z \<in> F. page_aligned z \<and> z \<notin> ran T" and fl: "fl_inv t ys" "set ys \<subseteq> set xs"
  shows "clone_pre t L T ys p x y d" "same_tables T s t"
proof -
  have "set ys \<inter> ran T = {}" using clone_pre_frames [OF pre] fl(2) by blast
  from pt_inv_elsewhere(1) [OF clone_preD(1) [OF pre] ch F this] show "clone_pre t L T ys p x y d"
    using pre fl changes_only_frame_ok [OF ch] by (auto simp: clone_pre_def)
  show "same_tables T s t" by (rule same_tables_elsewhere [OF clone_preD(1) [OF pre] ch F])
qed

lemma clone_pre_step:
  assumes pre: "clone_pre s L T xs p x y d" and ch: "changes_only F s t" and F: "F \<subseteq> insert y (set xs)"
    and fl: "fl_inv t ys" "set ys \<subseteq> set xs"
  shows "clone_pre t L T ys p x y d" "same_tables T s t"
  using clone_pre_change [OF pre ch _ fl] clone_pre_frames [OF pre] F by blast+

lemma clone_pre_write:
  assumes pre: "clone_pre s L T xs p x y d" and i: "i < 512"
  shows "clone_pre (s\<lparr>mem := (mem s)(slot y i \<mapsto> v)\<rparr>) L T xs p x y d"
    "same_tables T s (s\<lparr>mem := (mem s)(slot y i \<mapsto> v)\<rparr>)"
    "changes_only {y} s (s\<lparr>mem := (mem s)(slot y i \<mapsto> v)\<rparr>)"
proof -
  show ch: "changes_only {y} s (s\<lparr>mem := (mem s)(slot y i \<mapsto> v)\<rparr>)"
    by (rule changes_only_set_cell [OF clone_preD(4) [OF pre] i])
  have "fl_inv (s\<lparr>mem := (mem s)(slot y i \<mapsto> v)\<rparr>) xs"
    by (rule fl_inv_elsewhere [OF clone_preD(2) [OF pre] ch]) (use clone_preD [OF pre] in auto)
  from clone_pre_step [OF pre ch _ this] show
    "clone_pre (s\<lparr>mem := (mem s)(slot y i \<mapsto> v)\<rparr>) L T xs p x y d"
    "same_tables T s (s\<lparr>mem := (mem s)(slot y i \<mapsto> v)\<rparr>)" by auto
qed

lemma other_slot:
  assumes "page_aligned y" "i < 512" "j < 512" "j \<noteq> i"
  shows "slot y j \<noteq> slot y i"
  using slot_inj [OF assms(1,1,3,2)] assms(4) by simp

lemma clone_flat_step:
  assumes pre: "clone_pre s L T xs p x y d" and i: "i < e" "e \<le> 512" and none: "T (p @ [i]) = None"
    and rest: "\<And>u. clone_pre u L T xs p x y d \<Longrightarrow>
      \<exists>t U. clone_table_range u x y (i + 1) e = ok t \<and> cloned u T p y (Suc i) e n xs t U"
  shows "\<exists>t U. clone_table_range s x y i e = ok t \<and> cloned s T p y i e n xs t U"
proof -
  have i5: "i < 512" using i by simp
  obtain v where v: "mem s (slot x i) = Some v" "entry_ok s None v"
    using pt_inv_entry [OF clone_preD(1,3) [OF pre] i5] none by auto
  then have flat: "v = 0 \<or> is_leaf v" "\<not> is_branch v" using branch_not_leaf by (auto simp: entry_ok_def)
  let ?u = "s\<lparr>mem := (mem s)(slot y i \<mapsto> v)\<rparr>"
  note w = clone_pre_write [OF pre i5, of v]
  from rest [OF w(1)] obtain t U where t: "clone_table_range ?u x y (i + 1) e = ok t" "cloned ?u T p y (Suc i) e n xs t U"
    by blast
  have "mem s (slot y i) \<noteq> None" using frame_ok_mapped [OF clone_preD(4) [OF pre] i5] by auto
  from clone_flat [OF i(1) v(1) flat(2,1) this] t(1) have run: "clone_table_range s x y i e = ok t" by simp
  have nones: "T (p @ i # q) = None" for q
  proof (induction q rule: rev_induct)
    case (snoc k q)
    then show ?case using pt_inv_prefix [OF clone_preD(1) [OF pre], of "p @ i # q" k]
      by (cases "T (p @ i # q @ [k])") auto
  qed (use none in simp)
  have y: "page_aligned y" using clone_preD(4) [OF pre] by simp
  have "mem t (slot y i) = Some v" using t(2) i5 by (simp add: cloned_def)
  from copy_flat [OF _ nones w(2) clone_preD(3) [OF pre] v(1) this i(1)]
  have "copy_of s T p {i..<e} t U y" using t(2) by (simp add: cloned_def)
  moreover have "changes_only (insert y (set xs)) s t"
    using changes_only_mono [OF w(3)] t(2) changes_only_trans unfolding cloned_def by blast
  moreover have "mem t (slot y j) = mem s (slot y j)" if "j < 512" "j \<notin> {i..<e}" for j
    using t(2) that i other_slot [OF y i5, of j] by (auto simp: cloned_def)
  ultimately show ?thesis using run t(2) by (auto simp: cloned_def)
qed

lemma clone_branch_step:
  assumes pre: "clone_pre s L T xs p x y (Suc d)" and i: "i < e" "e \<le> 512" and x': "T (p @ [i]) = Some x'"
    and room: "Suc n1 + n2 < length xs"
    and below: "\<And>u ys w. clone_pre u L T ys (p @ [i]) x' w d \<Longrightarrow> n1 < length ys \<Longrightarrow>
      \<exists>t U. clone_table_range u x' w 0 512 = ok t \<and> cloned u T (p @ [i]) w 0 512 n1 ys t U"
    and rest: "\<And>u ys. clone_pre u L T ys p x y (Suc d) \<Longrightarrow> n2 < length ys \<Longrightarrow>
      \<exists>t U. clone_table_range u x y (i + 1) e = ok t \<and> cloned u T p y (Suc i) e n2 ys t U"
  shows "\<exists>t U. clone_table_range s x y i e = ok t \<and> cloned s T p y i e (Suc n1 + n2) xs t U"
proof -
  note D = clone_preD [OF pre]
  have i5: "i < 512" using i by simp
  obtain w z zs where xs: "xs = w # z # zs" using room by (cases xs; cases "tl xs") auto
  let ?ys = "z # zs"
  obtain v where v: "mem s (slot x i) = Some v" "is_branch v" "entry_table s v = x'"
    using pt_inv_entry [OF D(1,3) i5] x' by (auto simp: entry_ok_def)
  have dist: "distinct xs" using D(2) by (simp add: fl_inv_def)
  have al: "page_aligned y" "page_aligned x" "page_aligned z" "page_aligned (hhdm s)"
    using D(4,7) clone_pre_frames [OF pre, of z] xs pt_inv_levels [OF D(1)] by auto
  \<comment> \<open>the entry is copied, a frame claimed, and the copy pointed to it\<close>
  let ?s1 = "s\<lparr>mem := (mem s)(slot y i \<mapsto> v)\<rparr>"
  note w1 = clone_pre_write [OF pre i5, of v]
  obtain u where u: "fl_claim ?s1 = ok (w, u)" "fl_inv u ?ys" "changes_only {z} ?s1 u"
    using fl_claim_inv [of ?s1 w z zs] clone_preD(2) [OF w1(1)] xs by auto
  have u2: "clone_pre u L T ?ys p x y (Suc d)" "same_tables T ?s1 u"
    using clone_pre_step [OF w1(1) u(3) _ u(2)] xs by auto
  let ?b = "pte_set_ppn (drop_bit 12 (w - hhdm s)) v"
  let ?s3 = "u\<lparr>mem := (mem u)(slot y i \<mapsto> ?b)\<rparr>"
  note w3 = clone_pre_write [OF u2(1) i5, of ?b]
  have same3: "same_tables T s ?s3" using w1(2) u2(2) w3(2) same_tables_trans by blast
  have ch3: "changes_only (insert y (set xs)) s ?s3"
  proof -
    have "changes_only (insert y (set xs)) s ?s1" by (rule changes_only_mono [OF w1(3)]) simp
    moreover have "changes_only (insert y (set xs)) ?s1 u" by (rule changes_only_mono [OF u(3)]) (simp add: xs)
    moreover have "changes_only (insert y (set xs)) u ?s3" by (rule changes_only_mono [OF w3(3)]) simp
    ultimately show ?thesis using changes_only_trans by blast
  qed
  have hh: "hhdm u = hhdm s" using u(3) by (simp add: changes_only_def)
  have yz: "mem u (slot y j) = mem ?s1 (slot y j)" if "j < 512" for j
    using changes_only_cell [OF u(3) al(1) _ _ that] al(3) D(5) xs by auto
  have w: "frame_ok s w" "w \<notin> ran T" "w \<notin> set ?ys"
    using fl_inv_frame_ok [OF D(2)] clone_pre_frames [OF pre, of w] dist by (auto simp: xs)
  have "mem s (slot y i) \<noteq> None" using frame_ok_mapped [OF D(4) i5] by auto
  moreover have "slot x i \<noteq> slot y i" using slot_inj [OF al(2,1) i5 i5] D(9) by simp
  moreover have "mem u (slot y i) = Some v" using yz [OF i5] by simp
  moreover have "mem u (slot x i) = Some v"
    using same_tablesD [OF same_tables_trans [OF w1(2) u2(2)] D(3) i5] v(1) by simp
  ultimately have run: "clone_table_range s x y i e =
      rbind (clone_table_range ?s3 x' w 0 512) (\<lambda>t. clone_table_range t x y (i + 1) e)"
    using clone_branch [OF i(1) v(1,2) _ _ u(1) _ _ hh] v(3) by simp
  \<comment> \<open>the table below\<close>
  have "clone_pre ?s3 L T ?ys (p @ [i]) x' w d"
    using w3(1) x' w D(10) changes_only_frame_ok [OF ch3] unfolding clone_pre_def by auto
  from below [OF this] room xs obtain t1 U1 where
    t1: "clone_table_range ?s3 x' w 0 512 = ok t1" "cloned ?s3 T (p @ [i]) w 0 512 n1 ?ys t1 U1" by auto
  let ?zs = "drop n1 ?ys"
  have ch1: "changes_only (set xs) ?s3 t1" using t1(2) by (simp add: cloned_def xs)
  have F1: "\<forall>f \<in> insert w (set ?ys). page_aligned f \<and> f \<notin> ran T" using clone_pre_frames [OF pre] by (auto simp: xs)
  have "set ?zs \<subseteq> set ?ys" by (rule set_drop_subset)
  with clone_pre_change [OF w3(1) _ F1] t1(2) have t2: "clone_pre t1 L T ?zs p x y (Suc d)" "same_tables T ?s3 t1"
    unfolding cloned_def by blast+
  \<comment> \<open>the entries behind it\<close>
  have "n2 < length ?zs" using room by (simp add: xs)
  from rest [OF t2(1) this] obtain t U2 where
    t: "clone_table_range t1 x y (i + 1) e = ok t" "cloned t1 T p y (Suc i) e n2 ?zs t U2" by blast
  have split: "take (Suc n1 + n2) xs = take (Suc n1) xs @ take n2 ?zs" "drop (Suc n1 + n2) xs = drop n2 ?zs"
    by (simp_all add: xs take_add add.commute)
  have apart: "set (take (Suc n1) xs) \<inter> insert y (set ?zs) = {}"
  proof -
    have "set (take (Suc n1) xs) \<inter> set (drop (Suc n1) xs) = {}" by (rule set_take_disj_set_drop_if_distinct [OF dist]) simp
    moreover have "y \<notin> set (take (Suc n1) xs)" using D(5) in_set_takeD by fastforce
    ultimately show ?thesis by (simp add: xs)
  qed
  have U1: "ran U1 \<subseteq> set (take (Suc n1) xs)" using t1(2) by (simp add: cloned_def xs)
  have U2: "ran U2 \<subseteq> insert y (set (take n2 ?zs))" using t(2) by (simp add: cloned_def)
  have cell1: "mem t1 (slot y j) = mem ?s3 (slot y j)" if "j < 512" for j
  proof (rule changes_only_cell [OF ch1 al(1) _ D(5) that])
    show "\<forall>f \<in> set xs. page_aligned f" using clone_pre_frames [OF pre] by blast
  qed
  have ch2: "changes_only (insert y (set ?zs)) t1 t" using t(2) by (simp add: cloned_def)
  have frames: "\<forall>f \<in> insert y (set ?zs). page_aligned f"
    using clone_pre_frames [OF t2(1)] by blast
  have "copy_of s T p {i..<e} t (join i U1 U2) y"
  proof (rule copy_join [where u = ?s3 and v = t1 and v' = t1 and b = ?b and w = w])
    show "copy_of ?s3 T (p @ [i]) {0..<512} t1 U1 w" using t1(2) by (simp add: cloned_def)
    show "copy_of t1 T p {Suc i..<e} t U2 y" using t(2) by (simp add: cloned_def)
    show "same_tables T s t1" using same3 t2(2) by (rule same_tables_trans)
    show "mem t (slot f j) = mem t1 (slot f j)" if "U1 q = Some f" "j < 512" for q f j
    proof (rule changes_only_cell [OF ch2 _ frames _ that(2)])
      have f: "f \<in> set (take (Suc n1) xs)" using U1 that(1) by (auto intro: ranI)
      then show "f \<notin> insert y (set ?zs)" using apart by blast
      from f have "f \<in> set xs" by (rule in_set_takeD)
      then show "page_aligned f" using clone_pre_frames [OF pre] by blast
    qed
    show "hhdm t = hhdm t1" using ch2 by (simp add: changes_only_def)
    show "ran U1 \<inter> ran U2 = {}" using U1 U2 apart in_set_takeD [of _ n2 ?zs] by blast
    have "mem t (slot y i) = mem t1 (slot y i)" using t(2) i5 by (simp add: cloned_def)
    then show "mem t (slot y i) = Some ?b" using cell1 [OF i5] by simp
    show "is_branch ?b" using v(2) by (simp add: is_branch_set_ppn)
    have "hhdm t = hhdm s" using ch2 ch1 hh by (simp add: changes_only_def)
    then show "entry_table t ?b = w" by (rule entry_table_set_ppn [OF w(1) al(4)])
  qed (use same3 D(3) x' i i5 in auto)
  moreover have "mem t (slot y j) = mem s (slot y j)" if "j < 512" "j \<notin> {i..<e}" for j
    using t(2) cell1 [OF that(1)] yz [OF that(1)] that i other_slot [OF al(1) i5, of j] by (auto simp: cloned_def)
  moreover have "changes_only (insert y (set xs)) s t"
  proof -
    have "changes_only (insert y (set xs)) ?s3 t1" by (rule changes_only_mono [OF ch1]) blast
    moreover have "set ?zs \<subseteq> set xs" using set_drop_subset [of n1 ?ys] by (auto simp: xs)
    then have "changes_only (insert y (set xs)) t1 t" by (intro changes_only_mono [OF ch2]) blast
    ultimately show ?thesis using ch3 changes_only_trans by blast
  qed
  moreover have "ran (join i U1 U2) \<subseteq> insert y (set (take (Suc n1 + n2) xs))"
    using ran_join [of i U1 U2] U1 U2 unfolding split by auto
  moreover have "fl_inv t (drop (Suc n1 + n2) xs)" using t(2) unfolding split by (simp add: cloned_def)
  moreover have "clone_table_range s x y i e = ok t" using run t1(1) t(1) by simp
  ultimately show ?thesis unfolding cloned_def by blast
qed

lemma clone_loop:
  "clone_pre s L T xs p x y d \<Longrightarrow> e \<le> 512 \<Longrightarrow> tables_in d T p [i..<e] < length xs \<Longrightarrow>
    \<exists>t U. clone_table_range s x y i e = ok t \<and> cloned s T p y i e (tables_in d T p [i..<e]) xs t U"
proof (induction d arbitrary: s xs p x y i e)
  case 0
  then have "length p < L" "length p = L" using clone_preD(3,10) pt_inv_table [OF clone_preD(1)] by fastforce+
  then show ?case by simp
next
  case (Suc d)
  note below = Suc.IH
  show ?case using Suc.prems
  proof (induction "e - i" arbitrary: s xs i)
    case 0
    then have "\<not> i < e" "[i..<e] = []" by simp_all
    moreover have "copy_of s T p {} s [[] \<mapsto> y] y" by (rule copy_ofI) (auto split: if_splits)
    moreover note clone_preD(2) [OF 0(2)]
    ultimately show ?case using clone_done [of i e s x y] by (auto simp: cloned_def intro!: exI [of _ "[[] \<mapsto> y]"])
  next
    case (Suc n)
    then have i: "i < e" "e \<le> 512" and js: "[i..<e] = i # [Suc i..<e]" by (simp_all add: upt_conv_Cons)
    have hyp: "n = e - Suc i" using Suc.hyps(2) by simp
    show ?case
    proof (cases "T (p @ [i])")
      case None
      then have n: "tables_in (Suc d) T p [i..<e] = tables_in (Suc d) T p [Suc i..<e]"
        unfolding js tables_in_Cons by simp
      show ?thesis unfolding n
        by (rule clone_flat_step [OF Suc.prems(1) i None])
          (use Suc.hyps(1) [OF hyp _ Suc.prems(2)] Suc.prems(3) n in simp)
    next
      case (Some x')
      let ?n1 = "tables_in d T (p @ [i]) [0..<512]" and ?n2 = "tables_in (Suc d) T p [Suc i..<e]"
      have n: "tables_in (Suc d) T p [i..<e] = Suc ?n1 + ?n2"
        using Some unfolding js tables_in_Cons by simp
      show ?thesis unfolding n
      proof (rule clone_branch_step [OF Suc.prems(1) i Some])
        show "Suc ?n1 + ?n2 < length xs" using Suc.prems(3) n by simp
        show "\<exists>t U. clone_table_range u x' w 0 512 = ok t \<and> cloned u T (p @ [i]) w 0 512 ?n1 ys t U"
          if "clone_pre u L T ys (p @ [i]) x' w d" "?n1 < length ys" for u ys w
          using below [OF that(1) order_refl that(2)] .
        show "\<exists>t U. clone_table_range u x y (i + 1) e = ok t \<and> cloned u T p y (Suc i) e ?n2 ys t U"
          if "clone_pre u L T ys p x y (Suc d)" "?n2 < length ys" for u ys
          using Suc.hyps(1) [OF hyp that(1) Suc.prems(2) that(2)] by simp
      qed
    qed
  qed
qed

section \<open>Walks through a copy\<close>

lemma path_bounded: "L \<le> 5 \<Longrightarrow> set (path v L k) \<subseteq> {..<512}"
  using idx_less [of _ v] by (auto simp: path_def simp del: upt_Suc)

lemma hd_path: "k < L \<Longrightarrow> \<exists>q. path v L k = idx v L # q"
  by (cases L) (auto simp: path_def)

lemma copy_walk:
  assumes inv: "pt_inv s L T xs" and copy: "copy_of s T [] R t U y" and hh: "hhdm t = hhdm s" and top: "idx v L \<in> R"
  shows "T (path v L j) = Some x \<Longrightarrow> U (path v L j) = Some z \<Longrightarrow> j \<le> L \<Longrightarrow> 0 < j \<Longrightarrow>
    walk_virt t z v (lv j) = walk_virt s x v (lv j)"
proof (induction j arbitrary: x z)
  case (Suc j)
  have L5: "L \<le> 5" using pt_inv_levels [OF inv] by simp
  let ?i = "idx v (Suc j)"
  have i: "?i < 512" using Suc.prems(3) L5 by (intro idx_less) simp_all
  have p: "path v L j = path v L (Suc j) @ [?i]" using Suc.prems(3) by (intro path_Suc) simp
  obtain e where e: "mem s (slot x ?i) = Some e" "entry_ok s (T (path v L j)) e"
    using pt_inv_entry [OF inv Suc.prems(1) i] by (auto simp: p)
  have "?i \<in> R" if "path v L (Suc j) = []"
    using that Suc.prems(3) top length_path [of v L "Suc j"] by (cases "Suc j = L") auto
  with copy_ofD(4) [OF copy Suc.prems(2) i] have c: "copied t (U (path v L j)) (Some e) (mem t (slot z ?i))"
    using Suc.prems(1) e(1) by (simp add: p)
  obtain q where q: "path v L j = idx v L # q" using hd_path [of j L v] Suc.prems(3) by auto
  have "set (idx v L # q) \<subseteq> {..<512}" using path_bounded [OF L5, of v j] unfolding q .
  then have both: "U (path v L j) \<noteq> None \<longleftrightarrow> T (path v L j) \<noteq> None"
    using copy_ofD(2) [OF copy, of "idx v L" q] top unfolding q by auto
  note step = walk_step [of _ _ v "lv (Suc j)", OF _ i [unfolded idx_def]]
  show ?case
  proof (cases "T (path v L j)")
    case (Some x')
    with both obtain z' where z': "U (path v L j) = Some z'" by auto
    with c obtain e' where e': "mem t (slot z ?i) = Some e'" "is_branch e'" "entry_table t e' = z'"
      by (auto simp: copied_def split: option.splits)
    have b: "is_branch e" "entry_table s e = x'" using e(2) Some by (simp_all add: entry_ok_def)
    have "0 < j" using pt_inv_table [OF inv Some] by (cases j) simp_all
    moreover have "level_sub (lv (Suc j)) 1 = lv j" using level_sub_lv [of "Suc j"] Suc.prems(3) L5 by simp
    ultimately show ?thesis
      using Suc.IH [OF Some z'] Suc.prems(3) b branch_not_leaf [OF b(1)] e'(2,3) branch_not_leaf [OF e'(2)]
        step [OF e(1) [unfolded idx_def]] step [OF e'(1) [unfolded idx_def]] by simp
  next
    case None
    with both c have same: "mem t (slot z ?i) = Some e" by (auto simp: copied_def split: option.splits)
    from None e(2) have "\<not> is_branch e" using branch_not_leaf by (auto simp: entry_ok_def)
    then show ?thesis using step [OF e(1) [unfolded idx_def]] step [OF same [unfolded idx_def]] by simp
  qed
qed simp

text \<open>A copy is made of its own tables: writes elsewhere leave it alone.\<close>

lemma copy_kept:
  assumes copy: "copy_of s T p R t U y" and ch: "changes_only F t t'"
    and F: "\<forall>f \<in> F. page_aligned f" "ran U \<inter> F = {}" and al: "\<forall>f \<in> ran U. page_aligned f"
  shows "copy_of s T p R t' U y"
proof (rule copy_ofI)
  show "copied t' (U (q @ [j])) (mem s (slot (the (T (p @ q))) j)) (mem t' (slot z j))"
    if q: "U q = Some z" "j < 512" "q = [] \<Longrightarrow> j \<in> R" for q z j
  proof -
    have "z \<in> ran U" using q(1) by (rule ranI)
    with F al have "page_aligned z" "z \<notin> F" by blast+
    then have "mem t' (slot z j) = mem t (slot z j)"
      by (intro changes_only_cell [OF ch _ F(1) _ q(2)])
    moreover have "hhdm t' = hhdm t" using ch by (simp add: changes_only_def)
    ultimately show ?thesis using copy_ofD(4) [OF copy q] copied_cong [of t' t] by simp
  qed
  show "U [] = Some y" by (rule copy_ofD(1) [OF copy])
  show "U (j # q) \<noteq> None \<longleftrightarrow> j \<in> R \<and> set (j # q) \<subseteq> {..<512} \<and> T (p @ j # q) \<noteq> None" for j q
    by (rule copy_ofD(2) [OF copy])
  show "q = q'" if "U q = Some z" "U q' = Some z" for q q' z by (rule copy_ofD(3) [OF copy that])
qed

section \<open>A new upper half\<close>

text \<open>The frames \<open>new_with_upperhalf\<close> takes.\<close>

definition upper_tables :: "nat \<Rightarrow> (nat list \<rightharpoonup> u64) \<Rightarrow> nat" where
  "upper_tables L T = Suc (tables_in L T [] [256..<512])"

lemma upper_half_copy:
  assumes fl: "fl_inv s xs" and inv: "pt_inv s L T xs" and root: "T [] = Some (current_table s)"
    and room: "upper_tables L T < length xs"
  shows "\<exists>t U. new_with_upperhalf s = ok (hd xs, t)
    \<and> fl_inv t (drop (upper_tables L T) xs) \<and> pt_inv t L T (drop (upper_tables L T) xs)
    \<and> same_tables T s t \<and> changes_only (set xs) s t
    \<and> copy_of s T [] {256..<512} t U (hd xs) \<and> ran U \<subseteq> set (take (upper_tables L T) xs)
    \<and> (\<forall>j < 256. mem t (slot (hd xs) j) = mem s (slot (hd xs) j))"
proof -
  let ?n = "tables_in L T [] [256..<512]"
  obtain w z zs where xs: "xs = w # z # zs" using room by (cases xs; cases "tl xs") (auto simp: upper_tables_def)
  obtain u where u: "fl_claim s = ok (w, u)" "fl_inv u (z # zs)" "pt_inv u L T (z # zs)"
    "changes_only {z} s u" "frame_ok u w" "w \<notin> ran T" "w \<notin> set (z # zs)"
    using claim_for_table [OF inv [unfolded xs] fl [unfolded xs]] by blast
  have cur: "current_table u = current_table s" using changes_only_current [OF u(4)] by simp
  have "clone_pre u L T (z # zs) [] (current_table s) w L"
    using u root by (simp add: clone_pre_def)
  moreover have "?n < length (z # zs)" using room by (simp add: xs upper_tables_def)
  ultimately obtain t U where t: "clone_table_range u (current_table s) w 256 512 = ok t"
    "cloned u T [] w 256 512 ?n (z # zs) t U" using clone_loop by blast
  have T: "\<forall>x \<in> set xs. page_aligned x \<and> x \<notin> ran T"
    using pt_inv_table [OF inv] fl_inv_frame_ok [OF fl] by (auto simp: ran_def)
  have "changes_only (set xs) s u" by (rule changes_only_mono [OF u(4)]) (simp add: xs)
  moreover have "changes_only (set xs) u t" using t(2) by (simp add: cloned_def xs)
  ultimately have ch: "changes_only (set xs) s t" by (rule changes_only_trans)
  have same: "same_tables T s t" by (rule same_tables_elsewhere [OF inv ch T])
  have "same_tables T s u" by (rule same_tables_elsewhere [OF inv u(4)]) (use T xs in auto)
  then have same_u: "mem u (slot x j) = mem s (slot x j)" if "T q = Some x" "j < 512" for q x j
    using that same_tablesD by blast
  have hd: "hd xs = w" by (simp add: xs)
  have dropped: "drop (upper_tables L T) xs = drop ?n (z # zs)" by (simp add: xs upper_tables_def)
  have c: "copy_of u T [] {256..<512} t U w" using t(2) by (simp add: cloned_def)
  have "copy_of s T [] {256..<512} t U w"
  proof (rule copy_ofI)
    show "copied t (U (q @ [j])) (mem s (slot (the (T ([] @ q))) j)) (mem t (slot x j))"
      if q: "U q = Some x" "j < 512" "q = [] \<Longrightarrow> j \<in> {256..<512}" for q x j
      using copy_ofD(4) [OF c q] same_u [OF copy_source [OF c root q(1)] q(2)] by simp
    show "U [] = Some w" by (rule copy_ofD(1) [OF c])
    show "U (j # q) \<noteq> None \<longleftrightarrow> j \<in> {256..<512} \<and> set (j # q) \<subseteq> {..<512} \<and> T ([] @ j # q) \<noteq> None" for j q
      by (rule copy_ofD(2) [OF c])
    show "q = q'" if "U q = Some x" "U q' = Some x" for q q' x by (rule copy_ofD(3) [OF c that])
  qed
  moreover have "pt_inv t L T (drop ?n (z # zs))"
    by (rule pt_inv_elsewhere(1) [OF inv ch T]) (use T set_drop_subset [of ?n "z # zs"] in \<open>auto simp: xs\<close>)
  moreover have "new_with_upperhalf s = ok (w, t)" using u(1) t(1) cur by (simp add: new_with_upperhalf_def)
  moreover have "ran U \<subseteq> set (take (upper_tables L T) xs)" using t(2) by (simp add: cloned_def xs upper_tables_def)
  moreover have "fl_inv t (drop ?n (z # zs))" using t(2) unfolding cloned_def by blast
  moreover have "mem t (slot w j) = mem s (slot w j)" if j: "j < 256" for j
  proof -
    have "mem t (slot w j) = mem u (slot w j)" using t(2) j by (simp add: cloned_def)
    also have "\<dots> = mem s (slot w j)"
      by (rule changes_only_cell [OF u(4)]) (use T u(7) j in \<open>auto simp: xs\<close>)
    finally show ?thesis .
  qed
  ultimately show ?thesis unfolding dropped hd using same ch by blast
qed

text \<open>A copy never takes more frames than the tree has tables.\<close>

definition below :: "(nat list \<rightharpoonup> u64) \<Rightarrow> nat list \<Rightarrow> nat set \<Rightarrow> nat list set" where
  "below T p J = {q \<in> dom T. \<exists>j r. j \<in> J \<and> q = p @ j # r}"

lemma below_split: "below T p (insert j J) = below T p {j} \<union> below T p J" "j \<notin> J \<Longrightarrow> below T p {j} \<inter> below T p J = {}"
  by (auto simp: below_def)

lemma below_finite: "finite (dom T) \<Longrightarrow> finite (below T p J)"
  by (rule finite_subset [of _ "dom T"]) (auto simp: below_def)

lemma card_below_table:
  assumes "finite (dom T)" "T (p @ [j]) \<noteq> None"
  shows "Suc (card (below T (p @ [j]) J)) \<le> card (below T p {j})"
proof -
  have "insert (p @ [j]) (below T (p @ [j]) J) \<subseteq> below T p {j}" using assms(2) by (auto simp: below_def)
  then have "card (insert (p @ [j]) (below T (p @ [j]) J)) \<le> card (below T p {j})"
    by (rule card_mono [OF below_finite [OF assms(1)]])
  moreover have "p @ [j] \<notin> below T (p @ [j]) J" by (auto simp: below_def)
  ultimately show ?thesis using below_finite [OF assms(1)] by simp
qed

lemma tables_in_below:
  assumes "finite (dom T)"
  shows "distinct js \<Longrightarrow> tables_in d T p js \<le> card (below T p (set js))"
proof (induction d arbitrary: p js)
  case (Suc d)
  note tables = Suc.IH
  show ?case using Suc.prems
  proof (induction js)
    case (Cons j js)
    have "(if T (p @ [j]) = None then 0 else Suc (tables_in d T (p @ [j]) [0..<512])) \<le> card (below T p {j})"
      using tables [of "[0..<512]" "p @ [j]"] card_below_table [OF assms, of p j "set [0..<512]"]
      by (cases "T (p @ [j]) = None") (simp_all del: upt.simps set_upt)
    moreover have "card (below T p (set (j # js))) = card (below T p {j}) + card (below T p (set js))"
      using below_split [where T = T and p = p and j = j and J = "set js"] Cons.prems below_finite [OF assms]
      by (simp add: card_Un_disjoint)
    ultimately show ?case using Cons unfolding tables_in_Cons by simp
  qed simp
qed simp

lemma upper_tables_card:
  assumes "finite (dom T)" "T [] \<noteq> None"
  shows "upper_tables L T \<le> card (dom T)"
proof -
  have "insert [] (below T [] (set [256..<512])) \<subseteq> dom T" using assms(2) by (auto simp: below_def)
  moreover have "[] \<notin> below T [] (set [256..<512])" by (simp add: below_def)
  ultimately have "Suc (card (below T [] (set [256..<512]))) \<le> card (dom T)"
    using card_mono [OF assms(1)] below_finite [OF assms(1)] by (metis card_insert_disjoint)
  moreover have "tables_in L T [] [256..<512] \<le> card (below T [] (set [256..<512]))"
    by (rule tables_in_below [OF assms(1) distinct_upt])
  ultimately show ?thesis unfolding upper_tables_def by linarith
qed

end
