(* ===== verification/Large_Example.thy ===== *)
theory Large_Example
  imports Boot_Example
begin

text \<open>
  A machine with 16 MiB of zeroed RAM behind the direct map at \<open>0x80000000\<close>, for the properties that
  claim long runs of frames. The first page is the root table, the next seven stand for the kernel
  image (with the heap), and \<open>pmm::init\<close> puts the other 4088 on the free list.
\<close>

section \<open>Runs that are a list\<close>

lemma take_frames_from: "k \<le> n \<Longrightarrow> take k (frames_from b n) = frames_from b k"
  by (simp add: frames_from_def take_map)

lemma drop_frames_from: "k \<le> n \<Longrightarrow> drop k (frames_from b n) = frames_from (b + 0x1000 * of_nat k) (n - k)"
  by (rule nth_equalityI) (simp_all add: algebra_simps)

lemma first_run_front:
  assumes "0 < k" "k \<le> n"
  shows "first_run k 0 (frames_from b n) = Some 0"
proof (rule first_run_Some)
  show "window k 0 (drop 0 (frames_from b n))"
    using assms by (simp add: window_def take_frames_from hd_frames_from)
qed (use assms in simp_all)

lemma without_run_front: "k \<le> n \<Longrightarrow> without_run k 0 (frames_from b n) = frames_from (b + 0x1000 * of_nat k) (n - k)"
  by (simp add: without_run_def drop_frames_from)

lemma distinct_frames_from:
  assumes "n \<le> 2 ^ 52"
  shows "distinct (frames_from b n)"
proof -
  have "inj_on (\<lambda>k. b + 0x1000 * of_nat k :: u64) {0..<n}"
  proof (rule inj_onI)
    fix i j assume ij: "i \<in> {0..<n}" "j \<in> {0..<n}" "b + 0x1000 * of_nat i = b + 0x1000 * (of_nat j :: u64)"
    have "unat (0x1000 * of_nat k :: u64) = 0x1000 * k" if "k \<in> {0..<n}" for k
      using that assms by (simp add: unat_word_ariths unat_of_nat)
    with ij show "i = j" by (metis add_left_cancel mult_left_cancel zero_neq_numeral)
  qed
  then show ?thesis by (simp add: frames_from_def distinct_map)
qed

section \<open>The machine\<close>

definition big_ram :: "u64 \<rightharpoonup> u64" where
  "big_ram a = (if 0x80000000 \<le> a \<and> a < 0x81000000 then Some 0 else None)"

definition big_cold :: machine where
  "big_cold = cold\<lparr>mem := big_ram\<rparr>"

definition big_map :: "memory_entry list" where
  "big_map = [\<lparr>e_kind = OtherKind, e_base = 0, e_size = 0x8000\<rparr>,
              \<lparr>e_kind = Usable, e_base = 0x8000, e_size = 0xff8000\<rparr>]"

definition big_frames :: "u64 list" where
  "big_frames = frames_from 0x80008000 4088"

lemma big_page:
  assumes "page_aligned p" "0x80000000 \<le> p" "p < 0x81000000" "i < 512"
  shows "big_ram (slot p i) = Some 0"
proof -
  have s: "unat (slot p i) = unat p + 8 * i" by (rule unat_slot [OF assms(1,4)])
  have p: "0x80000000 \<le> unat p" "unat p < 0x81000000"
    using assms(2,3) by (simp_all add: word_le_nat_alt word_less_nat_alt)
  have "unat p mod 4096 = 0" using assms(1) by (simp add: page_aligned_mod)
  then obtain k where "unat p = 4096 * k" by auto
  with p assms(4) have "unat p + 8 * i < 0x81000000" by simp
  with p s show ?thesis by (simp add: big_ram_def word_le_nat_alt word_less_nat_alt)
qed

lemma big_frame:
  assumes "page_aligned p" "0x80000000 \<le> p" "p < 0x81000000"
  shows "frame_ok big_cold p"
proof -
  have "p - 0x80000000 < 2 ^ 56"
    using assms(2,3) by (simp add: word_less_nat_alt unat_sub word_le_nat_alt)
  then show ?thesis using assms big_page [OF assms] by (simp add: frame_ok_def big_cold_def cold_def page_mapped_def)
qed

lemma unat_big_frame: "k < 4088 \<Longrightarrow> unat (0x80008000 + 0x1000 * of_nat k :: u64) = 0x80008000 + 0x1000 * k"
  by (simp add: unat_word_ariths unat_of_nat)

lemma big_frames_ok: "\<forall>p \<in> set big_frames. frame_ok big_cold p"
proof
  fix p assume "p \<in> set big_frames"
  then obtain k where k: "p = 0x80008000 + 0x1000 * of_nat k" "k < 4088" by (auto simp: big_frames_def frames_from_def)
  have u: "unat p = 0x80008000 + 0x1000 * k" unfolding k(1) by (rule unat_big_frame [OF k(2)])
  have "unat p mod 4096 = 0" unfolding u by presburger
  with u k(2) show "frame_ok big_cold p"
    by (intro big_frame) (simp_all add: page_aligned_mod word_le_nat_alt word_less_nat_alt)
qed

lemma big_usable: "usable_frames big_cold big_map = big_frames"
proof -
  have "(unat (0xff8000 :: u64) + 0xfff) div 0x1000 = 4088" by simp
  then have "page_offsets 0xff8000 = map (\<lambda>k. 0x1000 * of_nat k) [0..<4088]" by (simp only: page_offsets_def)
  then show ?thesis
    by (simp add: usable_frames_def big_map_def entry_frames_def big_frames_def frames_from_def big_cold_def cold_def
        comp_def del: upt_Suc upt.simps)
qed

lemma length_big [simp]: "length big_frames = 4088"
  by (simp add: big_frames_def)

definition big :: machine where
  "big = (case pmm_init big_cold big_map of Some (Inr t) \<Rightarrow> t | _ \<Rightarrow> big_cold)"

lemma big_boots: "pmm_init big_cold big_map = ok big" "fl_inv big big_frames"
  "changes_only (set big_frames) big_cold big"
proof -
  obtain x fs where fs: "big_frames = x # fs" using length_big by (cases big_frames) auto
  have "distinct big_frames" unfolding big_frames_def by (rule distinct_frames_from) simp
  moreover have "0 < hhdm big_cold" by (simp add: big_cold_def cold_def)
  ultimately obtain t where "pmm_init big_cold big_map = ok t" "fl_inv t big_frames"
    "changes_only (set big_frames) big_cold t"
    using pmm_init_frames [of big_cold big_map x fs] big_frames_ok length_big
    unfolding big_usable fs by auto
  then show "pmm_init big_cold big_map = ok big" "fl_inv big big_frames"
    "changes_only (set big_frames) big_cold big" by (simp_all add: big_def)
qed

lemma big_fields [simp]: "hhdm big = 0x80000000" "levels big = 3" "satp big = 0" "fences big = []"
  using big_boots(3) by (simp_all add: changes_only_def big_cold_def cold_def)

lemma big_mem_dom: "mem big a = None \<longleftrightarrow> \<not> (0x80000000 \<le> a \<and> a < 0x81000000)"
proof -
  have "dom (mem big) = dom big_ram"
    using big_boots(3) by (simp add: changes_only_def mem_only_def big_cold_def)
  then have "mem big a = None \<longleftrightarrow> big_ram a = None" by (metis domIff)
  then show ?thesis by (simp add: big_ram_def)
qed

text \<open>The pages below the free frames are as they were: zero.\<close>

lemma page_floor: "a \<in> page_cells p \<Longrightarrow> page_aligned p \<Longrightarrow> unat p \<le> unat a"
  by (auto simp: page_cells_def unat_slot)

lemma big_low: "a < 0x80008000 \<Longrightarrow> a \<notin> \<Union> (page_cells ` set big_frames)"
proof
  assume a: "a < 0x80008000" "a \<in> \<Union> (page_cells ` set big_frames)"
  then obtain p where p: "p \<in> set big_frames" "a \<in> page_cells p" by blast
  then obtain k where k: "p = 0x80008000 + 0x1000 * of_nat k" "k < 4088" by (auto simp: big_frames_def frames_from_def)
  have "page_aligned p" using big_frames_ok p(1) by (auto simp: frame_ok_def)
  from page_floor [OF p(2) this] have "unat (0x80008000 + 0x1000 * of_nat k :: u64) \<le> unat a" by (simp add: k)
  then show False using a(1) unfolding unat_big_frame [OF k(2)] by (simp add: word_less_nat_alt)
qed

lemma big_low_mem: "0x80000000 \<le> a \<Longrightarrow> a < 0x80008000 \<Longrightarrow> mem big a = Some 0"
proof -
  assume a: "0x80000000 \<le> a" "a < 0x80008000"
  from big_low [OF a(2)] have "mem big a = big_ram a"
    using big_boots(3) by (simp add: changes_only_def mem_only_def big_cold_def)
  moreover from a(2) have "a < 0x81000000" by (rule less_trans) simp
  ultimately show ?thesis using a by (simp add: big_ram_def)
qed

end
