(* ===== verification/Core_Properties.thy ===== *)
theory Core_Properties
  imports Core_Setup Large_Example
begin

text \<open>
  The properties of the set-up of a core (Core_Setup), with the machine on which their hypotheses
  hold.
\<close>

text \<open>\<open>init_tls\<close> takes the first run of free frames with room for the image's thread-local data and
  tp then points to a copy of it; the image keeps its bytes, and only free frames are written.\<close>

theorem tls_is_a_copy:
  assumes "claims_run s xs (tdata_end - tdata_start) i"
    and "\<forall>j < unat (tdata_end - tdata_start). outside_frames xs (tdata_start + of_nat j)
           \<and> rd_byte s (tdata_start + of_nat j) = ok (data j)"
  shows "\<exists>t. init_tls tdata_start tdata_end c s = ok (c\<lparr>c_tp := xs ! i\<rparr>, t)
    \<and> fl_inv t (without_run (pages (tdata_end - tdata_start)) i xs) \<and> changes_only (set xs) s t
    \<and> (\<forall>j < unat (tdata_end - tdata_start). rd_byte t (xs ! i + of_nat j) = ok (data j)
           \<and> rd_byte t (tdata_start + of_nat j) = ok (data j))"
proof -
  let ?sz = "tdata_end - tdata_start"
  let ?n = "pages ?sz" and ?ys = "without_run (pages ?sz) i xs"
  from dma_claim_outcome [OF assms(1)] obtain u where u: "dma_claim ?sz s = ok (xs ! i, u)" "fl_inv u ?ys"
    "changes_only (set ?ys) s u" "set (frames_from (xs ! i) ?n) \<subseteq> set xs"
    "set (frames_from (xs ! i) ?n) \<inter> set ?ys = {}" "\<And>k. k < ?n \<Longrightarrow> frame_ok u (xs ! i + 0x1000 * of_nat k)" by blast
  have d: "distinct xs" "\<forall>x \<in> set xs. page_aligned x"
    using assms(1) fl_inv_frame_ok by (auto simp: claims_run_def fl_inv_def)
  have sub: "set ?ys \<subseteq> set xs" using without_run_parts(1) [OF d(1)] by blast
  have run: "set (frames_from (xs ! i) ?n) = (\<lambda>k. xs ! i + 0x1000 * of_nat k) ` {..<?n}" by (auto simp: frames_from_def)
  have inside: "\<not> outside_frames xs (xs ! i + of_nat j)" if "j < unat ?sz" for j
    by (rule run_byte_inside [of ?n]) (use u(4) run d(2) pages_bytes [OF that] in auto)
  have "changes_only (set xs) s u" using changes_only_mono [OF u(3) sub] .
  have src: "rd_byte u (tdata_start + of_nat j) = ok (data j)" if "j < unat ?sz" for j
    using changes_only_outside [OF u(3) sub] assms(2) that by metis
  have copy: "tls_copy tdata_start (xs ! i) ?sz u = rfold (\<lambda>j s. wr_byte s (xs ! i + of_nat j) (data j)) [0..<unat ?sz] u"
    unfolding tls_copy_def
  proof (rule copy_reads)
    fix j k assume jk: "j \<in> set [0..<unat ?sz]" "k \<in> set [0..<unat ?sz]"
    then have "j < unat ?sz" "k < unat ?sz" by (simp_all only: set_upt atLeastLessThan_iff)
    then have "outside_frames xs (tdata_start + of_nat k)" "\<not> outside_frames xs (xs ! i + of_nat j)"
      using assms(2) inside by blast+
    then show "xs ! i + of_nat j \<noteq> tdata_start + of_nat k" by metis
  next
    fix j assume "j \<in> set [0..<unat ?sz]"
    then have "j < unat ?sz" by (simp only: set_upt atLeastLessThan_iff)
    then show "rd_byte u (tdata_start + of_nat j) = ok (data j)" by (rule src)
  qed
  from copy_run [OF u(6), of ?n "[0..<unat ?sz]" data] pages_bytes obtain t where
    t: "rfold (\<lambda>j s. wr_byte s (xs ! i + of_nat j) (data j)) [0..<unat ?sz] u = ok t"
      "changes_only (set (frames_from (xs ! i) ?n)) u t" "same_free u t" unfolding run by auto
  have ch: "changes_only (set xs) s t" by (rule changes_only_step [OF u(3) t(2) sub u(4)])
  have "rd_byte t (xs ! i + of_nat j) = ok (data j)" if "j < unat ?sz" for j
    by (rule bytes.copy_get [OF t(1)]) (use that of_nat_inj_bytes [of "xs ! i" ?sz] in \<open>auto simp: atLeast0LessThan\<close>)
  moreover have "rd_byte t (tdata_start + of_nat j) = ok (data j)" if "j < unat ?sz" for j
    using changes_only_outside [OF ch subset_refl] assms(2) that by metis
  moreover have "\<forall>y \<in> set (frames_from (xs ! i) ?n). page_aligned y \<and> y \<notin> set ?ys" using u(4,5) d(2) by blast
  then have "fl_inv t ?ys" using fl_inv_elsewhere [OF u(2) t(2)] t(3) by (simp add: same_free_def)
  ultimately show ?thesis using u(1) t(1) ch
    by (simp add: init_tls_claims copy)
qed

section \<open>Traps\<close>

lemma pages_stack: "pages 0x20000 = 32" "dma_frames 0x20000 = 0x20"
  by (simp_all add: pages_def dma_frames_def)

text \<open>What \<open>traps::init\<close> stores, as one memory.\<close>

definition scratch_mem :: "(u64 \<rightharpoonup> u64) \<Rightarrow> u64 \<Rightarrow> u64 \<Rightarrow> u64 \<Rightarrow> u64 \<Rightarrow> (u64 \<rightharpoonup> u64)" where
  "scratch_mem m p stack tp gp = m(cell p 0 \<mapsto> stack + 0x20000, cell p 1 \<mapsto> tp, cell p 2 \<mapsto> gp)"

lemma traps_init_stores:
  assumes "heap_alloc free sscratch_layout = ok (p, free')" "claim_continuous s 0x20 = ok (Inr (stack, u))"
    and "\<And>k. k < 4 \<Longrightarrow> mem u (cell p k) \<noteq> None"
  shows "traps_init free c s = ok (free', c\<lparr>c_sscratch := p,
      c_sie := sie_set_ssie True (sie_set_stie True (sie_set_seie True (c_sie c))),
      c_sstatus := sstatus_set_sie True (c_sstatus c)\<rparr>, u\<lparr>mem := scratch_mem (mem u) p stack (c_tp c) (c_gp c)\<rparr>)"
  using assms(1,2) assms(3) [of 0] assms(3) [of 1] assms(3) [of 2]
  by (auto simp: traps_init_def wr_def Let_def sie_csrw_def sstatus_csrw_def sie_new_def sstatus_new_def scratch_mem_def)

lemma scratch_mem_shim:
  assumes block: "\<And>k. k < 4 \<Longrightarrow> m (cell p k) \<noteq> None \<and> cell p k \<notin> page_cells pg"
    and stack: "page_mapped m pg" "pg = stack + 0x1000 * of_nat 31"
    and h: "hmem h = scratch_mem m p stack tp gp" "h_sscratch h = p"
  shows "shim_ready h \<and> frame_base h + 256 = stack + 0x20000
    \<and> hmem h (cell p 1) = Some tp \<and> hmem h (cell p 2) = Some gp"
proof -
  have distinct: "cell p 0 \<noteq> cell p 1" "cell p 0 \<noteq> cell p 2" "cell p 1 \<noteq> cell p 2"
    by (simp_all add: cell_def)
  have f: "frame_base h = stack + 0x20000 - 256"
    by (simp add: frame_base_def h scratch_mem_def cell_def)
  have c: "cell (frame_base h - 264) j = slot pg (447 + j)" for j
    unfolding f stack(2) by (rule stack_cell)
  have mapped: "hmem h a \<noteq> None" if "m a \<noteq> None" for a using that by (simp add: h scratch_mem_def)
  have "slot pg (447 + j) \<noteq> cell p k" if "j < 65" "k < 4" for j k
  proof -
    have "447 + j < 512" using that(1) by simp
    from slot_in_page [OF this] block [OF that(2)] show ?thesis by metis
  qed
  moreover have "hmem h (slot pg (447 + j)) \<noteq> None" if "j < 65" for j
    using page_mappedD [OF stack(1), of "447 + j"] that by (intro mapped) auto
  ultimately have "shim_ready h" using block by (simp add: shim_ready_def c h(2) mapped)
  moreover have "hmem h (cell p 1) = Some tp" "hmem h (cell p 2) = Some gp" using distinct by (simp_all add: h scratch_mem_def)
  ultimately show ?thesis by (simp add: f)
qed

lemma traps_init_ready:
  assumes "heap_inv lo hi free live" "align_room hi sscratch_layout" "\<exists>r \<in> set free. fits r sscratch_layout"
    and "claims_run s xs 0x20000 i" "heap_area lo hi s xs"
  shows "\<exists>free' c' t. traps_init free c s = ok (free', c', t)
    \<and> heap_inv lo hi free' ((c_sscratch c', sscratch_layout) # live) \<and> fl_inv t (without_run 32 i xs)
    \<and> sie_ssie (c_sie c') \<and> sie_stie (c_sie c') \<and> sie_seie (c_sie c') \<and> bit (c_sstatus c') 1
    \<and> (\<forall>h. hmem h = mem t \<and> h_sscratch h = c_sscratch c' \<longrightarrow> shim_ready h
          \<and> frame_base h + 256 = xs ! i + 0x20000
          \<and> hmem h (cell (h_sscratch h) 1) = Some (c_tp c) \<and> hmem h (cell (h_sscratch h) 2) = Some (c_gp c))"
proof -
  from sscratch_block [OF assms(1-3)] obtain p free' where
    p: "heap_alloc free sscratch_layout = ok (p, free')" "heap_inv lo hi free' ((p, sscratch_layout) # live)"
      "\<And>k. k < 4 \<Longrightarrow> lo \<le> unat (cell p k) \<and> unat (cell p k) < hi \<and> unat (cell p k) = unat p + 8 * k" by metis
  from dma_claim_outcome [OF assms(4), unfolded pages_stack] obtain u where
    u: "dma_claim 0x20000 s = ok (xs ! i, u)" "fl_inv u (without_run 32 i xs)"
      "changes_only (set (without_run 32 i xs)) s u" "set (frames_from (xs ! i) 32) \<subseteq> set xs"
      "\<forall>k < 32. frame_ok u (xs ! i + 0x1000 * of_nat k)" by blast
  obtain r where "claim_continuous s 0x20 = ok r" "unwrap_res r = ok (xs ! i, u)"
    using u(1) by (auto simp: dma_claim_def pages_stack rbind_eq_ok)
  then have claim: "claim_continuous s 0x20 = ok (Inr (xs ! i, u))" by (cases r) simp_all
  have "distinct xs" using assms(4) by (auto simp: claims_run_def fl_inv_def)
  then have sub: "set (without_run 32 i xs) \<subseteq> set xs" using without_run_parts(1) by blast
  have cells: "mem u (cell p k) \<noteq> None \<and> cell p k \<notin> \<Union> (page_cells ` set xs)" if "k < 4" for k
  proof -
    have "mem s (cell p k) \<noteq> None" and out: "cell p k \<notin> \<Union> (page_cells ` set xs)"
      using heap_areaD [OF assms(5)] p(3) [OF that] by blast+
    then show ?thesis using u(3) out unfolding changes_only_def mem_only_def by (metis domIff)
  qed
  let ?m = "scratch_mem (mem u) p (xs ! i) (c_tp c) (c_gp c)" and ?last = "xs ! i + 0x1000 * of_nat 31"
  have run: "traps_init free c s = ok (free', c\<lparr>c_sscratch := p,
      c_sie := sie_set_ssie True (sie_set_stie True (sie_set_seie True (c_sie c))),
      c_sstatus := sstatus_set_sie True (c_sstatus c)\<rparr>, u\<lparr>mem := ?m\<rparr>)"
    by (rule traps_init_stores [OF p(1) claim]) (use cells in blast)
  have 1: "fl_inv (v\<lparr>mem := (mem v)(cell p k \<mapsto> w)\<rparr>) (without_run 32 i xs)"
    if "fl_inv v (without_run 32 i xs)" "k < 4" "mem v (cell p k) \<noteq> None" for v k w
    by (rule fl_inv_cell [OF that(1) _ that(3)]) (use cells [OF that(2)] sub in auto)
  have "fl_inv (u\<lparr>mem := ?m\<rparr>) (without_run 32 i xs)"
    using 1 [OF 1 [OF 1 [OF u(2), of 0 "xs ! i + 0x20000"], of 1 "c_tp c"], of 2 "c_gp c"] cells
    by (simp add: scratch_mem_def)
  moreover have "frame_ok u ?last" by (rule u(5) [rule_format]) simp
  then have last: "page_mapped (mem u) ?last" by (simp add: frame_ok_def)
  have "?last \<in> set (frames_from (xs ! i) 32)"
    unfolding frames_from_def set_map set_upt by (rule imageI) simp
  then have in_xs: "?last \<in> set xs" using u(4) by (rule rev_subsetD)
  have "shim_ready h \<and> frame_base h + 256 = xs ! i + 0x20000
      \<and> hmem h (cell p 1) = Some (c_tp c) \<and> hmem h (cell p 2) = Some (c_gp c)"
    if "hmem h = ?m" "h_sscratch h = p" for h
    by (rule scratch_mem_shim [OF _ last refl that]) (use cells in_xs in blast)
  ultimately show ?thesis using p(2) unfolding run
    by (auto simp: sie_ssie_def sie_stie_def sie_seie_def sie_set_ssie_def sie_set_stie_def
        sie_set_seie_def sstatus_set_sie_def bf_flag_bit bit_bf_set_flag)
qed

text \<open>C29. \<open>traps::init\<close> leaves the core ready for traps: sscratch points to a block of the heap, no part
  of which is anything else, with the kernel's tp and gp; its stack pointer is the upper end of 32
  frames taken from the free list; the memory the trap shim writes is there and apart from the block;
  and software, timer and external interrupts are on.\<close>

theorem traps_init_readies_shim:
  assumes "heap_inv lo hi free live" "align_room hi sscratch_layout" "\<exists>r \<in> set free. fits r sscratch_layout"
    and "claims_run s xs 0x20000 i" "heap_area lo hi s xs"
  shows "\<exists>free' c' t. traps_init free c s = ok (free', c', t)
    \<and> heap_inv lo hi free' ((c_sscratch c', sscratch_layout) # live) \<and> fl_inv t (without_run 32 i xs)
    \<and> sie_ssie (c_sie c') \<and> sie_stie (c_sie c') \<and> sie_seie (c_sie c') \<and> bit (c_sstatus c') 1
    \<and> (\<forall>h. hmem h = mem t \<and> h_sscratch h = c_sscratch c' \<longrightarrow> shim_ready h
          \<and> frame_base h + 256 = xs ! i + 0x20000
          \<and> hmem h (cell (h_sscratch h) 1) = Some (c_tp c) \<and> hmem h (cell (h_sscratch h) 2) = Some (c_gp c))"
  by (rule traps_init_ready [OF assms])

text \<open>On the machine of Large_Example: the thread-local data of \<open>0x80005000\<close> (100 zero bytes), and a heap
  of 16 KiB at \<open>0x80001008\<close>.\<close>

lemma big_null: "mem big 0 = None"
  by (simp add: big_mem_dom)

lemma big_byte:
  assumes "0x80000000 \<le> unat a" "unat a < 0x80008000"
  shows "outside_frames big_frames a \<and> rd_byte big a = ok 0"
proof -
  have u: "unat (byte_cell a) = unat a div 8 * 8" by (rule unat_byte_cell)
  then have "0x80000000 \<le> byte_cell a" "byte_cell a < 0x80008000"
    using assms by (simp_all add: word_le_nat_alt word_less_nat_alt)
  then show ?thesis using big_low big_low_mem by (simp add: outside_frames_def rd_byte_def)
qed

theorem tls_is_a_copy_witness:
  "\<forall>c. \<exists>t. init_tls 0x80005000 0x80005064 c big = ok (c\<lparr>c_tp := 0x80008000\<rparr>, t) \<and> rd_byte t 0x80008063 = ok 0"
proof -
  have n: "unat (0x80005064 - 0x80005000 :: u64) = 100" "pages 100 = 1" by (simp_all add: pages_def)
  have 1: "claims_run big big_frames (0x80005064 - 0x80005000) 0"
    using big_boots(2) big_null first_run_front [of 1 4088] by (simp add: claims_run_def n big_frames_def)
  have 2: "\<forall>j < unat (0x80005064 - 0x80005000 :: u64). outside_frames big_frames (0x80005000 + of_nat j)
      \<and> rd_byte big (0x80005000 + of_nat j) = ok 0"
    unfolding n by (intro allI impI big_byte) (simp_all add: unat_word_ariths unat_of_nat)
  have "big_frames ! 0 = 0x80008000" by (simp add: big_frames_def)
  then have "\<exists>t. init_tls 0x80005000 0x80005064 c big = ok (c\<lparr>c_tp := 0x80008000\<rparr>, t) \<and> rd_byte t 0x80008063 = ok 0" for c
    using tls_is_a_copy [OF 1 2, of c] unfolding n by (auto dest: spec [of _ 99])
  then show ?thesis ..
qed

lemma big_core:
  fixes r :: list_node
  defines "r \<equiv> \<lparr>start_addr = 0x80001008, node_size = 0x4000\<rparr>"
  shows "heap_inv 0x80001008 0x80005008 [r] []" "align_room 0x80005008 sscratch_layout"
    "\<exists>x \<in> set [r]. fits x sscratch_layout" "claims_run big big_frames 0x20000 0"
    "heap_area 0x80001008 0x80005008 big big_frames"
proof -
  show "heap_inv 0x80001008 0x80005008 [r] []" by (simp add: r_def heap_inv_def region_ivl_def ivl_ok_def)
  show "align_room 0x80005008 sscratch_layout" by (simp add: align_room_def sscratch_layout_def)
  show "\<exists>x \<in> set [r]. fits x sscratch_layout"
    by (simp add: r_def fits_def place_def excess_def sscratch_layout_ok) (simp add: sscratch_layout_def round_up_def)
  show "claims_run big big_frames 0x20000 0"
    using big_boots(2) big_null first_run_front [of 32 4088] by (simp add: claims_run_def pages_stack big_frames_def)
  show "heap_area 0x80001008 0x80005008 big big_frames"
    unfolding heap_area_def
  proof
    fix a :: u64 assume "a \<in> {a. 0x80001008 \<le> unat a \<and> unat a < 0x80005008}"
    then have "0x80000000 \<le> a" "a < 0x80008000" by (simp_all add: word_le_nat_alt word_less_nat_alt)
    then show "mem big a \<noteq> None \<and> a \<notin> \<Union> (page_cells ` set big_frames)"
      using big_low big_low_mem by blast
  qed
qed

theorem traps_init_readies_shim_witness:
  "\<forall>c. \<exists>heap c' t. traps_init [\<lparr>start_addr = 0x80001008, node_size = 0x4000\<rparr>] c big = ok (heap, c', t)
     \<and> sie_stie (c_sie c') \<and> bit (c_sstatus c') 1"
  using traps_init_readies_shim [OF big_core] by blast

end
