(* ===== verification/Smp_Properties.thy ===== *)
theory Smp_Properties
  imports Smp Table_Copy Core_Properties
begin

text \<open>
  The properties of starting the other cores (Smp), and the machine of Large_Example on which the
  boot processor prepares two of them.
\<close>

section \<open>Preparing cores on the example\<close>

text \<open>The pages of the image with the heap and with the thread-local data.\<close>

definition image_pages :: "u64 set" where
  "image_pages = {0x80001000, 0x80005000}"

definition boot_ready :: "machine \<Rightarrow> u64 \<Rightarrow> nat \<Rightarrow> bool" where
  "boot_ready s b n \<longleftrightarrow>
     fl_inv s (frames_from b n) \<and> pt_inv s 3 [[] \<mapsto> 0x80000000] (frames_from b n)
     \<and> current_table s = 0x80000000 \<and> depth s = 3 \<and> mem s 0 = None
     \<and> (\<forall>x \<in> image_pages. frame_ok s x \<and> x \<notin> set (frames_from b n))"

lemma upper_tables_root: "upper_tables L [[] \<mapsto> r] = 1"
  using upper_tables_card [of "[[] \<mapsto> r]" L] by (simp add: upper_tables_def)

lemma boot_ready_prepare:
  assumes ready: "boot_ready s b n" and n: "0x82 < n"
  shows "\<exists>t m. new_with_upperhalf s = ok (b, t) \<and> claim_continuous t 0x80 = ok (Inr (b + 0x1000, m))
    \<and> boot_ready m (b + 0x81000) (n - 0x81)"
proof -
  let ?T = "[[] \<mapsto> 0x80000000] :: nat list \<rightharpoonup> u64"
  have s: "fl_inv s (frames_from b n)" "pt_inv s 3 ?T (frames_from b n)" "?T [] = Some (current_table s)"
    "upper_tables 3 ?T < length (frames_from b n)"
    using ready n by (simp_all add: boot_ready_def upper_tables_root)
  have tail: "drop 1 (frames_from b n) = frames_from (b + 0x1000) (n - 1)"
    using drop_frames_from [of 1 n b] n by simp
  obtain t where t: "new_with_upperhalf s = ok (b, t)" "fl_inv t (frames_from (b + 0x1000) (n - 1))"
    "pt_inv t 3 ?T (frames_from (b + 0x1000) (n - 1))" "changes_only (set (frames_from b n)) s t"
    using upper_half_copy [OF s] n unfolding upper_tables_root tail by (auto simp: hd_frames_from)
  have null: "mem t 0 = None"
    using changes_only_null [OF t(4)] ready by (simp add: boot_ready_def)
  have rest: "without_run 0x80 0 (frames_from (b + 0x1000) (n - 1)) = frames_from (b + 0x81000) (n - 0x81)"
    using without_run_front [of "0x80" "n - 1" "b + 0x1000"] n by (simp add: add.assoc)
  have first: "first_run (unat (0x80 :: u64)) 0 (frames_from (b + 0x1000) (n - 1)) = Some 0"
    using first_run_front [of "0x80" "n - 1"] n by simp
  have long: "0x80 < n - 1" using n by simp
  obtain m where m: "claim_continuous t 0x80 = ok (Inr (b + 0x1000, m))" "fl_inv m (frames_from (b + 0x81000) (n - 0x81))"
    "changes_only (set (frames_from (b + 0x81000) (n - 0x81))) t m"
    using claim_run_list [OF t(2) null _ first] long rest by auto
  have "set (frames_from (b + 0x81000) (n - 0x81)) \<subseteq> set (frames_from b n)"
    using drop_frames_from [of "0x81" n b] n set_drop_subset [of "0x81" "frames_from b n"] by simp
  then have image: "\<forall>x \<in> image_pages. x \<notin> set (frames_from (b + 0x81000) (n - 0x81))"
    using ready by (auto simp: boot_ready_def)
  have sub: "set (frames_from (b + 0x81000) (n - 0x81)) \<subseteq> set (frames_from (b + 0x1000) (n - 1))"
    using rest by (metis (no_types, lifting) fl_inv_def t(2) without_run_parts(1))
  then have frames: "\<forall>x \<in> set (frames_from (b + 0x81000) (n - 0x81)). page_aligned x \<and> x \<notin> ran ?T"
    using pt_inv_table [OF t(3), of "[]"] fl_inv_frame_ok [OF t(2)] by (auto simp: ran_def)
  then have "set (frames_from (b + 0x81000) (n - 0x81)) \<inter> ran ?T = {}" by blast
  from pt_inv_elsewhere(1) [OF t(3) m(3) frames this] m(2) changes_only_null [OF m(3) null]
    changes_only_current [OF t(4)] changes_only_current [OF m(3)] ready
    changes_only_frame_ok [OF t(4)] changes_only_frame_ok [OF m(3)] image
  have "boot_ready m (b + 0x81000) (n - 0x81)" by (simp add: boot_ready_def)
  with t(1) m(1) show ?thesis by blast
qed

lemma big_ready: "boot_ready big 0x80008000 4088"
proof -
  have c: "current_table big = 0x80000000" by (simp add: current_table_def satp_get_ppn_def bf_get_def)
  have zero: "mem big (slot 0x80000000 i) = Some 0" if "i < 512" for i
  proof (rule big_low_mem)
    have "unat (slot 0x80000000 i) = 0x80000000 + 8 * i" using unat_slot [of "0x80000000" i] that by (simp add: page_aligned_def)
    with that show "0x80000000 \<le> slot 0x80000000 i" "slot 0x80000000 i < 0x80008000"
      by (simp_all add: word_le_nat_alt word_less_nat_alt)
  qed
  have ok: "frame_ok big 0x80000000"
    using big_frame [of "0x80000000"] changes_only_frame_ok [OF big_boots(3)] by (simp add: page_aligned_def)
  have "0x80000000 \<notin> set big_frames"
  proof
    assume "0x80000000 \<in> set big_frames"
    then obtain k where k: "0x80000000 = (0x80008000 + 0x1000 * of_nat k :: u64)" "k < 4088"
      by (auto simp: big_frames_def frames_from_def)
    from unat_big_frame [OF k(2)] show False unfolding k(1) [symmetric] by simp
  qed
  then have "pt_inv big 3 [[] \<mapsto> 0x80000000] big_frames"
    by (intro pt_invI) (use ok zero in \<open>auto simp: entry_ok_def page_aligned_def split: if_splits\<close>)
  moreover have "\<forall>x \<in> image_pages. frame_ok big x \<and> x \<notin> set big_frames"
  proof
    fix x assume x: "x \<in> image_pages"
    then have "page_aligned x" "0x80000000 \<le> x" "x < 0x81000000" by (auto simp: image_pages_def page_aligned_def)
    then have "frame_ok big_cold x" by (rule big_frame)
    then have "frame_ok big x" by (simp only: changes_only_frame_ok [OF big_boots(3)])
    moreover have "slot x 0 < 0x80008000" using x by (auto simp: image_pages_def slot_0)
    from big_low [OF this] have "x \<notin> set big_frames" using slot_in_page [of 0 x] by auto
    ultimately show "frame_ok big x \<and> x \<notin> set big_frames" ..
  qed
  moreover have "mem big 0 = None" "depth big = 3" by (simp_all add: big_mem_dom)
  ultimately show ?thesis using big_boots(2) c unfolding boot_ready_def big_frames_def by blast
qed

section \<open>Runs\<close>

lemma smp_steps_trans: "smp_steps e t u \<Longrightarrow> smp_steps e s t \<Longrightarrow> smp_steps e s u"
  by (induction rule: smp_steps.induct) (auto intro: smp_steps.step)

lemma boot_run: "bsp_step e s = Some t \<Longrightarrow> smp_steps e t u \<Longrightarrow> smp_steps e s u"
  by (rule smp_steps_trans, assumption) (auto intro: smp_steps.intros smp_step.boot)

lemma core_run: "hart_step e h s = Some t \<Longrightarrow> smp_steps e t u \<Longrightarrow> smp_steps e s u"
  by (rule smp_steps_trans, assumption) (auto intro: smp_steps.intros smp_step.core)

text \<open>The boot processor prepares and starts a core.\<close>

definition prepared :: "usize \<Rightarrow> u64 \<Rightarrow> u64 \<Rightarrow> machine \<Rightarrow> smp \<Rightarrow> smp" where
  "prepared h w p m s =
     s\<lparr>sm_mach := m, sm_cpus := tl (sm_cpus s), sm_init := (sm_init s)\<lparr>ci_satp := w, ci_sp := p\<rparr>,
       sm_harts := (sm_harts s)(h := Entered), sm_given := (sm_given s)(h \<mapsto> (w, p)), sm_bsp := Await_claim\<rparr>"

lemma prepare_run:
  assumes "sm_bsp s = At_loop" "sm_cpus s = h # hs" "h \<noteq> bsp_hart e" "sm_harts s h = Parked"
    and "new_with_upperhalf (sm_mach s) = ok (t, m)" "claim_continuous m 0x80 = ok (Inr (p, m'))"
  shows "smp_steps e s (prepared h (core_satp m t) p m' s)"
proof (rule boot_run)
  let ?s1 = "s\<lparr>sm_mach := m, sm_cpus := hs, sm_bsp := Store_satp h (core_satp m t)\<rparr>"
  show "bsp_step e s = Some ?s1" using assms by (simp add: bsp_step_def)
  let ?s2 = "?s1\<lparr>sm_init := (sm_init s)\<lparr>ci_satp := core_satp m t\<rparr>, sm_bsp := Claim_stack h\<rparr>"
  let ?s3 = "?s2\<lparr>sm_mach := m', sm_bsp := Store_sp h p\<rparr>"
  let ?s4 = "?s3\<lparr>sm_init := (sm_init ?s3)\<lparr>ci_sp := p\<rparr>, sm_bsp := Start_core h\<rparr>"
  have "smp_steps e ?s4 (prepared h (core_satp m t) p m' s)"
    by (rule boot_run [OF _ smp_steps.refl]) (use assms in \<open>simp add: bsp_step_def prepared_def\<close>)
  then have "smp_steps e ?s3 (prepared h (core_satp m t) p m' s)"
    by (rule boot_run [rotated]) (simp add: bsp_step_def)
  then have "smp_steps e ?s2 (prepared h (core_satp m t) p m' s)"
    by (rule boot_run [rotated]) (use assms in \<open>simp add: bsp_step_def\<close>)
  then show "smp_steps e ?s1 (prepared h (core_satp m t) p m' s)"
    by (rule boot_run [rotated]) (simp add: bsp_step_def)
qed

text \<open>It goes on when \<open>claimed\<close> is set.\<close>

lemma claimed_run:
  assumes "sm_bsp s = Await_claim" "ci_claimed (sm_init s)"
  shows "smp_steps e s (s\<lparr>sm_init := (sm_init s)\<lparr>ci_claimed := True\<rparr>, sm_bsp := At_loop\<rparr>)"
proof (rule boot_run)
  let ?t = "s\<lparr>sm_bsp := Claim_again\<rparr>"
  show "bsp_step e s = Some ?t" using assms by (simp add: bsp_step_def)
  have "bsp_step e ?t = Some (s\<lparr>sm_init := (sm_init s)\<lparr>ci_claimed := True\<rparr>, sm_bsp := At_loop\<rparr>)"
    by (simp add: bsp_step_def)
  then show "smp_steps e ?t (s\<lparr>sm_init := (sm_init s)\<lparr>ci_claimed := True\<rparr>, sm_bsp := At_loop\<rparr>)"
    by (rule boot_run [OF _ smp_steps.refl])
qed

text \<open>A core reads \<open>CORE_INIT\<close>.\<close>

definition entered_core :: "smp_env \<Rightarrow> core_init \<Rightarrow> core" where
  "entered_core e i = (reset_core e)\<lparr>c_satp := ci_satp i, c_sp := ci_sp i, c_gp := global_pointer e\<rparr>"

lemma enter_run:
  assumes "sm_harts s h = Entered"
  shows "smp_steps e s (hart_goes h (Setup (entered_core e (sm_init s))) s)"
proof (rule core_run)
  let ?t = "hart_goes h (Has_satp (ci_satp (sm_init s))) s"
  show "hart_step e h s = Some ?t" using assms by (simp add: hart_step_def)
  have "hart_step e h ?t = Some (hart_goes h (Setup (entered_core e (sm_init s))) s)"
    by (simp add: hart_step_def hart_goes_def entered_core_def)
  then show "smp_steps e ?t (hart_goes h (Setup (entered_core e (sm_init s))) s)"
    by (rule core_run [OF _ smp_steps.refl])
qed

section \<open>What stays set\<close>

text \<open>Once a core was started, \<open>claimed\<close> is set whenever the boot processor is not waiting for it; and
  the cores it has yet to start are parked.\<close>

definition claimed_inv :: "smp \<Rightarrow> bool" where
  "claimed_inv s \<longleftrightarrow>
     distinct (sm_cpus s) \<and> (\<forall>h \<in> set (sm_cpus s). sm_harts s h = Parked)
     \<and> (\<forall>h. preparing (sm_bsp s) = Some h \<longrightarrow> h \<notin> set (sm_cpus s))
     \<and> (sm_bsp s = Claim_again \<longrightarrow> ci_claimed (sm_init s))
     \<and> ((\<exists>h. sm_given s h \<noteq> None) \<longrightarrow> sm_bsp s \<noteq> Await_claim \<longrightarrow> sm_bsp s \<noteq> Bsp_dead \<longrightarrow> ci_claimed (sm_init s))"

lemma claimed_inv_bsp: "claimed_inv s \<Longrightarrow> bsp_step e s = Some s' \<Longrightarrow> claimed_inv s'"
  by (cases "sm_bsp s")
    (auto simp: bsp_step_def claimed_inv_def split: list.splits option.splits sum.splits if_splits)

lemma claimed_inv_move:
  assumes "claimed_inv s" "sm_harts s h \<noteq> Parked" "sm_given t = sm_given s" "sm_cpus t = sm_cpus s" "sm_bsp t = sm_bsp s"
    and "ci_claimed (sm_init s) \<longrightarrow> ci_claimed (sm_init t)" "sm_harts t = (sm_harts s)(h := pc)"
  shows "claimed_inv t"
  using assms by (auto simp: claimed_inv_def)

lemma claimed_inv_hart: "claimed_inv s \<Longrightarrow> hart_step e h s = Some s' \<Longrightarrow> claimed_inv s'"
  by (cases "sm_harts s h")
    (auto simp: hart_step_def hart_goes_def elim!: claimed_inv_move split: option.splits sum.splits)

lemma claimed_inv_steps: "smp_steps e s s' \<Longrightarrow> claimed_inv s \<Longrightarrow> claimed_inv s'"
  by (induction rule: smp_steps.induct) (auto elim!: smp_stepE dest: claimed_inv_bsp claimed_inv_hart)

section \<open>Properties\<close>

text \<open>C31. With at most two cores to start, a core runs with the address space and the stack that were
  prepared for it, however the cores and the boot processor interleave: the values it read from
  \<open>CORE_INIT\<close> are those stored there when it was started.\<close>

theorem core_starts_with_its_stack:
  assumes "distinct cpus" "length (filter (\<lambda>h. h \<noteq> bsp_hart e) cpus) \<le> 2"
    and "smp_steps e (smp_start m heap cpus) s" "started_with (sm_harts s h) = Some v"
  shows "sm_given s h = Some v"
proof -
  have "given_inv e (smp_start m heap cpus)"
    using assms(1,2) by (simp add: given_inv_def smp_start_def cores_left_def)
  from given_inv_steps [OF assms(3) this] assms(4) show ?thesis using given_started by blast
qed

text \<open>C32. With a third core to start this fails: \<open>claimed\<close> stays set after the first core has reported,
  so the boot processor does not wait for the second one and stores the values of the third one
  over those the second has yet to read. From every state reached from the start in which a core has
  been started, the boot processor is back at its loop and two more cores are listed, and the frames
  for both are there, a run of the two and of the boot processor leads on to a state in which both
  have the one stack and the one root table prepared for the third.\<close>

theorem late_core_shares_a_stack:
  assumes "distinct cpus" "smp_steps e (smp_start m heap cpus) s"
    and "sm_bsp s = At_loop" "sm_given s h1 \<noteq> None"
    and "sm_cpus s = h2 # h3 # hs" "h2 \<noteq> bsp_hart e" "h3 \<noteq> bsp_hart e"
    and "new_with_upperhalf (sm_mach s) = ok (t2, m1)" "claim_continuous m1 0x80 = ok (Inr (p2, m2))"
    and "new_with_upperhalf m2 = ok (t3, m3)" "claim_continuous m3 0x80 = ok (Inr (p3, m4))"
  shows "\<exists>s' c. smp_steps e (smp_start m heap cpus) s' \<and> sm_harts s' h2 = Setup c \<and> sm_harts s' h3 = Setup c
    \<and> c_sp c = p3 \<and> c_satp c = core_satp m3 t3
    \<and> sm_given s' h2 = Some (core_satp m1 t2, p2) \<and> sm_given s' h3 = Some (core_satp m3 t3, p3)"
proof -
  have "claimed_inv (smp_start m heap cpus)" using assms(1) by (simp add: claimed_inv_def smp_start_def)
  then have inv: "claimed_inv s" by (rule claimed_inv_steps [OF assms(2)])
  then have claimed: "ci_claimed (sm_init s)" using assms(3,4) by (auto simp: claimed_inv_def)
  have harts: "sm_harts s h2 = Parked" "sm_harts s h3 = Parked" "h2 \<noteq> h3" using inv assms(5) by (auto simp: claimed_inv_def)
  let ?s1 = "prepared h2 (core_satp m1 t2) p2 m2 s"
  let ?s2 = "?s1\<lparr>sm_init := (sm_init ?s1)\<lparr>ci_claimed := True\<rparr>, sm_bsp := At_loop\<rparr>"
  let ?s3 = "prepared h3 (core_satp m3 t3) p3 m4 ?s2" and ?c = "entered_core e (sm_init (prepared h3 (core_satp m3 t3) p3 m4 ?s2))"
  let ?s4 = "hart_goes h2 (Setup ?c) ?s3"
  let ?s5 = "hart_goes h3 (Setup ?c) ?s4"
  have "smp_steps e s ?s1" by (rule prepare_run) (use assms harts in auto)
  moreover have "smp_steps e ?s1 ?s2"
    by (rule claimed_run) (use claimed in \<open>simp_all add: prepared_def\<close>)
  moreover have "smp_steps e ?s2 ?s3"
    by (rule prepare_run [of _ _ hs]) (use assms harts in \<open>auto simp: prepared_def\<close>)
  moreover have "smp_steps e ?s3 ?s4"
    by (rule enter_run) (use harts in \<open>simp add: prepared_def\<close>)
  moreover have "smp_steps e ?s4 ?s5"
  proof -
    have 1: "sm_harts ?s4 h3 = Entered" "sm_init ?s4 = sm_init ?s3" using harts by (auto simp: prepared_def hart_goes_def)
    from enter_run [OF 1(1)] show ?thesis unfolding 1(2) .
  qed
  ultimately have "smp_steps e (smp_start m heap cpus) ?s5" by (blast intro: smp_steps_trans assms(2))
  moreover have "sm_harts ?s5 h2 = Setup ?c" "sm_harts ?s5 h3 = Setup ?c" using harts by (simp_all add: hart_goes_def)
  moreover have "c_sp ?c = p3" "c_satp ?c = core_satp m3 t3" by (simp_all add: entered_core_def prepared_def)
  moreover have "sm_given ?s5 h2 = Some (core_satp m1 t2, p2)" "sm_given ?s5 h3 = Some (core_satp m3 t3, p3)"
    using harts by (simp_all add: hart_goes_def prepared_def)
  ultimately show ?thesis by blast
qed

section \<open>On the example\<close>

definition big_env :: smp_env where
  "big_env = \<lparr>bsp_hart = 0, tdata_from = 0x80005000, tdata_to = 0x80005064, global_pointer = 0xfffffffa8000dea8,
     reset_core = \<lparr>c_sp = 0, c_tp = 0, c_gp = 0, c_satp = 0, c_sscratch = 0, c_sstatus = 0, c_sie = 0\<rparr>\<rparr>"

theorem core_starts_with_its_stack_witness:
  "\<exists>s c. smp_steps big_env (smp_start big [] [1, 0]) s \<and> sm_harts s 1 = Setup c
     \<and> sm_given s 1 = Some (c_satp c, c_sp c) \<and> c_sp c = 0x80009000"
proof -
  obtain t m where t: "new_with_upperhalf big = ok (0x80008000, t)" "claim_continuous t 0x80 = ok (Inr (0x80009000, m))"
    using boot_ready_prepare [OF big_ready] by auto
  let ?s = "smp_start big [] [1, 0]" and ?w = "core_satp t 0x80008000"
  let ?s1 = "prepared 1 ?w 0x80009000 m ?s" and ?c = "entered_core big_env (sm_init (prepared 1 ?w 0x80009000 m ?s))"
  have "smp_steps big_env ?s ?s1" by (rule prepare_run) (use t in \<open>simp_all add: smp_start_def big_env_def\<close>)
  moreover have "smp_steps big_env ?s1 (hart_goes 1 (Setup ?c) ?s1)" by (rule enter_run) (simp add: prepared_def)
  ultimately have run: "smp_steps big_env ?s (hart_goes 1 (Setup ?c) ?s1)" by (blast intro: smp_steps_trans)
  have pc: "sm_harts (hart_goes 1 (Setup ?c) ?s1) 1 = Setup ?c" by (simp add: hart_goes_def)
  then have "started_with (sm_harts (hart_goes 1 (Setup ?c) ?s1) 1) = Some (c_satp ?c, c_sp ?c)" by simp
  from core_starts_with_its_stack [OF _ _ run this]
  have "sm_given (hart_goes 1 (Setup ?c) ?s1) 1 = Some (c_satp ?c, c_sp ?c)" by (simp add: big_env_def)
  moreover have "c_sp ?c = 0x80009000" by (simp add: entered_core_def prepared_def)
  ultimately show ?thesis using run pc by blast
qed

text \<open>The set-up of a core on the example: its thread-local data, of 100 bytes, and its interrupt stack.\<close>

lemma boot_ready_keeps:
  assumes ready: "boot_ready s b n" and k: "k < n" and ch: "changes_only F s t"
    and F: "\<forall>x \<in> F. page_aligned x \<and> x \<noteq> 0x80000000"
    and fl: "fl_inv t (frames_from (b + 0x1000 * of_nat k) (n - k))"
  shows "boot_ready t (b + 0x1000 * of_nat k) (n - k)"
proof -
  let ?T = "[[] \<mapsto> 0x80000000] :: nat list \<rightharpoonup> u64"
  have sub: "set (frames_from (b + 0x1000 * of_nat k) (n - k)) \<subseteq> set (frames_from b n)"
    using drop_frames_from [of k n b] k set_drop_subset [of k "frames_from b n"] by simp
  have pt: "pt_inv s 3 ?T (frames_from b n)" using ready by (simp add: boot_ready_def)
  have "0x80000000 \<notin> set (frames_from b n)" using pt_inv_table [OF pt, of "[]"] by simp
  then have "set (frames_from (b + 0x1000 * of_nat k) (n - k)) \<inter> ran ?T = {}" using sub by (auto simp: ran_def)
  moreover have "\<forall>x \<in> F. page_aligned x \<and> x \<notin> ran ?T" using F by (auto simp: ran_def)
  ultimately have "pt_inv t 3 ?T (frames_from (b + 0x1000 * of_nat k) (n - k))" using pt_inv_elsewhere(1) [OF pt ch] by blast
  moreover have "\<forall>x \<in> image_pages. frame_ok t x \<and> x \<notin> set (frames_from (b + 0x1000 * of_nat k) (n - k))"
    using ready sub by (auto simp: boot_ready_def changes_only_frame_ok [OF ch])
  moreover have "mem t 0 = None" by (rule changes_only_null [OF ch]) (use ready in \<open>simp add: boot_ready_def\<close>)
  moreover have "current_table t = 0x80000000" "depth t = 3"
    using ready changes_only_current [OF ch] by (simp_all add: boot_ready_def)
  ultimately show ?thesis using fl by (simp add: boot_ready_def)
qed

lemma boot_ready_frames:
  assumes "boot_ready s b n"
  shows "fl_inv s (frames_from b n)" "mem s 0 = None" "\<forall>x \<in> set (frames_from b n). page_aligned x \<and> x \<noteq> 0x80000000"
proof -
  show fl: "fl_inv s (frames_from b n)" and "mem s 0 = None" using assms by (simp_all add: boot_ready_def)
  have "pt_inv s 3 [[] \<mapsto> 0x80000000] (frames_from b n)" using assms by (simp add: boot_ready_def)
  then have "0x80000000 \<notin> set (frames_from b n)" using pt_inv_table [of s 3 "[[] \<mapsto> 0x80000000]" _ "[]"] by simp
  then show "\<forall>x \<in> set (frames_from b n). page_aligned x \<and> x \<noteq> 0x80000000"
    using fl_inv_frame_ok [OF fl] by auto
qed

lemma image_byte:
  assumes "boot_ready s b n" "x \<in> image_pages" "j < 4096"
  shows "outside_frames (frames_from b n) (x + of_nat j)" "\<exists>v. rd_byte s (x + of_nat j) = ok v"
proof -
  have x: "frame_ok s x" "x \<notin> set (frames_from b n)" using assms(1,2) by (auto simp: boot_ready_def)
  have c: "byte_cell (x + of_nat j) = slot x (j div 8)" by (rule byte_in_page) (use x assms(3) in auto)
  have j: "j div 8 < 512" using assms(3) by (simp add: less_mult_imp_div_less)
  have "slot x (j div 8) \<notin> page_cells y" if "y \<in> set (frames_from b n)" for y
    using slot_not_in_page [of x y "j div 8"] x boot_ready_frames(3) [OF assms(1)] that j by auto
  then show "outside_frames (frames_from b n) (x + of_nat j)" unfolding outside_frames_def c by blast
  from frame_ok_mapped [OF x(1) j] show "\<exists>v. rd_byte s (x + of_nat j) = ok v" by (auto simp: rd_byte_def rd_def c)
qed

lemma boot_ready_tls:
  assumes "boot_ready s b n" "1 < n"
  shows "\<exists>t. init_tls 0x80005000 0x80005064 c s = ok (c\<lparr>c_tp := b\<rparr>, t) \<and> boot_ready t (b + 0x1000) (n - 1)"
proof -
  have sz: "unat (0x80005064 - 0x80005000 :: u64) = 100" "pages 100 = 1" by (simp_all add: pages_def)
  have run: "claims_run s (frames_from b n) (0x80005064 - 0x80005000) 0"
    using boot_ready_frames [OF assms(1)] first_run_front [of 1 n b] assms(2) by (simp add: claims_run_def sz)
  have "0x80005000 \<in> image_pages" by (simp add: image_pages_def)
  from image_byte [OF assms(1) this]
  have "\<forall>j < 100. outside_frames (frames_from b n) (0x80005000 + of_nat j) \<and> (\<exists>v. rd_byte s (0x80005000 + of_nat j) = ok v)"
    by auto
  then obtain data where "\<forall>j < unat (0x80005064 - 0x80005000 :: u64). outside_frames (frames_from b n) (0x80005000 + of_nat j)
      \<and> rd_byte s (0x80005000 + of_nat j) = ok (data j)" unfolding sz by metis
  from tls_is_a_copy [OF run this, of c] obtain t where t: "init_tls 0x80005000 0x80005064 c s = ok (c\<lparr>c_tp := frames_from b n ! 0\<rparr>, t)"
    "fl_inv t (without_run 1 0 (frames_from b n))" "changes_only (set (frames_from b n)) s t" by (auto simp: sz)
  have "frames_from b n ! 0 = b" using assms(2) by (simp add: frames_from_def)
  moreover have "boot_ready t (b + 0x1000 * of_nat 1) (n - 1)"
    using t(2) without_run_front [of 1 n b] assms(2)
    by (intro boot_ready_keeps [OF assms t(3) boot_ready_frames(3) [OF assms(1)]]) simp
  ultimately show ?thesis using t(1) by auto
qed

lemma heap_block:
  "heap_alloc [\<lparr>start_addr = 0x80001008, node_size = 0x4000\<rparr>] sscratch_layout
    = ok (0x80001008, [\<lparr>start_addr = 0x80001028, node_size = 0x3fe0\<rparr>])"
  by code_simp

lemma boot_ready_traps:
  assumes "boot_ready s b n" "32 < n"
  shows "\<exists>heap c' t. traps_init [\<lparr>start_addr = 0x80001008, node_size = 0x4000\<rparr>] c s = ok (heap, c', t)
    \<and> boot_ready t (b + 0x20000) (n - 32)"
proof -
  have rest: "without_run 32 0 (frames_from b n) = frames_from (b + 0x1000 * of_nat 32) (n - 32)"
    using without_run_front [of 32 n b] assms(2) by simp
  obtain u where u: "claim_continuous s 0x20 = ok (Inr (frames_from b n ! 0, u))"
    "fl_inv u (frames_from (b + 0x1000 * of_nat 32) (n - 32))"
    "changes_only (set (frames_from (b + 0x1000 * of_nat 32) (n - 32))) s u"
    using claim_run_list [OF boot_ready_frames(1,2) [OF assms(1)], of "0x20" 0] first_run_front [of 32 n b] assms(2) rest
    by auto
  have "set (frames_from (b + 0x1000 * of_nat 32) (n - 32)) \<subseteq> set (frames_from b n)"
    using drop_frames_from [of 32 n b] assms(2) set_drop_subset [of 32 "frames_from b n"] by simp
  then have F: "\<forall>x \<in> set (frames_from (b + 0x1000 * of_nat 32) (n - 32)). page_aligned x \<and> x \<noteq> 0x80000000"
    using boot_ready_frames(3) [OF assms(1)] by blast
  have r: "boot_ready u (b + 0x1000 * of_nat 32) (n - 32)" by (rule boot_ready_keeps [OF assms u(3) F u(2)])
  have x: "frame_ok u 0x80001000" "0x80001000 \<notin> set (frames_from (b + 0x1000 * of_nat 32) (n - 32))"
    using r by (simp_all add: boot_ready_def image_pages_def)
  have c: "cell 0x80001008 k = slot 0x80001000 (Suc k)" for k by (simp add: cell_def slot_def algebra_simps)
  have "mem u (cell 0x80001008 k) \<noteq> None" if "k < 4" for k
    using frame_ok_mapped [OF x(1), of "Suc k"] that unfolding c by auto
  from traps_init_stores [OF heap_block u(1) this, of c]
  obtain heap c' t where t: "traps_init [\<lparr>start_addr = 0x80001008, node_size = 0x4000\<rparr>] c s = ok (heap, c', t)"
    "t = u\<lparr>mem := scratch_mem (mem u) 0x80001008 (frames_from b n ! 0) (c_tp c) (c_gp c)\<rparr>" by blast
  have step: "changes_only {0x80001000} u (v\<lparr>mem := (mem v)(slot 0x80001000 j \<mapsto> w)\<rparr>)"
    if v: "changes_only {0x80001000} u v" and j: "j < 512" for v j w
  proof -
    have "frame_ok v 0x80001000" using x(1) by (simp only: changes_only_frame_ok [OF v])
    from changes_only_set_cell [OF this j] show ?thesis by (rule changes_only_trans [OF v])
  qed
  let ?w = "frames_from b n ! 0"
  have "changes_only {0x80001000} u (u\<lparr>mem := (mem u)(slot 0x80001000 1 \<mapsto> ?w + 0x20000,
      slot 0x80001000 2 \<mapsto> c_tp c, slot 0x80001000 3 \<mapsto> c_gp c)\<rparr>)"
    using step [OF step [OF step [OF changes_only_refl]], of 1 2 3 "?w + 0x20000" "c_tp c" "c_gp c"] by simp
  then have ch: "changes_only {0x80001000} u t" by (simp add: t(2) scratch_mem_def c eval_nat_numeral)
  have "fl_inv t (frames_from (b + 0x1000 * of_nat 32) (n - 32))"
    by (rule fl_inv_elsewhere [OF u(2) ch]) (use x t(2) in auto)
  then have "boot_ready t (b + 0x1000 * of_nat 32 + 0x1000 * of_nat 0) (n - 32 - 0)"
    using x(1) assms(2) by (intro boot_ready_keeps [OF r _ ch]) auto
  then show ?thesis using t(1) by simp
qed

section \<open>Three cores on the example\<close>

text \<open>A core that has read \<open>CORE_INIT\<close> goes on to its idle loop.\<close>

lemma setup_run:
  assumes "sm_harts s h = Setup c" "init_tls (tdata_from e) (tdata_to e) c (sm_mach s) = ok (c1, m1)"
    and "traps_init (sm_heap s) c1 m1 = ok (heap, c2, m2)"
  shows "smp_steps e s (hart_goes h (Running c2) (s\<lparr>sm_mach := m2, sm_heap := heap,
    sm_init := (sm_init s)\<lparr>ci_claimed := True\<rparr>\<rparr>))"
proof (rule core_run [where h = h])
  let ?s1 = "hart_goes h (Traps c1) (s\<lparr>sm_mach := m1\<rparr>)"
  let ?s2 = "hart_goes h (Report c2) (s\<lparr>sm_mach := m2, sm_heap := heap\<rparr>)"
  let ?s3 = "hart_goes h (Running c2) (s\<lparr>sm_mach := m2, sm_heap := heap, sm_init := (sm_init s)\<lparr>ci_claimed := True\<rparr>\<rparr>)"
  show "hart_step e h s = Some ?s1" using assms(1,2) by (simp add: hart_step_def)
  have "smp_steps e ?s2 ?s3" by (rule core_run [where h = h, OF _ smp_steps.refl]) (simp add: hart_step_def hart_goes_def)
  then show "smp_steps e ?s1 ?s3"
    by (rule core_run [where h = h, rotated]) (use assms(3) in \<open>simp add: hart_step_def hart_goes_def\<close>)
qed

text \<open>The boot processor starts core 1, which runs to its idle loop, and is back at its loop.\<close>

definition one_node :: "list_node list" where
  "one_node = [\<lparr>start_addr = 0x80001008, node_size = 0x4000\<rparr>]"

lemma first_core_runs:
  "\<exists>s. smp_steps big_env (smp_start big one_node [1, 2, 3]) s \<and> sm_bsp s = At_loop \<and> sm_cpus s = [2, 3]
    \<and> sm_given s 1 \<noteq> None \<and> boot_ready (sm_mach s) 0x800aa000 3926"
proof -
  obtain t m where t: "new_with_upperhalf big = ok (0x80008000, t)" "claim_continuous t 0x80 = ok (Inr (0x80009000, m))"
    "boot_ready m 0x80089000 3959"
    using boot_ready_prepare [OF big_ready] by auto
  let ?s = "smp_start big one_node [1, 2, 3]" and ?w = "core_satp t 0x80008000"
  let ?s1 = "prepared 1 ?w 0x80009000 m ?s" and ?c = "entered_core big_env (sm_init (prepared 1 ?w 0x80009000 m ?s))"
  let ?s2 = "hart_goes 1 (Setup ?c) ?s1"
  obtain m1 where m1: "init_tls 0x80005000 0x80005064 ?c m = ok (?c\<lparr>c_tp := 0x80089000\<rparr>, m1)" "boot_ready m1 0x8008a000 3958"
    using boot_ready_tls [OF t(3), of ?c] by auto
  obtain heap c2 m2 where m2: "traps_init one_node (?c\<lparr>c_tp := 0x80089000\<rparr>) m1 = ok (heap, c2, m2)" "boot_ready m2 0x800aa000 3926"
    using boot_ready_traps [OF m1(2), of "?c\<lparr>c_tp := 0x80089000\<rparr>"] by (auto simp: one_node_def)
  let ?s3 = "hart_goes 1 (Running c2) (?s2\<lparr>sm_mach := m2, sm_heap := heap, sm_init := (sm_init ?s2)\<lparr>ci_claimed := True\<rparr>\<rparr>)"
  let ?s4 = "?s3\<lparr>sm_init := (sm_init ?s3)\<lparr>ci_claimed := True\<rparr>, sm_bsp := At_loop\<rparr>"
  have "smp_steps big_env ?s ?s1" by (rule prepare_run) (use t in \<open>simp_all add: smp_start_def big_env_def\<close>)
  moreover have "smp_steps big_env ?s1 ?s2" by (rule enter_run) (simp add: prepared_def)
  moreover have "smp_steps big_env ?s2 ?s3"
    by (rule setup_run) (use m1(1) m2(1) in \<open>simp_all add: hart_goes_def prepared_def smp_start_def big_env_def\<close>)
  moreover have "smp_steps big_env ?s3 ?s4"
    by (rule claimed_run) (simp_all add: hart_goes_def prepared_def)
  ultimately have "smp_steps big_env ?s ?s4" by (blast intro: smp_steps_trans)
  moreover have "sm_bsp ?s4 = At_loop" "sm_cpus ?s4 = [2, 3]" "sm_given ?s4 1 \<noteq> None" "sm_mach ?s4 = m2"
    by (simp_all add: hart_goes_def prepared_def smp_start_def)
  ultimately show ?thesis using m2(2) by metis
qed

theorem late_core_shares_a_stack_witness:
  "\<exists>s c w. smp_steps big_env (smp_start big one_node [1, 2, 3]) s \<and> sm_harts s 2 = Setup c \<and> sm_harts s 3 = Setup c
     \<and> c_sp c = 0x8012c000 \<and> sm_given s 2 = Some (w, 0x800ab000)"
proof -
  obtain s where s: "smp_steps big_env (smp_start big one_node [1, 2, 3]) s" "sm_bsp s = At_loop" "sm_given s 1 \<noteq> None"
    "sm_cpus s = [2, 3]" "boot_ready (sm_mach s) 0x800aa000 3926"
    using first_core_runs by auto
  obtain m1 m2 where 1: "new_with_upperhalf (sm_mach s) = ok (0x800aa000, m1)"
    "claim_continuous m1 0x80 = ok (Inr (0x800ab000, m2))" "boot_ready m2 0x8012b000 3797"
    using boot_ready_prepare [OF s(5)] by auto
  obtain m3 m4 where 2: "new_with_upperhalf m2 = ok (0x8012b000, m3)"
    "claim_continuous m3 0x80 = ok (Inr (0x8012c000, m4))"
    using boot_ready_prepare [OF 1(3)] by auto
  have d: "distinct [1, 2, 3 :: usize]" "(2 :: usize) \<noteq> bsp_hart big_env" "(3 :: usize) \<noteq> bsp_hart big_env"
    by (simp_all add: big_env_def)
  from late_core_shares_a_stack [OF d(1) s(1-4) d(2,3) 1(1,2) 2] show ?thesis by blast
qed

end
