(* ===== verification/Copy_Properties.thy ===== *)
theory Copy_Properties
  imports Table_Copy Boot_Example
begin

text \<open>
  The properties of \<open>new_with_upperhalf\<close> (Table_Copy), which gives each new program and each core its
  root table, applied to the machine of Boot_Example after a page of the upper half was mapped.
\<close>

text \<open>C34. \<open>new_with_upperhalf\<close> returns a root of its own for the upper half of the running address space:
  with a free frame for it, for each table below the entries 256 to 511 and one to spare, the call
  returns the first free frame; every address of the upper half translates through it as through
  the running table, the frames taken are the first ones of the free list, and the running address
  space is as it was.\<close>

theorem upper_half_is_copied:
  assumes "fl_inv s xs" "pt_inv s (depth s) T xs" "T [] = Some (current_table s)"
    and "upper_tables (depth s) T < length xs"
  shows "\<exists>t. new_with_upperhalf s = ok (hd xs, t)
    \<and> fl_inv t (drop (upper_tables (depth s) T) xs) \<and> pt_inv t (depth s) T (drop (upper_tables (depth s) T) xs)
    \<and> (\<forall>v. walk_virt t (hd xs) v (load_level t) = virt_to_phys s v \<or> idx v (depth s) < 256)
    \<and> (\<forall>v. virt_to_phys t v = virt_to_phys s v)"
proof -
  let ?L = "depth s" and ?zs = "drop (upper_tables (depth s) T) xs"
  obtain t U where t: "new_with_upperhalf s = ok (hd xs, t)" "fl_inv t ?zs" "pt_inv t ?L T ?zs" "same_tables T s t"
    "changes_only (set xs) s t" "copy_of s T [] {256..<512} t U (hd xs)"
    using upper_half_copy [OF assms] by blast
  have L: "0 < ?L" "?L \<le> 5" using pt_inv_levels [OF assms(2)] by simp_all
  note cur = changes_only_current [OF t(5)]
  have "walk_virt t (hd xs) v (lv ?L) = walk_virt s (current_table s) v (lv ?L)" if "\<not> idx v ?L < 256" for v
  proof (rule copy_walk [OF assms(2) t(6)])
    show "idx v ?L \<in> {256..<512}" using that idx_less [OF L, of v] by simp
    show "U (path v ?L ?L) = Some (hd xs)" using copy_ofD(1) [OF t(6)] by simp
  qed (use cur L assms(3) in auto)
  then have "walk_virt t (hd xs) v (load_level t) = virt_to_phys s v \<or> idx v ?L < 256" for v
    using cur by (auto simp: virt_to_phys_def load_level_lv)
  moreover have "leaves t T = leaves s T"
    by (rule pt_inv_elsewhere(2) [OF assms(2) t(5)])
      (use pt_inv_table [OF assms(2)] fl_inv_frame_ok [OF assms(1)] in \<open>auto simp: ran_def\<close>)
  then have "virt_to_phys t v = virt_to_phys s v" for v
    using walk_xlate [OF t(3), of v ?L] walk_xlate [OF assms(2), of v ?L] assms(3) cur L
    by (simp add: virt_to_phys_def load_level_lv)
  ultimately show ?thesis using t(1,2,3) by blast
qed

text \<open>The machine with the page \<open>0xffffffc000000000\<close> mapped in two new tables.\<close>

lemma warm_upper:
  "\<exists>s T. vmm_map warm 0x80000000 0xffffffc000000000 0x200000 Level3 Level1 flag_READ = ok s
    \<and> fl_inv s (drop 2 ram_frames) \<and> pt_inv s 3 T (drop 2 ram_frames) \<and> T [] = Some 0x80000000
    \<and> leaves s T = [path 0xffffffc000000000 3 0 \<mapsto> leaf_entry 0x200000 flag_READ]
    \<and> upper_tables 3 T \<le> 3 \<and> changes_only (ran warm_tree \<union> set ram_frames) warm s"
proof -
  let ?v = "0xffffffc000000000"
  have paths: "path ?v 3 1 \<noteq> []" "path ?v 3 2 \<noteq> []" by simp_all
  have n: "missing warm_tree ?v 3 1 3 = 2" using paths by (simp add: missing_def upt_rec)
  have "\<exists>t T'. vmm_map warm 0x80000000 ?v 0x200000 (lv 3) (lv 1) flag_READ = ok t
    \<and> mapped_to warm 3 warm_tree ram_frames ?v 3 1 (leaf_entry 0x200000 flag_READ) t T'"
    by (rule map_walk [OF _ _ _ warm_tables(1) warm_boots(2)])
      (simp_all add: read_flags warm_tree_below warm_tables(2) n [simplified] ram_frames_distinct(2))
  then obtain s T where s: "vmm_map warm 0x80000000 ?v 0x200000 Level3 Level1 flag_READ = ok s"
    "mapped_to warm 3 warm_tree ram_frames ?v 3 1 (leaf_entry 0x200000 flag_READ) s T" by auto
  have dom: "dom T = insert [] (path ?v 3 ` {1..<3})" using s(2) by (simp add: mapped_to_def)
  have "T [] = Some 0x80000000" using s(2) by (auto simp: mapped_to_def map_le_def)
  moreover have "card (path ?v 3 ` {1..<3}) \<le> 2" using card_image_le [of "{1..<3}" "path ?v 3"] by simp
  then have "card (dom T) \<le> 3" unfolding dom by (simp add: card_insert_if)
  moreover have "finite (dom T)" unfolding dom by simp
  ultimately have "upper_tables 3 T \<le> 3" using upper_tables_card [of T 3] by (metis option.distinct(1) order_trans)
  moreover have "T [] = Some 0x80000000" using s(2) by (auto simp: mapped_to_def map_le_def)
  ultimately show ?thesis using s n by (auto simp: mapped_to_def warm_tables(2))
qed

lemma aligned_mask: "page_aligned d \<Longrightarrow> d AND NOT 0xfff = d"
proof -
  assume "page_aligned d"
  then have "d AND 0xfff = 0" by (simp add: page_aligned_def)
  then have "\<not> (bit d n \<and> bit (0xfff :: u64) n)" for n by (metis bit_and_iff bit_0_eq bot_apply bot_bool_def)
  then show ?thesis by (auto intro!: bit_word_eqI simp: bit_simps)
qed

text \<open>A page that was mapped translates.\<close>

lemma page_mapped_translates:
  assumes "pt_inv s (depth s) T xs" "T [] = Some (current_table s)"
    and "leaves s T = A(path v (depth s) 0 \<mapsto> leaf_entry d flags)" "no_superpage (depth s) A v"
    and "leaf_flags flags" "page_aligned d" "d < 2 ^ 56"
  shows "virt_to_phys s v = ok (Inr (d OR (v AND 0xfff)))"
proof -
  let ?L = "depth s"
  have L: "0 < ?L" using pt_inv_levels [OF assms(1)] by simp
  have "no_superpage ?L (leaves s T) v" unfolding assms(3) by (rule no_superpage_upd [OF assms(4)])
  then have "xlate ?L (leaves s T) ?L v = Some ((push_bit 12 (pte_get_ppn (leaf_entry d flags)) AND NOT 0xfff) OR (v AND 0xfff))"
    by (rule xlate_page [OF _ _ L order_refl]) (simp add: assms(3))
  moreover have "d AND NOT 0xfff = d" by (rule aligned_mask [OF assms(6)])
  ultimately have "xlate ?L (leaves s T) ?L v = Some (d OR (v AND 0xfff))" using leaf_entry_phys [OF assms(5-7)] by simp
  then show ?thesis
    using walk_xlate [OF assms(1), of v ?L "current_table s"] assms(2) L
    by (simp add: virt_to_phys_def load_level_lv)
qed

theorem upper_half_is_copied_witness:
  "\<exists>s y t. vmm_map warm 0x80000000 0xffffffc000000000 0x200000 Level3 Level1 flag_READ = ok s
     \<and> new_with_upperhalf s = ok (y, t) \<and> walk_virt t y 0xffffffc000000000 (load_level t) = ok (Inr 0x200000)"
proof -
  let ?v = "0xffffffc000000000 :: u64"
  obtain s T where s: "vmm_map warm 0x80000000 ?v 0x200000 Level3 Level1 flag_READ = ok s"
    "fl_inv s (drop 2 ram_frames)" "pt_inv s 3 T (drop 2 ram_frames)" "T [] = Some 0x80000000"
    "leaves s T = [path ?v 3 0 \<mapsto> leaf_entry 0x200000 flag_READ]" "upper_tables 3 T \<le> 3"
    "changes_only (ran warm_tree \<union> set ram_frames) warm s" using warm_upper by blast
  have f: "levels s = 3" "depth s = 3" "current_table s = 0x80000000"
    using changes_only_current [OF s(7)] s(7) by (simp_all add: changes_only_def)
  have "virt_to_phys s ?v = ok (Inr 0x200000)"
    using page_mapped_translates [where s = s and T = T and A = "\<lambda>_. None" and v = ?v and d = "0x200000" and flags = flag_READ] s(3-5)
    by (simp add: f no_superpage_def read_flags page_aligned_def)
  moreover have top: "idx ?v 3 = 256" by (simp add: idx_def bf_get_def take_bit_eq_mod drop_bit_eq_div)
  moreover obtain t where t: "new_with_upperhalf s = ok (hd (drop 2 ram_frames), t)"
    "\<forall>v. walk_virt t (hd (drop 2 ram_frames)) v (load_level t) = virt_to_phys s v \<or> idx v (depth s) < 256"
    using upper_half_is_copied [OF s(2), of T] s(3,4,6) ram_frames_distinct(2) unfolding f by auto
  ultimately have "walk_virt t (hd (drop 2 ram_frames)) ?v (load_level t) = ok (Inr 0x200000)"
    using t(2) [rule_format, of ?v] unfolding f by simp
  then show ?thesis using s(1) t(1) by blast
qed

text \<open>C35. The copy is of that moment: a page mapped in the upper half afterwards, in the running table,
  translates there, and in the new address space the address translates as before. Each address
  space has its own kernel half from then on.\<close>

theorem kernel_mappings_do_not_spread:
  assumes "fl_inv s xs" "pt_inv s (depth s) T xs" "T [] = Some (current_table s)"
    and "upper_tables (depth s) T + depth s \<le> length xs"
    and "no_superpage (depth s) (leaves s T) w" "leaf_flags flags" "page_aligned phys" "phys < 2 ^ 56"
  shows "\<exists>t u. new_with_upperhalf s = ok (hd xs, t)
    \<and> vmm_map t (current_table t) w phys (load_level t) Level1 flags = ok u
    \<and> virt_to_phys u w = ok (Inr (phys OR (w AND 0xfff)))
    \<and> (\<forall>v. walk_virt u (hd xs) v (load_level u) = virt_to_phys s v \<or> idx v (depth s) < 256)"
proof -
  let ?L = "depth s" and ?zs = "drop (upper_tables (depth s) T) xs"
  have L: "0 < ?L" "?L \<le> 5" using pt_inv_levels [OF assms(2)] by simp_all
  have "upper_tables ?L T < length xs" using assms(4) L by simp
  then obtain t U where t: "new_with_upperhalf s = ok (hd xs, t)" "fl_inv t ?zs" "pt_inv t ?L T ?zs"
    "changes_only (set xs) s t" "copy_of s T [] {256..<512} t U (hd xs)"
    "ran U \<subseteq> set (take (upper_tables ?L T) xs)"
    using upper_half_copy [OF assms(1-3)] by blast
  note cur = changes_only_current [OF t(4)]
  have frames: "\<forall>x \<in> set xs. page_aligned x \<and> x \<notin> ran T"
    using pt_inv_table [OF assms(2)] fl_inv_frame_ok [OF assms(1)] by (auto simp: ran_def)
  have lv: "leaves t T = leaves s T" by (rule pt_inv_elsewhere(2) [OF assms(2) t(4) frames]) (use frames in auto)
  have no_leaf: "T (path w ?L (1 - 1)) = None"
    using pt_inv_table [OF assms(2), of "path w ?L 0"] by (cases "T (path w ?L 0)") auto
  have "missing T w ?L 1 ?L \<le> ?L - 1" by (rule missing_le)
  then have "missing T w ?L 1 ?L < length ?zs" using assms(4) L by simp
  then obtain u T' where u: "vmm_map t (current_table s) w phys (lv ?L) (lv 1) flags = ok u"
    "mapped_to t ?L T ?zs w ?L 1 (leaf_entry phys flags) u T'"
    using map_walk [OF _ _ order_refl t(3,2), of 1 w "current_table s" flags phys] L assms(3,5,6) no_leaf
    by (auto simp: lv no_superpage_def)
  have ch: "changes_only (ran T \<union> set ?zs) t u" using u(2) by (simp add: mapped_to_def)
  note cur2 = changes_only_current [OF ch]
  have "virt_to_phys u w = ok (Inr (phys OR (w AND 0xfff)))"
  proof (rule page_mapped_translates)
    show "pt_inv u (depth u) T' (drop (missing T w ?L 1 ?L) ?zs)" using u(2) cur cur2 by (simp add: mapped_to_def)
    show "T' [] = Some (current_table u)" using u(2) assms(3) cur cur2 by (auto simp: mapped_to_def map_le_def dom_def)
    show "leaves u T' = (leaves s T)(path w (depth u) 0 \<mapsto> leaf_entry phys flags)"
      using u(2) lv cur cur2 by (simp add: mapped_to_def)
  qed (use assms(5-8) cur cur2 in simp_all)
  moreover have "copy_of s T [] {256..<512} u U (hd xs)"
  proof (rule copy_kept [OF t(5) ch])
    have sub: "set ?zs \<subseteq> set xs" "set (take (upper_tables ?L T) xs) \<subseteq> set xs"
      by (rule set_drop_subset, rule set_take_subset)
    have "page_aligned x" if "x \<in> ran T" for x using that pt_inv_table [OF assms(2)] by (auto simp: ran_def)
    then show "\<forall>f \<in> ran T \<union> set ?zs. page_aligned f" using frames sub(1) by blast
    show "\<forall>f \<in> ran U. page_aligned f" using frames t(6) sub(2) by blast
    have "set (take (upper_tables ?L T) xs) \<inter> set ?zs = {}"
      by (rule set_take_disj_set_drop_if_distinct) (use assms(1) in \<open>simp_all add: fl_inv_def\<close>)
    then show "ran U \<inter> (ran T \<union> set ?zs) = {}" using t(6) frames sub(2) by blast
  qed
  then have "walk_virt u (hd xs) v (lv ?L) = walk_virt s (current_table s) v (lv ?L)" if "\<not> idx v ?L < 256" for v
    using copy_walk [OF assms(2), of "{256..<512}" u U "hd xs" v ?L "current_table s" "hd xs"] copy_ofD(1)
      that idx_less [OF L, of v] cur cur2 L assms(3) by auto
  then have "walk_virt u (hd xs) v (load_level u) = virt_to_phys s v \<or> idx v ?L < 256" for v
    using cur cur2 by (auto simp: virt_to_phys_def load_level_lv)
  ultimately show ?thesis using t(1) u(1) cur by (auto simp: load_level_lv)
qed

theorem kernel_mappings_do_not_spread_witness:
  "\<exists>s y t u. new_with_upperhalf s = ok (y, t)
     \<and> vmm_map t (current_table t) 0xffffffd000000000 0x300000 (load_level t) Level1 flag_READ = ok u
     \<and> virt_to_phys u 0xffffffd000000000 = ok (Inr 0x300000)
     \<and> walk_virt u y 0xffffffd000000000 (load_level u) = ok (Inl ''Table not found'')
     \<and> walk_virt u y 0xffffffc000000000 (load_level u) = ok (Inr 0x200000)"
proof -
  let ?v = "0xffffffc000000000 :: u64" and ?w = "0xffffffd000000000 :: u64"
  obtain s T where s: "fl_inv s (drop 2 ram_frames)" "pt_inv s 3 T (drop 2 ram_frames)" "T [] = Some 0x80000000"
    "leaves s T = [path ?v 3 0 \<mapsto> leaf_entry 0x200000 flag_READ]" "upper_tables 3 T \<le> 3"
    "changes_only (ran warm_tree \<union> set ram_frames) warm s" using warm_upper by blast
  have f: "levels s = 3" "depth s = 3" "current_table s = 0x80000000"
    using changes_only_current [OF s(6)] s(6) by (simp_all add: changes_only_def)
  have top: "idx ?v 3 = 256" "idx ?w 3 = 320" by (simp_all add: idx_def bf_get_def take_bit_eq_mod drop_bit_eq_div)
  have v: "virt_to_phys s ?v = ok (Inr 0x200000)"
    using page_mapped_translates [where s = s and T = T and A = "\<lambda>_. None" and v = ?v and d = "0x200000" and flags = flag_READ] s(2-4)
    by (simp add: f no_superpage_def read_flags page_aligned_def)
  have "path ?w 3 i \<noteq> path ?v 3 0" if "i < 3" for i
    using hd_path [OF that, of ?w] hd_path [of 0 3 ?v] top by auto
  then have none: "leaves s T (path ?w 3 i) = None" if "i < 3" for i using that by (simp add: s(4))
  then have "xlate 3 (leaves s T) 3 ?w = None" by (simp add: numeral_3_eq_3)
  then have w: "virt_to_phys s ?w = ok (Inl ''Table not found'')"
    using walk_xlate [OF s(2), of ?w 3 "0x80000000"] s(3) by (simp add: virt_to_phys_def load_level_lv f)
  have "upper_tables (depth s) T + depth s \<le> length (drop 2 ram_frames)" using s(5) f ram_frames_distinct(2) by simp
  moreover have "no_superpage (depth s) (leaves s T) ?w" using none by (simp add: no_superpage_def f)
  moreover have "T [] = Some (current_table s)" "pt_inv s (depth s) T (drop 2 ram_frames)" using s(2,3) f by simp_all
  ultimately obtain t u where t: "new_with_upperhalf s = ok (hd (drop 2 ram_frames), t)"
    "vmm_map t (current_table t) ?w 0x300000 (load_level t) Level1 flag_READ = ok u"
    "virt_to_phys u ?w = ok (Inr (0x300000 OR (?w AND 0xfff)))"
    "\<forall>v. walk_virt u (hd (drop 2 ram_frames)) v (load_level u) = virt_to_phys s v \<or> idx v (depth s) < 256"
    using kernel_mappings_do_not_spread [OF s(1), where T = T and w = ?w and flags = flag_READ and phys = "0x300000"] read_flags
    by (auto simp: page_aligned_def)
  have "walk_virt u (hd (drop 2 ram_frames)) ?w (load_level u) = ok (Inl ''Table not found'')"
    "walk_virt u (hd (drop 2 ram_frames)) ?v (load_level u) = ok (Inr 0x200000)"
    using t(4) [rule_format, of ?w] t(4) [rule_format, of ?v] v w top by (simp_all add: f)
  moreover have "virt_to_phys u ?w = ok (Inr 0x300000)" using t(3) by simp
  ultimately show ?thesis using t(1,2) by blast
qed

end
