(* ===== verification/Program_Root.thy ===== *)
theory Program_Root
  imports Copy_Properties
begin

text \<open>
  The lower half of the root table that \<open>new_with_upperhalf\<close> returns: it is never cleared, so it keeps
  the words that the free list had in the frame. What \<open>map\<close> makes of the second of them when a
  program is loaded.
\<close>

section \<open>A branch over an entry that is not zero\<close>

lemma map_grows_over:
  assumes fl: "fl_inv s (f # g # fs)" and x: "frame_ok s x" "x \<notin> set (f # g # fs)"
    and e: "mem s (slot x i) = Some e" "\<not> pte_valid e" and i: "i < 512"
    and lev: "unat (va_index v l) = i" "l \<noteq> l'"
  shows "\<exists>u. vmm_map s x v phys l l' flags = vmm_map u f v phys (level_sub l 1) l' flags
    \<and> fl_inv u (g # fs) \<and> frame_ok u f \<and> f \<notin> set (g # fs) \<and> mem u (slot x i) = Some (branch_entry s f e)
    \<and> (\<forall>j < 512. mem u (slot f j) = Some 0) \<and> changes_only {f, g, x} s u"
proof -
  obtain t where t: "fl_claim s = ok (f, t)" "fl_inv t (g # fs)" "changes_only {g} s t"
    using fl_claim_inv [OF fl] by blast
  let ?z = "t\<lparr>mem := fill (mem t) f (\<lambda>_. 0)\<rparr>"
  let ?u = "t\<lparr>mem := (fill (mem t) f (\<lambda>_. 0))(slot x i \<mapsto> branch_entry s f e)\<rparr>"
  have ok: "frame_ok s f" "frame_ok s g" using fl_inv_frame_ok [OF fl] by simp_all
  have f: "frame_ok t f" using ok(1) by (simp only: changes_only_frame_ok [OF t(3)])
  have fx: "f \<noteq> x" "g \<noteq> x" "f \<notin> set (g # fs)" using fl x(2) by (auto simp: fl_inv_def)
  have al: "page_aligned x" "page_aligned f" "page_aligned g" using x(1) ok by auto
  have "mem t (slot x n) = mem s (slot x n)" if "n < 512" for n
    by (rule changes_only_cell [OF t(3)]) (use that fx al in auto)
  then have same: "mem ?z (slot x n) = mem s (slot x n)" if "n < 512" for n
    using that fx al by (simp add: fill_other slot_not_in_page)
  then have tables: "table_of (mem ?z) x = table_of (mem s) x" by (auto simp: table_of_def)
  have cz: "changes_only {f} t ?z" by (rule changes_only_fill [OF f])
  have xz: "frame_ok ?z x"
    using x(1) by (simp only: changes_only_frame_ok [OF cz] changes_only_frame_ok [OF t(3)])
  have no: "\<not> is_branch e" "\<not> is_leaf e" using e(2) by (simp_all add: is_branch_def is_leaf_def)
  have hh: "branch_entry ?z f e = branch_entry s f e"
    using t(3) by (simp add: changes_only_def branch_entry_def)
  have zero: "zero_table t f = ok ?z"
    by (rule zero_table_mapped) (rule frame_ok_page_mapped [OF f])
  have store: "write_table ?z x ((table_of (mem s) x)[i := branch_entry s f e]) = ok ?u"
    using table_write [OF xz i, of "branch_entry s f e"] unfolding tables by simp
  have run: "vmm_map s x v phys l l' flags = vmm_map ?u f v phys (level_sub l 1) l' flags"
    by (subst vmm_map.simps)
      (simp add: lev table_entry [OF x(1) i e(1)] no e(2) t(1) zero store hh del: rbind_assoc)
  have cu: "changes_only {x} ?z ?u" using changes_only_set_cell [OF xz i, of "branch_entry s f e"] by simp
  have ch: "changes_only {f, x} t ?u" by (rule changes_only_step [OF cz cu]) simp_all
  then have all: "changes_only {f, g, x} s ?u" by (rule changes_only_step [OF t(3)]) auto
  have "fl_inv ?u (g # fs)"
    by (rule fl_inv_elsewhere [OF t(2) ch]) (use fx x(2) al in auto)
  moreover have "frame_ok ?u f" using f by (simp only: changes_only_frame_ok [OF ch])
  moreover have "mem ?u (slot f j) = Some 0" if "j < 512" for j
    using that fx(1) al i by (simp add: fill_slot slot_inj)
  ultimately show ?thesis using run fx(3) all by auto
qed

text \<open>A page of zeros is an empty tree of any height.\<close>

lemma empty_tree:
  assumes "fl_inv s xs" "frame_ok s f" "f \<notin> set xs" "\<forall>j < 512. mem s (slot f j) = Some 0"
    and "0 < L" "L \<le> 5" "page_aligned (hhdm s)"
  shows "pt_inv s L [[] \<mapsto> f] xs" "leaves s [[] \<mapsto> f] = (\<lambda>_. None)"
proof -
  show "pt_inv s L [[] \<mapsto> f] xs"
    by (rule pt_invI) (use assms in \<open>auto simp: entry_ok_def split: if_splits\<close>)
  have "leaf_at s f i = None" for i using assms(4) by (cases "i < 512") (simp_all add: leaf_at_def)
  then show "leaves s [[] \<mapsto> f] = (\<lambda>_. None)"
    by (intro ext) (auto simp: leaves_def split: option.splits if_splits)
qed

section \<open>The second entry of a program's root\<close>

text \<open>The second word of a frame that heads the free list points to the next frame.\<close>

lemma next_word: "fl_inv s (x # y # ys) \<Longrightarrow> mem s (slot x 1) = Some y"
  by (simp add: fl_inv_def)

lemma aligned_invalid: "page_aligned y \<Longrightarrow> \<not> pte_valid y"
  using aligned_bit [of y 0] by (simp add: pte_defs)

text \<open>A branch made over a page address: a branch for the kernel, with the address in the bits above
  the page number.\<close>

lemma branch_over_pointer:
  assumes "page_aligned y" "frame_ok s f" "page_aligned (hhdm s)"
  shows "is_branch (branch_entry s f y)" "entry_table s (branch_entry s f y) = f"
    "drop_bit 54 (branch_entry s f y) = drop_bit 54 y"
proof -
  show "is_branch (branch_entry s f y)"
    using aligned_bit [OF assms(1)]
    by (simp add: is_branch_def pte_defs branch_entry_def pte_set_valid_def pte_set_ppn_def bit_bf_set_flag bit_bf_set)
  have "pte_get_ppn (branch_entry s f y) = pte_get_ppn (pte_set_ppn (drop_bit 12 (f - hhdm s)) y)"
    by (simp add: branch_entry_def pte_ppn_set_valid)
  then show "entry_table s (branch_entry s f y) = f"
    using entry_table_set_ppn [OF assms(2,3) refl, of y] by (simp add: entry_table_def)
  show "drop_bit 54 (branch_entry s f y) = drop_bit 54 y"
    by (rule bit_word_eqI)
      (auto simp: bit_simps branch_entry_def pte_set_valid_def pte_set_ppn_def bit_bf_set_flag bit_bf_set dest: bit_imp_le_length)
qed

text \<open>C33. A program's root table has the address of a free frame in its second entry: nothing clears the
  lower half of what \<open>new_with_upperhalf\<close> returns. The entry counts as free, and the branch that \<open>map\<close>
  makes over it keeps the upper ten bits of that address, which the architecture reserves: they are not
  zero when the direct map is in the upper half. The kernel's own translation ignores them and
  finds the page, the processor faults. With three levels that entry is where LSD-Userspace is linked.\<close>

theorem program_root_keeps_free_list_word:
  assumes "fl_inv s (x # y # ys)" "pt_inv s (depth s) T (x # y # ys)" "T [] = Some (current_table s)"
    and "upper_tables (depth s) T + depth s \<le> length (x # y # ys)" "2 \<le> depth s" "2 ^ 63 \<le> hhdm s"
    and "idx v (depth s) = 1" "leaf_flags flags" "page_aligned phys" "phys < 2 ^ 56"
  shows "\<exists>t u e. new_with_upperhalf s = ok (x, t) \<and> mem t (slot x 1) = Some y \<and> \<not> pte_valid y
    \<and> vmm_map t x v phys (load_level t) Level1 flags = ok u
    \<and> mem u (slot x 1) = Some e \<and> drop_bit 54 e = drop_bit 54 y \<and> 2 ^ 9 \<le> drop_bit 54 e
    \<and> walk_virt u x v (load_level u) = ok (Inr (phys OR (v AND 0xfff)))"
proof -
  let ?xs = "x # y # ys" and ?L = "depth s" and ?n = "upper_tables (depth s) T" and ?M = "depth s - 1"
  note inv = assms(1-3)
  have L: "0 < ?L" "?L \<le> 5" "page_aligned (hhdm s)" using pt_inv_levels [OF inv(2)] by simp_all
  have n: "0 < ?n" by (simp add: upper_tables_def)
  have room: "?n < length ?xs" using assms(4,5) by linarith
  obtain t where t: "new_with_upperhalf s = ok (x, t)" "fl_inv t (drop ?n ?xs)" "changes_only (set ?xs) s t"
    "\<forall>j < 256. mem t (slot x j) = mem s (slot x j)"
    using upper_half_copy [OF inv room] by auto
  note cur = changes_only_current [OF t(3)]
  have ok: "frame_ok s x" "frame_ok s y" "x \<notin> set (y # ys)" using inv(1) by (auto simp: fl_inv_def)
  have entry: "mem t (slot x 1) = Some y" using t(4) next_word [OF inv(1)] by simp
  have y: "page_aligned y" "\<not> pte_valid y" using ok(2) aligned_invalid by auto
  have room2: "2 \<le> length (drop ?n ?xs)" using assms(4,5) by simp
  then obtain f g fs where fs: "drop ?n ?xs = f # g # fs" by (cases "drop ?n ?xs"; cases "tl (drop ?n ?xs)") auto
  have "set (drop ?n ?xs) \<subseteq> set (drop 1 ?xs)" by (rule set_drop_subset_set_drop) (use n in simp)
  then have out: "x \<notin> set (f # g # fs)" using ok(3) unfolding fs by auto
  have xt: "frame_ok t x" using ok(1) by (simp only: changes_only_frame_ok [OF t(3)])
  have lev: "unat (va_index v (lv ?L)) = 1" "lv ?L \<noteq> lv 1" "level_sub (lv ?L) 1 = lv ?M"
    using assms(5,7) L lv_inj [of ?L 1] level_sub_lv [of ?L] by (simp_all add: idx_def)
  obtain u where u: "vmm_map t x v phys (lv ?L) (lv 1) flags = vmm_map u f v phys (lv ?M) (lv 1) flags"
    "fl_inv u (g # fs)" "frame_ok u f" "f \<notin> set (g # fs)" "mem u (slot x 1) = Some (branch_entry t f y)"
    "\<forall>j < 512. mem u (slot f j) = Some 0" "changes_only {f, g, x} t u"
    using map_grows_over [OF t(2) [unfolded fs] xt out entry y(2) _ lev(1,2), of phys flags] lev(3) by fastforce
  have hh: "hhdm u = hhdm s" "hhdm t = hhdm s" using u(7) cur by (simp_all add: changes_only_def)
  have M: "1 \<le> ?M" "?M \<le> 5" using assms(5) L by simp_all
  note tree = empty_tree [OF u(2,3,4,6) _ M(2)]
  have tree: "pt_inv u ?M [[] \<mapsto> f] (g # fs)" "leaves u [[] \<mapsto> f] = (\<lambda>_. None)"
    using tree M(1) L(3) hh by simp_all
  have deep: "[[] \<mapsto> f] (path v ?M k) = None" if "k < ?M" for k using that path_nonempty [of k ?M v] by simp
  have "length (drop ?n ?xs) = length ?xs - ?n" by simp
  then have len: "?L \<le> length (f # g # fs)" using assms(4) unfolding fs by linarith
  have "missing [[] \<mapsto> f] v ?M 1 ?M < length (g # fs)"
    using missing_le [of "[[] \<mapsto> f]" v ?M 1 ?M] len M(1) by simp
  from map_walk [OF M(1) _ order_refl tree(1) u(2) _ assms(8) _ _ this, where x = f and phys = phys] deep tree(2) M
  obtain w T' where w: "vmm_map u f v phys (lv ?M) (lv 1) flags = ok w"
    "mapped_to u ?M [[] \<mapsto> f] (g # fs) v ?M 1 (leaf_entry phys flags) w T'" by auto
  let ?e = "branch_entry t f y"
  have cw: "changes_only (insert f (set (g # fs))) u w" using w(2) by (simp add: mapped_to_def insert_commute)
  have "\<forall>z \<in> insert f (set (g # fs)). page_aligned z" using u(3) fl_inv_frame_ok [OF u(2)] by auto
  then have e: "mem w (slot x 1) = Some ?e"
    using changes_only_cell [OF cw, of x 1] u(5) out ok(1) by auto
  have ft: "frame_ok t f" using u(3) by (simp only: changes_only_frame_ok [OF u(7)])
  note b = branch_over_pointer [OF y(1) ft, unfolded hh(2), OF L(3)]
  have high: "2 ^ 9 \<le> drop_bit 54 y"
  proof -
    have "hhdm s \<le> y" using ok(2) by (simp add: frame_ok_def)
    with assms(6) have "2 ^ 63 \<le> y" by (rule order_trans)
    then have "2 ^ 63 \<le> unat y" by (simp add: word_le_nat_alt)
    then have "2 ^ 9 \<le> unat y div 2 ^ 54" by (simp add: less_eq_div_iff_mult_less_eq)
    then show ?thesis by (simp add: word_le_nat_alt drop_bit_eq_div unat_div)
  qed
  have hw: "hhdm w = hhdm s" "load_level w = lv ?L"
    using cw u(7) cur by (simp_all add: changes_only_def load_level_lv)
  have "entry_table w ?e = f" using b(2) hw(1) hh(2) by (simp add: entry_table_def)
  then have "walk_virt w x v (lv ?L) = walk_virt w f v (lv ?M)"
    using walk_step [of w x v "lv ?L" ?e] e lev b(1) branch_not_leaf [OF b(1)] by simp
  also have "\<dots> = ok (Inr (phys OR (v AND 0xfff)))"
  proof -
    have lf: "leaves w T' = [path v ?M 0 \<mapsto> leaf_entry phys flags]" and T': "T' [] = Some f" "pt_inv w ?M T' (drop (missing [[] \<mapsto> f] v ?M 1 ?M) (g # fs))"
      using w(2) tree(2) by (auto simp: mapped_to_def map_le_def)
    have "no_superpage ?M (leaves w T') v" unfolding lf by (rule no_superpage_upd) (simp add: no_superpage_def)
    then have "xlate ?M (leaves w T') ?M v = Some ((push_bit 12 (pte_get_ppn (leaf_entry phys flags)) AND NOT 0xfff) OR (v AND 0xfff))"
      by (rule xlate_page) (use M in \<open>simp_all add: lf\<close>)
    moreover have "phys AND NOT 0xfff = phys" by (rule aligned_mask [OF assms(9)])
    ultimately show ?thesis
      using walk_xlate [OF T'(2), of v ?M f] T'(1) M leaf_entry_phys [OF assms(8-10)] by simp
  qed
  finally have walk: "walk_virt w x v (load_level w) = ok (Inr (phys OR (v AND 0xfff)))" by (simp add: hw(2))
  have "vmm_map t x v phys (load_level t) Level1 flags = ok w"
    using u(1) w(1) cur by (simp add: load_level_lv)
  then show ?thesis using t(1) entry y(2) e b(3) high walk by auto
qed

section \<open>A machine with its direct map in the upper half\<close>

text \<open>Eight pages of RAM behind a direct map at \<open>0xffffffc000000000\<close>, where the boot protocol has it with
  three levels; the first is the empty root table.\<close>

definition high_cold :: machine where
  "high_cold = cold\<lparr>mem := (\<lambda>a. if 0xffffffc000000000 \<le> a \<and> a < 0xffffffc000008000 then Some 0 else None),
     hhdm := 0xffffffc000000000\<rparr>"

definition high_map :: "memory_entry list" where
  "high_map = [\<lparr>e_kind = Usable, e_base = 0x1000, e_size = 0x7000\<rparr>]"

definition high_frames :: "u64 list" where
  "high_frames = map (page_of 0xffffffc000001000) [0..<7]"

lemma high_frames_list: "high_frames = [0xffffffc000001000, 0xffffffc000002000, 0xffffffc000003000, 0xffffffc000004000,
    0xffffffc000005000, 0xffffffc000006000, 0xffffffc000007000]"
  by (simp add: high_frames_def page_of_def upt_rec)

lemma high_page:
  assumes "page_aligned p" "0xffffffc000000000 \<le> p" "p < 0xffffffc000008000"
  shows "frame_ok high_cold p" "i < 512 \<Longrightarrow> mem high_cold (slot p i) = Some 0"
proof -
  have p: "0xffffffc000000000 \<le> unat p" "unat p < 0xffffffc000008000"
    using assms(2,3) by (simp_all add: word_le_nat_alt word_less_nat_alt)
  have "unat p mod 4096 = 0" using assms(1) by (simp add: page_aligned_mod)
  then obtain k where k: "unat p = 4096 * k" by auto
  have cell: "mem high_cold (slot p i) = Some 0" if i: "i < 512" for i
  proof -
    have "unat (slot p i) = unat p + 8 * i" by (rule unat_slot [OF assms(1) i])
    moreover have "unat p + 8 * i < 0xffffffc000008000" using p k i by simp
    ultimately show ?thesis using p by (simp add: high_cold_def word_le_nat_alt word_less_nat_alt)
  qed
  have "p - 0xffffffc000000000 < 2 ^ 56"
    using assms(2) p by (simp add: word_less_nat_alt unat_sub)
  then show "frame_ok high_cold p"
    using assms cell by (simp add: frame_ok_def page_mapped_def) (simp add: high_cold_def)
  show "i < 512 \<Longrightarrow> mem high_cold (slot p i) = Some 0" by (rule cell)
qed

lemma high_frames_ok: "\<forall>p \<in> set high_frames. frame_ok high_cold p"
  by (simp add: high_frames_list high_page page_aligned_def)

definition high :: machine where
  "high = (case pmm_init high_cold high_map of Some (Inr t) \<Rightarrow> t | _ \<Rightarrow> high_cold)"

lemma high_boots: "pmm_init high_cold high_map = ok high" "fl_inv high high_frames"
  "changes_only (set high_frames) high_cold high"
proof -
  have u: "usable_frames high_cold high_map = high_frames"
    by (simp add: usable_frames_def high_map_def entry_frames_def page_offsets_def high_frames_list high_cold_def upt_rec)
  obtain x fs where fs: "high_frames = x # fs" by (simp add: high_frames_list)
  have l: "length fs = 6" using fs by (auto simp: high_frames_list)
  have "0 < hhdm high_cold" "distinct high_frames" by (simp_all add: high_cold_def high_frames_list)
  then obtain t where "pmm_init high_cold high_map = ok t" "fl_inv t high_frames" "changes_only (set high_frames) high_cold t"
    using pmm_init_frames [of high_cold high_map x fs] high_frames_ok l by (auto simp: u fs)
  then show "pmm_init high_cold high_map = ok high" "fl_inv high high_frames"
    "changes_only (set high_frames) high_cold high" by (simp_all add: high_def)
qed

lemma high_tables: "pt_inv high 3 [[] \<mapsto> 0xffffffc000000000] high_frames" "depth high = 3"
  "current_table high = 0xffffffc000000000" "hhdm high = 0xffffffc000000000"
proof -
  have f: "levels high = 3" "satp high = 0" "hhdm high = 0xffffffc000000000"
    using high_boots(3) by (simp_all add: changes_only_def high_cold_def cold_def)
  then show "depth high = 3" "current_table high = 0xffffffc000000000" "hhdm high = 0xffffffc000000000"
    by (simp_all add: current_table_def satp_get_ppn_def bf_get_def)
  have root: "0xffffffc000000000 \<notin> set high_frames" by (simp add: high_frames_list)
  have "mem high (slot 0xffffffc000000000 j) = Some 0" if j: "j < 512" for j
  proof -
    have "mem high (slot 0xffffffc000000000 j) = mem high_cold (slot 0xffffffc000000000 j)"
      by (rule changes_only_cell [OF high_boots(3) _ _ root j]) (use high_frames_ok in \<open>auto dest: frame_ok_aligned\<close>, simp add: page_aligned_def)
    then show ?thesis using high_page(2) [of "0xffffffc000000000" j] j by (simp add: page_aligned_def)
  qed
  moreover have "frame_ok high 0xffffffc000000000"
    using high_page(1) [of "0xffffffc000000000"] changes_only_frame_ok [OF high_boots(3)] by (simp add: page_aligned_def)
  ultimately show "pt_inv high 3 [[] \<mapsto> 0xffffffc000000000] high_frames"
    using empty_tree(1) [OF high_boots(2) _ root] f by (simp add: page_aligned_def)
qed

text \<open>The first page of LSD-Userspace, mapped to the physical page \<open>0x6000\<close>: the branch has the bits of
  \<open>0xffffffc000002000\<close> above its page number.\<close>

theorem program_root_keeps_free_list_word_witness:
  "\<exists>t u e. new_with_upperhalf high = ok (0xffffffc000001000, t)
     \<and> vmm_map t 0xffffffc000001000 0x40000000 0x6000 (load_level t) Level1 flag_READ = ok u
     \<and> mem u (slot 0xffffffc000001000 1) = Some e \<and> drop_bit 54 e = 0x3ff
     \<and> walk_virt u 0xffffffc000001000 0x40000000 (load_level u) = ok (Inr 0x6000)"
proof -
  let ?T = "[[] \<mapsto> 0xffffffc000000000] :: nat list \<rightharpoonup> u64"
  have "tables_in 3 ?T [] js = 0" for js
    by (simp only: numeral_3_eq_3 tables_in.simps) (induction js; simp)
  then have n: "upper_tables 3 ?T = 1" by (simp add: upper_tables_def)
  have top: "idx 0x40000000 3 = 1" by (simp add: idx_def bf_get_def take_bit_eq_mod drop_bit_eq_div)
  have room: "upper_tables 3 ?T + 3 \<le> length high_frames" by (simp add: n high_frames_list)
  show ?thesis
    using program_root_keeps_free_list_word [of high "0xffffffc000001000" "0xffffffc000002000" "drop 2 high_frames" ?T
        "0x40000000" flag_READ "0x6000"] high_boots(2) high_tables room top read_flags
    by (simp add: high_frames_list page_aligned_def drop_bit_eq_div) blast
qed

end
