(* ===== verification/Pci.thy ===== *)
theory Pci
  imports Vmm
begin

text \<open>
  The PCI code, LSD/src/drivers/pci: the configuration space of a function (slot.rs), the offsets of
  functions in the ECAM region and the scan (mod.rs). drivers/mod.rs has the module commented out, so
  the kernel as it is never runs it. A configuration space is its bytes; \<open>#[repr(C)]\<close> gives each field
  of a struct the next offset that its alignment divides.
\<close>

section \<open>Struct layout\<close>

text \<open>A field is its name, size and alignment in bytes.\<close>

type_synonym field = "string \<times> nat \<times> nat"

definition align_to :: "nat \<Rightarrow> nat \<Rightarrow> nat" where
  "align_to a n = (n + a - 1) div a * a"

fun field_offsets :: "field list \<Rightarrow> nat \<Rightarrow> (string \<times> nat) list" where
  "field_offsets [] offset = []"
| "field_offsets ((name, sz, a) # fs) offset =
     (name, align_to a offset) # field_offsets fs (align_to a offset + sz)"

fun fields_end :: "field list \<Rightarrow> nat \<Rightarrow> nat" where
  "fields_end [] offset = offset"
| "fields_end ((name, sz, a) # fs) offset = fields_end fs (align_to a offset + sz)"

definition offset_in :: "field list \<Rightarrow> string \<Rightarrow> nat" where
  "offset_in fs name = the (map_of (field_offsets fs 0) name)"

section \<open>slot.rs\<close>

type_synonym config_space = "nat \<Rightarrow> u8"

definition rd8 :: "config_space \<Rightarrow> nat \<Rightarrow> u8" where
  "rd8 c i = c i"

definition rd16 :: "config_space \<Rightarrow> nat \<Rightarrow> u16" where
  "rd16 c i = ucast (c i) OR push_bit 8 (ucast (c (i + 1)))"

definition rd32 :: "config_space \<Rightarrow> nat \<Rightarrow> u32" where
  "rd32 c i = ucast (rd16 c i) OR push_bit 16 (ucast (rd16 c (i + 2)))"

definition slot_fields :: "field list" where
  "slot_fields = [(''vendor_id'', 2, 2), (''dev_id'', 2, 2), (''command'', 2, 2), (''status'', 2, 2), (''rev_id'', 1, 1),
     (''class_code'', 3, 1), (''cacheline_size'', 1, 1), (''lat_timer'', 1, 1), (''head_type'', 1, 1), (''bist'', 1, 1),
     (''bars'', 24, 4), (''cardbus_cis_ptr'', 4, 4), (''subsys_vend_id'', 2, 2), (''subsys_id'', 2, 2),
     (''exp_rom_base'', 4, 4), (''cap_ptr'', 1, 1), (''_res'', 7, 1), (''int_lin'', 1, 1), (''int_pin'', 1, 1),
     (''min_gnt'', 1, 1), (''max_lat'', 1, 1)]"

record device_ident =
  vendor_id :: u16
  device_id :: u16
  di_class :: u8
  sub_class :: u8
  prog_if :: u8
  revision :: u8

definition read_reg :: "config_space \<Rightarrow> nat \<Rightarrow> u32 result" where
  "read_reg c i = rbind (assert_that (i < 1024)) (\<lambda>_. ok (rd32 c (4 * i)))"

definition ident :: "config_space \<Rightarrow> device_ident result" where
  "ident c =
     rbind (read_reg c 2) (\<lambda>class_reg.
     ok \<lparr>vendor_id = rd16 c (offset_in slot_fields ''vendor_id''), device_id = rd16 c (offset_in slot_fields ''dev_id''),
         di_class = ucast (drop_bit 24 class_reg), sub_class = ucast (drop_bit 16 class_reg),
         prog_if = ucast (drop_bit 8 class_reg), revision = ucast class_reg\<rparr>)"

definition class_code_fields :: "field list" where
  "class_code_fields = [(''high'', 1, 1), (''mid'', 1, 1), (''low'', 1, 1)]"

definition class_code_read :: "config_space \<Rightarrow> u32" where
  "class_code_read c =
     (let base = offset_in slot_fields ''class_code'';
          high = ucast (rd8 c (base + offset_in class_code_fields ''high''));
          mid = ucast (rd8 c (base + offset_in class_code_fields ''mid''));
          low = ucast (rd8 c (base + offset_in class_code_fields ''low''))
      in push_bit 16 high OR push_bit 8 mid OR low)"

definition is_multifunction :: "config_space \<Rightarrow> bool" where
  "is_multifunction c \<longleftrightarrow> drop_bit 7 (rd8 c (offset_in slot_fields ''head_type'')) = 1"

definition head_type :: "config_space \<Rightarrow> u8" where
  "head_type c = rd8 c (offset_in slot_fields ''head_type'') AND 0x7f"

definition bar :: "config_space \<Rightarrow> nat \<Rightarrow> u32 result" where
  "bar c i = (if i < 6 then ok (rd32 c (offset_in slot_fields ''bars'' + 4 * i)) else fail (OutOfBounds i 6))"

definition bar_read_u32 :: "config_space \<Rightarrow> nat \<Rightarrow> u32 result" where
  "bar_read_u32 c i = rbind (bar c i) (\<lambda>b. ok (b AND NOT 7))"

definition bar_read_u64 :: "config_space \<Rightarrow> nat \<Rightarrow> u64 result" where
  "bar_read_u64 c i =
     rbind (bar c i) (\<lambda>high.
     rbind (bar c (i + 1)) (\<lambda>low.
     ok (push_bit 32 (ucast high) OR (ucast low AND NOT 7))))"

datatype bar_kind = IOSpace | Bits64 | Bits32

definition bar_kind_of :: "config_space \<Rightarrow> nat \<Rightarrow> bar_kind result" where
  "bar_kind_of c i =
     rbind (bar c i) (\<lambda>b.
     if b AND 1 = 1 then ok IOSpace
     else if drop_bit 1 b AND 3 = 0 then ok Bits32
     else if drop_bit 1 b AND 3 = 2 then ok Bits64
     else fail (Panic ''explicit panic''))"

datatype pci_device = Unknown | SCSIBusController | Nvme | Ahci1 | HostBridgeController

definition dev_type :: "device_ident \<Rightarrow> pci_device" where
  "dev_type d =
     (if di_class d = 0x1 then
        (if sub_class d = 0x0 then SCSIBusController
         else if sub_class d = 0x6 then (if prog_if d = 0x1 then Ahci1 else Unknown)
         else if sub_class d = 0x8 then (if prog_if d = 0x2 then Nvme else Unknown)
         else Unknown)
      else if di_class d = 0x6 then (if sub_class d = 0x0 then HostBridgeController else Unknown)
      else Unknown)"

section \<open>mod.rs\<close>

record pci_host =
  interrupt_map_mask :: usize
  interrupt_map :: usize
  ecam_start :: u64
  ecam_size :: usize
  bus_first :: u8
  bus_last :: u8

definition host_null :: pci_host where
  "host_null = \<lparr>interrupt_map_mask = 0, interrupt_map = 0, ecam_start = 0, ecam_size = 0, bus_first = 0, bus_last = 0\<rparr>"

definition ecam_offset :: "pci_host \<Rightarrow> u8 \<Rightarrow> u8 \<Rightarrow> u8 \<Rightarrow> usize" where
  "ecam_offset host bus dev func =
     push_bit 20 (ucast (bus - bus_first host)) OR push_bit 15 (ucast dev) OR push_bit 12 (ucast func)"

text \<open>
  The scan. \<open>config p\<close> is the configuration space at the address \<open>p\<close> and \<open>nvme_init\<close> stands for
  \<open>nvme::init\<close>, which refers to items that are nowhere defined. The value of \<open>scan_slot\<close> tells whether
  the loop over the devices of the bus goes on; lines printed are left out.
\<close>

definition bar_value :: "config_space \<Rightarrow> u64 result" where
  "bar_value c =
     rbind (bar_kind_of c 0) (\<lambda>bar_type.
     case bar_type of
       Bits32 \<Rightarrow> rbind (bar_read_u32 c 0) (\<lambda>b. ok (ucast b))
     | Bits64 \<Rightarrow> bar_read_u64 c 0
     | IOSpace \<Rightarrow> fail (Panic ''explicit panic''))"

definition scan_slot ::
  "(u64 \<Rightarrow> config_space) \<Rightarrow> (u64 \<Rightarrow> machine \<Rightarrow> machine result) \<Rightarrow> pci_host \<Rightarrow> u8 \<Rightarrow> u8 \<Rightarrow> machine \<Rightarrow> (bool \<times> machine) result"
where
  "scan_slot config nvme_init host bus dev s =
     (let c = config (ecam_start host + ecam_offset host bus dev 0) in
      if rd16 c (offset_in slot_fields ''dev_id'') \<noteq> 0xffff then
        rbind (bar_value c) (\<lambda>bar_val.
        let bar_virt = bar_val + hhdm s in
        rbind (ident c) (\<lambda>d.
        if dev_type d = Nvme then
          rbind (vmm_map s (current_table s) bar_virt bar_val (load_level s) Level3 (flag_READ OR flag_WRITE)) (\<lambda>s.
          rbind (nvme_init bar_virt s) (\<lambda>s. ok (True, s)))
        else ok (True, s)))
      else ok (False, s))"

fun scan_devices ::
  "(u64 \<Rightarrow> config_space) \<Rightarrow> (u64 \<Rightarrow> machine \<Rightarrow> machine result) \<Rightarrow> pci_host \<Rightarrow> u8 \<Rightarrow> nat list \<Rightarrow> machine \<Rightarrow> machine result"
where
  "scan_devices config nvme_init host bus [] s = ok s"
| "scan_devices config nvme_init host bus (dev # devs) s =
     rbind (scan_slot config nvme_init host bus (of_nat dev) s) (\<lambda>(found, s).
     if found then scan_devices config nvme_init host bus devs s else ok s)"

definition pci_init ::
  "(u64 \<Rightarrow> config_space) \<Rightarrow> (u64 \<Rightarrow> machine \<Rightarrow> machine result) \<Rightarrow> pci_host option \<Rightarrow> machine \<Rightarrow> machine result"
where
  "pci_init config nvme_init pci_host s =
     (case pci_host of
        None \<Rightarrow> ok s
      | Some host \<Rightarrow> rfold (\<lambda>bus s. scan_devices config nvme_init host (of_nat bus) [0..<256] s) [0..<256] s)"

end
