(* ===== verification/Pci_Properties.thy ===== *)
theory Pci_Properties
  imports Pci
begin

text \<open>
  The properties of the PCI code (Pci): what the fields of a slot are, which functions the offsets of
  the scan reach, and which addresses it takes from the base address registers.
\<close>

section \<open>Fields\<close>

lemma slot_offsets:
  "offset_in slot_fields ''vendor_id'' = 0" "offset_in slot_fields ''dev_id'' = 2"
  "offset_in slot_fields ''class_code'' = 9" "offset_in slot_fields ''head_type'' = 14"
  "offset_in slot_fields ''bars'' = 16" "fields_end slot_fields 0 = 64"
  "offset_in class_code_fields ''high'' = 0" "offset_in class_code_fields ''mid'' = 1"
  "offset_in class_code_fields ''low'' = 2"
  by (simp_all add: offset_in_def slot_fields_def class_code_fields_def align_to_def)

lemma rd16_bytes: "ucast (rd16 c i) = (c i)" "ucast (drop_bit 8 (rd16 c i)) = c (i + 1)"
  by (rule bit_word_eqI; simp add: rd16_def bit_simps; auto dest: bit_imp_le_length)+

lemma rd32_bytes:
  "ucast (rd32 c i) = c i" "ucast (drop_bit 8 (rd32 c i)) = c (i + 1)"
  "ucast (drop_bit 16 (rd32 c i)) = c (i + 2)" "ucast (drop_bit 24 (rd32 c i)) = c (i + 3)"
  by (rule bit_word_eqI; simp add: rd32_def rd16_def bit_simps; auto dest: bit_imp_le_length simp: numeral_3_eq_3)+

text \<open>A slot is the 64-byte header that PCI defines: \<open>ident\<close> returns its vendor, device, class,
  subclass, programming interface and revision bytes, whatever they are; \<open>ClassCode::read\<close>, which
  names the first byte the high one, returns the three class bytes in the reverse order.\<close>

theorem ident_reads_header:
  "ident c = ok \<lparr>vendor_id = rd16 c 0, device_id = rd16 c 2, di_class = c 11, sub_class = c 10, prog_if = c 9, revision = c 8\<rparr>
   \<and> class_code_read c = push_bit 16 (ucast (c 9)) OR push_bit 8 (ucast (c 10)) OR ucast (c 11)
   \<and> fields_end slot_fields 0 = 64"
  using rd32_bytes [of c 8]
  by (simp add: ident_def read_reg_def class_code_read_def slot_offsets rd8_def)

section \<open>Offsets\<close>

lemma bit_u8: "\<not> bit (w :: u8) n" if "8 \<le> n"
  using that bit_imp_le_length [of w n] by auto

lemma bit_small_dev: "dev < 32 \<Longrightarrow> bit (dev :: u8) n \<Longrightarrow> n < 5"
proof (rule ccontr)
  assume "dev < 32" "bit dev n" "\<not> n < 5"
  then have "take_bit 5 dev = dev" by (simp add: take_bit_eq_mask less_mask_eq)
  with \<open>bit dev n\<close> \<open>\<not> n < 5\<close> show False by (metis bit_take_bit_iff)
qed

lemma bit_small_func: "func < 8 \<Longrightarrow> bit (func :: u8) n \<Longrightarrow> n < 3"
proof (rule ccontr)
  assume "func < 8" "bit func n" "\<not> n < 3"
  then have "take_bit 3 func = func" by (simp add: take_bit_eq_mask less_mask_eq)
  with \<open>bit func n\<close> \<open>\<not> n < 3\<close> show False by (metis bit_take_bit_iff)
qed

lemma ecam_bits:
  "bit (ecam_offset host bus dev func) n \<longleftrightarrow>
     n < 64 \<and> (20 \<le> n \<and> bit (bus - bus_first host) (n - 20) \<or> 15 \<le> n \<and> bit dev (n - 15) \<or> 12 \<le> n \<and> bit func (n - 12))"
  by (auto simp: ecam_offset_def bit_simps dest: bit_imp_le_length)

lemma ecam_decodes:
  assumes "dev < 32" "func < 8"
  shows "ucast (drop_bit 20 (ecam_offset host bus dev func)) = bus - bus_first host"
    "take_bit 5 (ucast (drop_bit 15 (ecam_offset host bus dev func))) = dev"
    "take_bit 3 (ucast (drop_bit 12 (ecam_offset host bus dev func))) = func"
  using bit_small_dev [OF assms(1)] bit_small_func [OF assms(2)]
  by - (rule bit_word_eqI; fastforce simp: bit_simps ecam_bits dest: bit_imp_le_length)+

text \<open>The offsets of different functions differ, for the 32 devices a bus can have and their 8
  functions; but the scan goes on to device 255, and a device number from 32 on reaches a function of a
  later bus, so it finds functions several times. Every offset is below 256 MiB.\<close>

theorem ecam_offsets:
  "inj_on (\<lambda>(bus, dev, func). ecam_offset host bus dev func) {(bus, dev, func). dev < 32 \<and> func < 8}
   \<and> (\<forall>bus dev func. ecam_offset host bus dev func =
        ecam_offset host (bus_first host + ((bus - bus_first host) OR drop_bit 5 dev)) (take_bit 5 dev) func)
   \<and> (\<forall>bus dev func. ecam_offset host bus dev func < 2 ^ 28)"
proof (intro conjI allI)
  show "inj_on (\<lambda>(bus, dev, func). ecam_offset host bus dev func) {(bus, dev, func). dev < 32 \<and> func < 8}"
  proof (rule inj_onI)
    fix x y assume xy: "x \<in> {(bus, dev, func). dev < 32 \<and> func < 8}" "y \<in> {(bus, dev, func). dev < 32 \<and> func < 8}"
      "(case x of (bus, dev, func) \<Rightarrow> ecam_offset host bus dev func) = (case y of (bus, dev, func) \<Rightarrow> ecam_offset host bus dev func)"
    obtain b d f b' d' f' where p: "x = (b, d, f)" "y = (b', d', f')" by (metis prod_cases3)
    with xy have s: "d < 32" "f < 8" "d' < 32" "f' < 8" and e: "ecam_offset host b d f = ecam_offset host b' d' f'"
      by auto
    have "b - bus_first host = b' - bus_first host" "d = d'" "f = f'"
      using ecam_decodes [OF s(1,2), of host b] ecam_decodes [OF s(3,4), of host b'] unfolding e by simp_all
    then show "x = y" by (simp add: p)
  qed
  fix bus dev func :: u8
  have "bit dev (n - 15) \<longleftrightarrow> n - 15 < 5 \<and> bit dev (n - 15) \<or> 20 \<le> n \<and> bit dev (5 + (n - 20))" if "15 \<le> n" for n
  proof (cases "n < 20")
    case False
    then have "5 + (n - 20) = n - 15" by simp
    with False show ?thesis by auto
  qed (use that in auto)
  then show "ecam_offset host bus dev func =
        ecam_offset host (bus_first host + ((bus - bus_first host) OR drop_bit 5 dev)) (take_bit 5 dev) func"
    by (intro bit_word_eqI) (auto simp: ecam_bits bit_simps)
  have "take_bit 28 (ecam_offset host bus dev func) = ecam_offset host bus dev func"
    by (rule bit_word_eqI) (auto simp: bit_simps ecam_bits dest: bit_imp_le_length)
  then have "unat (ecam_offset host bus dev func) = take_bit 28 (unat (ecam_offset host bus dev func))"
    by (metis unsigned_take_bit_eq)
  then have "unat (ecam_offset host bus dev func) < 2 ^ 28" by (metis take_bit_nat_less_exp)
  then show "ecam_offset host bus dev func < 2 ^ 28" by (simp add: word_less_nat_alt)
qed

section \<open>Base address registers\<close>

text \<open>What PCI puts into the registers of a memory region at the address \<open>a\<close>: bit 3 says that it can be
  prefetched; a 64-bit address has its lower half, with the kind, in the first register.\<close>

definition bar32_at :: "config_space \<Rightarrow> u32 \<Rightarrow> bool \<Rightarrow> bool" where
  "bar32_at c a prefetch \<longleftrightarrow> take_bit 4 a = 0 \<and> rd32 c 16 = a OR (if prefetch then 8 else 0)"

definition bar64_at :: "config_space \<Rightarrow> u64 \<Rightarrow> bool \<Rightarrow> bool" where
  "bar64_at c a prefetch \<longleftrightarrow> take_bit 4 a = 0
     \<and> rd32 c 16 = ucast a OR (if prefetch then 12 else 4) \<and> rd32 c 20 = ucast (drop_bit 32 a)"

lemma low_bits: "take_bit 4 (a :: 'a::len word) = 0 \<Longrightarrow> n < 4 \<Longrightarrow> \<not> bit a n"
  by (metis bit_0_eq bit_take_bit_iff bot_apply bot_bool_def)

lemma bar_0: "bar c 0 = ok (rd32 c 16)" "bar c 1 = ok (rd32 c 20)"
  by (simp_all add: bar_def slot_offsets)

lemma kind_bits: "bit (b :: u32) 0 \<longleftrightarrow> b AND 1 = 1"
  by (simp add: bit_0 and_one_eq odd_iff_mod_2_eq_one)

lemma kind_field:
  assumes "\<not> bit (b :: u32) 1"
  shows "drop_bit (Suc 0) b AND 3 = (if bit b 2 then 2 else 0)"
proof -
  have "drop_bit (Suc 0) b AND 3 = take_bit 2 (drop_bit 1 b)" by (simp add: take_bit_eq_mask mask_eq_exp_minus_1)
  also have "\<dots> = (if bit b 2 then push_bit 1 1 else 0)"
  proof (rule bit_word_eqI)
    fix n
    show "bit (take_bit 2 (drop_bit 1 b)) n = bit (if bit b 2 then push_bit 1 1 else 0 :: u32) n"
      using assms by (cases "n = 0"; cases "n = 1") (auto simp: bit_simps numeral_2_eq_2)
  qed
  finally show ?thesis by simp
qed

lemma bit_constants: "bit (7 :: int) n \<longleftrightarrow> n < 3" "bit (8 :: int) n \<longleftrightarrow> n = 3"
proof -
  have "(7 :: int) = mask 3" "(8 :: int) = 2 ^ 3" by (simp_all add: mask_eq_exp_minus_1)
  then show "bit (7 :: int) n \<longleftrightarrow> n < 3" "bit (8 :: int) n \<longleftrightarrow> n = 3"
    by (auto simp only: bit_mask_iff bit_exp_iff) simp_all
qed

lemma bit_le: "bit (w :: u64) n \<Longrightarrow> 2 ^ n \<le> w"
proof (rule ccontr)
  assume "bit w n" "\<not> 2 ^ n \<le> w"
  then have "take_bit n w = w" by (simp add: take_bit_eq_mask less_mask_eq)
  with \<open>bit w n\<close> show False by (metis bit_take_bit_iff less_irrefl)
qed

text \<open>C36. The addresses the scan takes from the registers: a 32-bit address keeps the bit that says that
  the region can be prefetched; a 64-bit address gets its halves swapped, lower half with kind bits on
  top, so it is 16 GiB or more wherever the device is; an I/O register panics.\<close>

theorem bar_addresses:
  assumes "bar32_at c a p" "bar64_at d b q" "bit (rd32 e 16) 0"
  shows "bar_value c = ok (ucast a OR (if p then 8 else 0))
    \<and> (\<exists>v. bar_value d = ok v \<and> v = push_bit 32 (b OR (if q then 12 else 4)) OR (drop_bit 32 b AND NOT 7) \<and> 2 ^ 34 \<le> v)
    \<and> bar_value e = fail (Panic ''explicit panic'')"
proof (intro conjI)
  have a: "\<not> bit a n" if "n < 4" for n using assms(1) low_bits that by (auto simp: bar32_at_def)
  have "\<not> bit (rd32 c 16) 0" "\<not> bit (rd32 c 16) 1" "\<not> bit (rd32 c 16) 2"
    using assms(1) a [of 0] a [of 1] a [of 2] by (auto simp: bar32_at_def bit_simps)
  then have "bar_kind_of c 0 = ok Bits32" by (simp add: bar_kind_of_def bar_0 kind_bits [symmetric] kind_field [simplified])
  moreover have "ucast (rd32 c 16 AND NOT 7) = (ucast a OR (if p then 8 else 0) :: u64)"
  proof (rule bit_word_eqI)
    fix n
    have "bit a n \<Longrightarrow> \<not> n < 3" "bit a n \<Longrightarrow> n < 32" using a [of n] bit_imp_le_length [of a n] by auto
    then show "bit (ucast (rd32 c 16 AND NOT 7) :: u64) n = bit (ucast a OR (if p then 8 else 0) :: u64) n"
      using assms(1) by (auto simp: bar32_at_def bit_simps bit_constants)
  qed
  ultimately show "bar_value c = ok (ucast a OR (if p then 8 else 0))"
    by (simp add: bar_value_def bar_read_u32_def bar_0)
next
  have b: "\<not> bit b n" if "n < 4" for n using assms(2) low_bits that by (auto simp: bar64_at_def)
  have k: "\<not> bit (rd32 d 16) 0" "\<not> bit (rd32 d 16) 1" "bit (rd32 d 16) 2"
    using assms(2) b [of 0] b [of 1] by (auto simp: bar64_at_def bit_simps)
  then have "bar_kind_of d 0 = ok Bits64" by (simp add: bar_kind_of_def bar_0 kind_bits [symmetric] kind_field [simplified])
  moreover have "push_bit 32 (ucast (rd32 d 16)) OR (ucast (rd32 d 20) AND NOT 7)
      = (push_bit 32 (b OR (if q then 12 else 4)) OR (drop_bit 32 b AND NOT 7) :: u64)"
    using assms(2) by (intro bit_word_eqI) (auto simp: bar64_at_def bit_simps dest: bit_imp_le_length)
  moreover have "2 ^ 34 \<le> push_bit 32 (b OR (if q then 12 else 4)) OR (drop_bit 32 b AND NOT 7)"
    by (rule bit_le) (simp add: bit_simps)
  ultimately show "\<exists>v. bar_value d = ok v \<and> v = push_bit 32 (b OR (if q then 12 else 4)) OR (drop_bit 32 b AND NOT 7) \<and> 2 ^ 34 \<le> v"
    using bar_0(2) by (simp add: bar_value_def bar_read_u64_def bar_0)
next
  show "bar_value e = fail (Panic ''explicit panic'')"
    using assms(3) by (simp add: bar_value_def bar_kind_of_def bar_0 kind_bits)
qed

definition sample_slot :: "(nat \<times> u8) list \<Rightarrow> config_space" where
  "sample_slot bs i = (case map_of bs i of None \<Rightarrow> 0 | Some b \<Rightarrow> b)"

theorem bar_addresses_witness:
  "bar_value (sample_slot [(16, 8), (19, 0x40)]) = ok 0x40000008
   \<and> bar_value (sample_slot [(16, 4), (20, 8)]) = ok 0x400000008"
proof -
  have "bar32_at (sample_slot [(16, 8), (19, 0x40)]) 0x40000000 True"
    by (simp add: bar32_at_def rd32_def rd16_def sample_slot_def take_bit_eq_mod)
  moreover have "bar64_at (sample_slot [(16, 4), (20, 8)]) 0x800000000 False"
    by (simp add: bar64_at_def rd32_def rd16_def sample_slot_def take_bit_eq_mod)
  moreover have "bit (rd32 (sample_slot [(16, 1)]) 16) 0"
    by (simp add: rd32_def rd16_def sample_slot_def)
  ultimately show ?thesis using bar_addresses [of "sample_slot [(16, 8), (19, 0x40)]" "0x40000000" True
      "sample_slot [(16, 4), (20, 8)]" "0x800000000" False "sample_slot [(16, 1)]"] by simp
qed

end
