(* ===== verification/Nvme.thy ===== *)
theory Nvme
  imports Pci Timing
begin

text \<open>
  The NVMe code, LSD/src/drivers/pci/nvme: the controller's registers (controller_raw.rs), its
  capabilities and status, and the wait for it to be ready (mod.rs). The rest of \<open>init\<close> needs a type
  \<open>QueuePair\<close> that is nowhere defined and ends in \<open>todo!()\<close>; the module is not built.
\<close>

section \<open>controller_raw.rs\<close>

definition controller_fields :: "field list" where
  "controller_fields = [(''cap'', 8, 8), (''vs'', 4, 4), (''intms'', 4, 4), (''intmc'', 4, 4), (''cc'', 4, 4),
     (''_reserved1'', 4, 4), (''csts'', 4, 4), (''nssr'', 4, 4), (''aqa'', 4, 4), (''asq'', 8, 8), (''acq'', 8, 8),
     (''cmbloc'', 4, 4), (''cmbsz'', 4, 4), (''bpinfo'', 4, 4), (''bprsel'', 4, 4), (''bpmbl'', 8, 8),
     (''cmbmsc'', 8, 8), (''cmbsts'', 4, 4), (''cmbebs'', 4, 4), (''cmbswtp'', 4, 4), (''nssd'', 4, 4),
     (''crto'', 4, 4), (''_reserved3'', 3476, 1), (''pmrcap'', 4, 4), (''pmrctl'', 4, 4), (''pmrsts'', 4, 4),
     (''pmrebs'', 4, 4), (''pmrswtp'', 4, 4), (''pmrmscl'', 4, 4), (''pmrmscu'', 4, 4), (''_reserved4'', 484, 1)]"

definition version :: "u32 \<Rightarrow> u8 list" where
  "version vs = [ucast (drop_bit 16 vs AND 0xff), ucast (drop_bit 8 vs AND 0xff), ucast (vs AND 0xff)]"

definition version_str :: "u32 \<Rightarrow> string" where
  "version_str vs =
     (let v = version vs in
      show_nat (unat (v ! 0)) @ ''.'' @ show_nat (unat (v ! 1)) @ ''.'' @ show_nat (unat (v ! 2)))"

section \<open>Capabilities and status\<close>

definition caps_NVM_COMMAND_SET :: u64 where "caps_NVM_COMMAND_SET = push_bit 37 1"
definition caps_BOOT_PARTITIONS :: u64 where "caps_BOOT_PARTITIONS = push_bit 45 1"
definition status_RDY :: u32 where "status_RDY = push_bit 0 1"
definition status_CFS :: u32 where "status_CFS = push_bit 1 1"

definition contains_flags :: "'a::len word \<Rightarrow> 'a word \<Rightarrow> bool" where
  "contains_flags bits flags \<longleftrightarrow> bits AND flags = flags"

definition from_millis :: "u64 \<Rightarrow> duration" where
  "from_millis ms = Duration (ms div 1000) (ucast (ms mod 1000) * 1000000)"

definition caps_timeout :: "u64 \<Rightarrow> duration" where
  "caps_timeout bits = from_millis ((drop_bit 24 bits AND 0xff) * 500)"

definition doorbell_stride :: "u64 \<Rightarrow> usize" where
  "doorbell_stride bits = push_bit (unat (drop_bit 32 bits AND 0xf)) 4"

definition min_page_size :: "u64 \<Rightarrow> usize" where
  "min_page_size bits = push_bit (unat (drop_bit 48 bits AND 0xf)) 0x1000"

definition max_page_size :: "u64 \<Rightarrow> usize" where
  "max_page_size bits = push_bit (unat (drop_bit 52 bits AND 0xf)) 0x1000"

text \<open>The checks of \<open>init\<close> before it writes to the controller.\<close>

definition check_caps :: "u64 \<Rightarrow> unit result" where
  "check_caps caps =
     rbind (assert_that (min_page_size caps \<le> page_size_bytes Small)) (\<lambda>_.
     rbind (assert_that (page_size_bytes Small \<le> max_page_size caps)) (\<lambda>_.
     assert_that (contains_flags caps caps_NVM_COMMAND_SET)))"

section \<open>Waiting\<close>

text \<open>\<open>wait_ready\<close>: \<open>csts i\<close> is what the i-th read of the status register gives and \<open>clock i\<close> the time of
  the i-th look at the timeout, which started at \<open>start\<close>.\<close>

partial_function (option) wait_loop ::
  "u64 \<Rightarrow> timeout \<Rightarrow> (nat \<Rightarrow> u32) \<Rightarrow> (nat \<Rightarrow> u64) \<Rightarrow> nat \<Rightarrow> unit option result" where
  "wait_loop freq timeout csts clock i =
     (if contains_flags (csts i) status_RDY then ok (Some ())
      else if contains_flags (csts i) status_CFS then ok None
      else rbind (expired freq (clock i) timeout) (\<lambda>e.
        if e then ok None else wait_loop freq timeout csts clock (Suc i)))"

definition wait_ready :: "u64 \<Rightarrow> u64 \<Rightarrow> u64 \<Rightarrow> (nat \<Rightarrow> u32) \<Rightarrow> (nat \<Rightarrow> u64) \<Rightarrow> unit option result" where
  "wait_ready freq caps start csts clock = wait_loop freq (timeout_start start (caps_timeout caps)) csts clock 0"

section \<open>Properties\<close>

text \<open>The registers lie where the NVMe specification has them (and the comments say), the struct is
  one page, and the page sizes of the capabilities are powers of two from 4 KiB to 128 MiB.\<close>

theorem controller_layout:
  "map snd (field_offsets controller_fields 0) =
     [0x00, 0x08, 0x0c, 0x10, 0x14, 0x18, 0x1c, 0x20, 0x24, 0x28, 0x30, 0x38, 0x3c, 0x40, 0x44, 0x48, 0x50, 0x58, 0x5c,
      0x60, 0x64, 0x68, 0x6c, 0xe00, 0xe04, 0xe08, 0xe0c, 0xe10, 0xe14, 0xe18, 0xe1c]
   \<and> fields_end controller_fields 0 = 0x1000
   \<and> (\<forall>bits. \<exists>k < 16. unat (min_page_size bits) = 2 ^ (12 + k)) \<and> (\<forall>bits. \<exists>k < 16. unat (max_page_size bits) = 2 ^ (12 + k))"
proof -
  have "unat (w AND 0xf :: u64) < 16" for w
  proof -
    have "w AND 0xf = take_bit 4 w" by (simp add: take_bit_eq_mask mask_eq_exp_minus_1)
    then show ?thesis by (simp only: unsigned_take_bit_eq) (rule less_le_trans [OF take_bit_nat_less_exp], simp)
  qed
  moreover have "unat (push_bit k 0x1000 :: u64) = 2 ^ (12 + k)" if "k < 16" for k
  proof -
    have "(2 :: nat) ^ (12 + k) < 2 ^ 64" using that by (intro power_strict_increasing) simp_all
    moreover have "push_bit k 0x1000 = (of_nat (2 ^ (12 + k)) :: u64)" by (simp add: push_bit_eq_mult power_add)
    ultimately show ?thesis by (simp only: unat_of_nat) simp
  qed
  ultimately show ?thesis
    by (auto simp: controller_fields_def align_to_def min_page_size_def max_page_size_def)
qed

lemma wait_loop_waits:
  assumes "\<And>j. i \<le> j \<Longrightarrow> j < n \<Longrightarrow> \<not> contains_flags (csts j) status_RDY \<and> \<not> contains_flags (csts j) status_CFS
      \<and> expired freq (clock j) t = ok False" and "i \<le> n"
  shows "wait_loop freq t csts clock i = wait_loop freq t csts clock n"
  using assms(2,1)
proof (induction rule: inc_induct)
  case (step m)
  then show ?case by (subst wait_loop.simps) simp
qed simp

lemma wait_loop_hangs:
  assumes "\<And>j. \<not> contains_flags (csts j) status_RDY \<and> \<not> contains_flags (csts j) status_CFS
      \<and> expired freq (clock j) t = ok False"
  shows "wait_loop freq t csts clock i = hang"
proof -
  have False if "wait_loop freq t csts clock i = Some r" for r
    using assms
  proof (induction rule: wait_loop.raw_induct [OF _ that])
    case (1 f freq t csts clock i y)
    from 1(2) 1(3) [of i] have "f freq t csts clock (Suc i) = Some y" by simp
    then show ?case using 1(3) by (rule 1(1))
  qed
  then show ?thesis by (cases "wait_loop freq t csts clock i") auto
qed

definition wait_over :: "u64 \<Rightarrow> timeout \<Rightarrow> u32 \<Rightarrow> u64 \<Rightarrow> bool" where
  "wait_over freq t st now \<longleftrightarrow> contains_flags st status_RDY \<or> contains_flags st status_CFS \<or> expired freq now t = ok True"

text \<open>C37. \<open>wait_ready\<close> returns at the first look at which the controller is ready or has failed or the
  timeout has expired, with success exactly when it is ready; as long as none of these happens it
  does not return.\<close>

theorem wait_ready_outcome:
  assumes "t = timeout_start start (caps_timeout caps)"
    and "\<And>j. expired freq (clock j) t \<in> {ok True, ok False}"
  shows "wait_ready freq caps start csts clock =
    (if \<exists>n. wait_over freq t (csts n) (clock n) then
       let n = (LEAST n. wait_over freq t (csts n) (clock n)) in ok (if contains_flags (csts n) status_RDY then Some () else None)
     else hang)"
proof (cases "\<exists>n. wait_over freq t (csts n) (clock n)")
  case True
  define n where "n = (LEAST n. wait_over freq t (csts n) (clock n))"
  have n: "wait_over freq t (csts n) (clock n)" unfolding n_def by (rule LeastI_ex [OF True])
  have "wait_loop freq t csts clock 0 = wait_loop freq t csts clock n"
  proof (rule wait_loop_waits)
    fix j assume "j < n"
    then have "\<not> wait_over freq t (csts j) (clock j)" unfolding n_def by (rule not_less_Least)
    then show "\<not> contains_flags (csts j) status_RDY \<and> \<not> contains_flags (csts j) status_CFS
        \<and> expired freq (clock j) t = ok False"
      using assms(2) [of j] by (auto simp: wait_over_def)
  qed simp
  also have "\<dots> = ok (if contains_flags (csts n) status_RDY then Some () else None)"
    using n by (subst wait_loop.simps) (auto simp: wait_over_def)
  finally show ?thesis using True by (simp add: wait_ready_def assms(1) [symmetric] n_def Let_def)
next
  case False
  then have "wait_loop freq t csts clock 0 = hang"
    using assms(2) by (intro wait_loop_hangs) (auto simp: wait_over_def)
  with False show ?thesis by (simp add: wait_ready_def assms(1) [symmetric])
qed

theorem wait_ready_outcome_witness:
  "wait_ready 10000000 0x4000000 5 (\<lambda>i. if i < 3 then 0 else 1) (\<lambda>_. 105) = ok (Some ())
   \<and> wait_ready 10000000 0x4000000 5 (\<lambda>_. 0) (\<lambda>i. if i < 2 then 105 else 90000000) = ok None
   \<and> wait_ready 10000000 0x4000000 5 (\<lambda>_. 0) (\<lambda>_. 105) = hang"
proof -
  let ?t = "timeout_start 5 (caps_timeout 0x4000000)"
  have e: "expired 10000000 105 ?t = ok False" "expired 10000000 90000000 ?t = ok True" by code_simp+
  have f: "\<not> contains_flags 0 status_RDY" "\<not> contains_flags 0 status_CFS" "contains_flags 1 status_RDY" by code_simp+
  have "(LEAST n. 3 \<le> (n :: nat)) = 3" "(LEAST n. 2 \<le> (n :: nat)) = 2" by (rule Least_equality; simp)+
  moreover have "wait_over 10000000 ?t (if i < 3 then 0 else 1) 105 \<longleftrightarrow> 3 \<le> i"
    "wait_over 10000000 ?t 0 (if i < 2 then 105 else 90000000) \<longleftrightarrow> 2 \<le> i" for i :: nat
    using e f by (auto simp: wait_over_def)
  moreover have "\<not> wait_over 10000000 ?t 0 105" using e f by (simp add: wait_over_def)
  moreover have "expired 10000000 (if j < 2 then 105 else 90000000) ?t \<in> {ok True, ok False}" for j :: nat using e by simp
  moreover have "Ex ((\<le>) (3 :: nat))" "Ex ((\<le>) (2 :: nat))" by auto
  ultimately show ?thesis
    using wait_ready_outcome [OF refl, where freq = 10000000 and clock = "\<lambda>_. 105" and start = 5 and caps = "0x4000000"
        and csts = "\<lambda>i. if i < 3 then 0 else 1"]
      wait_ready_outcome [OF refl, where freq = 10000000 and clock = "\<lambda>i. if i < 2 then 105 else 90000000" and start = 5
        and caps = "0x4000000" and csts = "\<lambda>_. 0"]
      wait_ready_outcome [OF refl, where freq = 10000000 and clock = "\<lambda>_. 105" and start = 5 and caps = "0x4000000"
        and csts = "\<lambda>_. 0"] e f
    by (simp add: Let_def)
qed

end
