(* ===== verification/Virtio_Init.thy ===== *)
theory Virtio_Init
  imports Driver_Properties Core_Setup Scheduler
begin

text \<open>
  \<open>init\<close> of LSD/src/drivers/virtio/mod.rs: it goes through the devices that the walk over the device
  tree has put on \<open>VIRTIO_LIST\<close>, starts the input driver on each input device and registers its
  interrupts. The call is commented out in LSD/src/lib.rs. Each header has its own device; lines with
  formatted values are left out, as in Virtio.
\<close>

section \<open>Model\<close>

text \<open>What an entry of \<open>INT_HANDLERS\<close> is when the drivers are there.\<close>

datatype int_handler = Kernel_Handler handler | Input_Handler

record 'd devices =
  d_memory :: machine
  d_device :: "u64 \<Rightarrow> 'd"
  d_screen :: "printed list"
  d_plic :: "plic_call list"
  d_handlers :: "int_handler list"
  d_input :: "(u64 \<times> input) option"

definition device_type_of :: "u32 \<Rightarrow> device_type option" where
  "device_type_of v = find (\<lambda>t. device_type_id t = v)
     [Reserved, Network, Block, Console, Entropy_device, TradMemBalloon, SCSIHost, GPU, Input_device, Socket, Cryptography]"

definition host_at :: "u64 \<Rightarrow> 'd devices \<Rightarrow> 'd host" where
  "host_at p ds = \<lparr>memory = d_memory ds, device = d_device ds p, screen = d_screen ds\<rparr>"

definition on_device :: "u64 \<Rightarrow> ('d host \<Rightarrow> ('a \<times> 'd host) result) \<Rightarrow> 'd devices \<Rightarrow> ('a \<times> 'd devices) result" where
  "on_device p f ds =
     rbind (f (host_at p ds)) (\<lambda>(x, h).
     ok (x, ds\<lparr>d_memory := memory h, d_device := (d_device ds)(p := device h), d_screen := screen h\<rparr>))"

definition enable_input_int :: "usize \<Rightarrow> usize \<Rightarrow> 'd devices \<Rightarrow> 'd devices result" where
  "enable_input_int hart irq ds =
     (let ds = ds\<lparr>d_plic := d_plic ds @ [Plic_Enable (current_context hart) irq, Plic_Priority irq 2]\<rparr> in
      if unat irq < length (d_handlers ds)
      then ok (ds\<lparr>d_handlers := (d_handlers ds)[unat irq := Input_Handler]\<rparr>)
      else fail (OutOfBounds (unat irq) (length (d_handlers ds))))"

text \<open>A device number that \<open>DeviceType\<close> does not have is undefined behaviour and a fault here.\<close>

definition virtio_device :: "'d bus \<Rightarrow> usize \<Rightarrow> u64 \<times> usize list \<Rightarrow> 'd devices \<Rightarrow> 'd devices result" where
  "virtio_device b hart = (\<lambda>(device_ptr, slice) ds.
     rbind (on_device device_ptr (\<lambda>h. ok (reg_read b Dev_id h)) ds) (\<lambda>(dev_id, ds).
     case device_type_of dev_id of
       None \<Rightarrow> fail (Panic ''invalid DeviceType'')
     | Some Input_device \<Rightarrow>
         rbind (on_device device_ptr (\<lambda>h. ok ((), println ''Found input device'' h)) ds) (\<lambda>(_, ds).
         rbind (rfold (enable_input_int hart) slice ds) (\<lambda>ds.
         rbind (on_device device_ptr (input_init b) ds) (\<lambda>(dev, ds).
         ok (ds\<lparr>d_input := Some (device_ptr, dev)\<rparr>))))
     | Some _ \<Rightarrow> ok ds))"

definition virtio_init :: "'d bus \<Rightarrow> usize \<Rightarrow> (u64 \<times> usize list) list \<Rightarrow> 'd devices \<Rightarrow> 'd devices result" where
  "virtio_init b hart virtio_list = rfold (virtio_device b hart) virtio_list"

section \<open>Properties\<close>

text \<open>The device behind a header is of type \<open>t\<close>, and reading that changes nothing.\<close>

definition says_type :: "'d bus \<Rightarrow> 'd \<Rightarrow> device_type \<Rightarrow> bool" where
  "says_type b d t \<longleftrightarrow> mmio_read b d (reg_offset Dev_id) = (device_type_id t, d)"

lemma device_type_roundtrip [simp]: "device_type_of (device_type_id t) = Some t"
  by (cases t) (simp_all add: device_type_of_def)

lemma read_type:
  assumes "says_type b (d_device ds p) t"
  shows "on_device p (\<lambda>h. ok (reg_read b Dev_id h)) ds = ok (device_type_id t, ds)"
  using assms by (simp add: on_device_def host_at_def says_type_def reg_read_def)

lemma other_device:
  assumes "says_type b (d_device ds p) t" "t \<noteq> Input_device"
  shows "virtio_device b hart (p, is) ds = ok ds"
  using assms(2) by (cases t) (simp_all add: virtio_device_def read_type [OF assms(1)] device_type_of_def)

lemma other_devices:
  assumes "\<forall>(p, is) \<in> set l. \<exists>t. t \<noteq> Input_device \<and> says_type b (d_device ds p) t"
  shows "rfold (virtio_device b hart) l ds = ok ds"
  using assms
proof (induction l)
  case (Cons x l)
  then obtain p "is" t where "x = (p, is)" "t \<noteq> Input_device" "says_type b (d_device ds p) t" by auto
  with Cons show ?case by (simp add: other_device)
qed simp

definition with_input_ints :: "usize \<Rightarrow> usize list \<Rightarrow> 'd devices \<Rightarrow> 'd devices" where
  "with_input_ints hart is ds = ds\<lparr>
     d_plic := d_plic ds @ concat (map (\<lambda>i. [Plic_Enable (current_context hart) i, Plic_Priority i 2]) is),
     d_handlers := map (\<lambda>n. if n \<in> unat ` set is then Input_Handler else d_handlers ds ! n) [0..<length (d_handlers ds)]\<rparr>"

lemma enable_ints:
  "rfold (enable_input_int hart) is ds =
     (case find (\<lambda>i. length (d_handlers ds) \<le> unat i) is of
        Some i \<Rightarrow> fail (OutOfBounds (unat i) (length (d_handlers ds)))
      | None \<Rightarrow> ok (with_input_ints hart is ds))"
proof (induction "is" arbitrary: ds)
  case Nil
  then show ?case by (simp add: with_input_ints_def map_nth)
next
  case (Cons i "is")
  let ?ds = "ds\<lparr>d_plic := d_plic ds @ [Plic_Enable (current_context hart) i, Plic_Priority i 2],
    d_handlers := (d_handlers ds)[unat i := Input_Handler]\<rparr>"
  have "with_input_ints hart is ?ds = with_input_ints hart (i # is) ds" if "unat i < length (d_handlers ds)"
    using that by (auto simp: with_input_ints_def nth_list_update)
  moreover have "enable_input_int hart i ds = (if unat i < length (d_handlers ds) then ok ?ds
      else fail (OutOfBounds (unat i) (length (d_handlers ds))))" by (simp add: enable_input_int_def Let_def)
  moreover have "length (d_handlers ?ds) = length (d_handlers ds)" by simp
  ultimately show ?case using Cons.IH [of ?ds]
    by (cases "unat i < length (d_handlers ds)") (simp_all only: rfold.simps rbind_simps find.simps not_le [symmetric] not_not
        if_True if_False simp_thms option.case)
qed

text \<open>C38. With one input device among the devices found, its interrupts, and no others, are enabled and
  go to the input driver's handler, the driver is started on it, and the other devices are left
  alone; an interrupt number from 64 on, the size of the table, panics after it was enabled.\<close>

theorem virtio_init_outcome:
  assumes "\<forall>(p, is) \<in> set (pre @ post). p \<noteq> q \<and> (\<exists>t. t \<noteq> Input_device \<and> says_type b (d_device ds p) t)"
    and "says_type b (d_device ds q) Input_device"
    and "input_init b (println ''Found input device'' (host_at q ds)) = ok (inp, h)"
  shows "virtio_init b hart (pre @ (q, ints) # post) ds =
    (case find (\<lambda>i. length (d_handlers ds) \<le> unat i) ints of
       Some i \<Rightarrow> fail (OutOfBounds (unat i) (length (d_handlers ds)))
     | None \<Rightarrow> ok ((with_input_ints hart ints ds)\<lparr>d_memory := memory h, d_device := (d_device ds)(q := device h),
         d_screen := screen h, d_input := Some (q, inp)\<rparr>))"
proof -
  let ?ds = "ds\<lparr>d_screen := d_screen ds @ [Line ''Found input device'']\<rparr>"
  let ?fin = "(with_input_ints hart ints ds)\<lparr>d_memory := memory h, d_device := (d_device ds)(q := device h),
         d_screen := screen h, d_input := Some (q, inp)\<rparr>"
  have "on_device q (\<lambda>h. ok ((), println ''Found input device'' h)) ds = ok ((), ?ds)"
    by (simp add: on_device_def host_at_def println_def)
  moreover have "on_device q (input_init b) (with_input_ints hart ints ?ds) = ok (inp, ?fin\<lparr>d_input := d_input ds\<rparr>)"
    using assms(3) by (simp add: on_device_def host_at_def println_def with_input_ints_def)
  ultimately have "virtio_device b hart (q, ints) ds =
    (case find (\<lambda>i. length (d_handlers ds) \<le> unat i) ints of
       Some i \<Rightarrow> fail (OutOfBounds (unat i) (length (d_handlers ds))) | None \<Rightarrow> ok ?fin)"
    by (simp add: virtio_device_def read_type [OF assms(2)] device_type_roundtrip [of Input_device, simplified]
        enable_ints split: option.split)
  moreover have "rfold (virtio_device b hart) pre ds = ok ds" using assms(1) by (intro other_devices) auto
  moreover have "rfold (virtio_device b hart) post ?fin = ok ?fin"
  proof (intro other_devices ballI)
    fix x assume "x \<in> set post"
    then show "case x of (p, is) \<Rightarrow> \<exists>t. t \<noteq> Input_device \<and> says_type b (d_device ?fin p) t"
      using bspec [OF assms(1), of x] by (auto simp: with_input_ints_def)
  qed
  ultimately show ?thesis by (simp add: virtio_init_def rfold_append split: option.split)
qed

text \<open>The two devices of the repository's QEMU command, an entropy source and a keyboard.\<close>

definition qemu_devices :: "(u64 \<Rightarrow> u32) devices" where
  "qemu_devices = \<lparr>d_memory = warm, d_device = (\<lambda>p r. if r = 8 then (if p = 0x10001000 then 4 else 18) else 0), d_screen = [],
     d_plic = [], d_handlers = replicate 64 (Kernel_Handler Unknown_Handler), d_input = None\<rparr>"

theorem virtio_init_outcome_witness:
  "(\<exists>ds. virtio_init register_file 0 [(0x10001000, [1]), (0x10002000, [2])] qemu_devices = ok ds
      \<and> d_plic ds = [Plic_Enable 1 2, Plic_Priority 2 2] \<and> d_handlers ds ! 2 = Input_Handler
      \<and> d_handlers ds ! 1 = Kernel_Handler Unknown_Handler \<and> d_input ds \<noteq> None)
   \<and> virtio_init register_file 0 [(0x10001000, [1]), (0x10002000, [64])] qemu_devices = fail (OutOfBounds 64 64)"
proof -
  let ?h = "println ''Found input device'' (host_at 0x10002000 qemu_devices)"
  have "\<exists>a b c d e f g i xs. ram_frames = a # b # c # d # e # f # g # i # xs" by (simp add: ram_frames_def upt_rec)
  then obtain a b c d e f g i xs where fr: "ram_frames = a # b # c # d # e # f # g # i # xs" by blast
  have "free_frames (memory ?h) 0x80000000 (a # b # c # d # e # f # g # i # xs)"
    using warm_free by (simp add: fr host_at_def qemu_devices_def println_def)
  from input_init_ok [OF this, of register_file] obtain inp h where 1: "input_init register_file ?h = ok (inp, h)" by blast
  have 2: "says_type register_file (d_device qemu_devices 0x10001000) Entropy_device"
    "says_type register_file (d_device qemu_devices 0x10002000) Input_device"
    by (simp_all add: says_type_def register_file_def qemu_devices_def)
  then have 3: "\<forall>(p, is) \<in> set ([(0x10001000, [1])] @ []). p \<noteq> 0x10002000
      \<and> (\<exists>t. t \<noteq> Input_device \<and> says_type register_file (d_device qemu_devices p) t)" by auto
  have l: "length (d_handlers qemu_devices) = 64" "\<And>n. n < 64 \<Longrightarrow> d_handlers qemu_devices ! n = Kernel_Handler Unknown_Handler"
    "d_plic qemu_devices = []"
    by (simp_all add: qemu_devices_def)
  show ?thesis
    using virtio_init_outcome [OF 3 2(2) 1, of 0 "[2]"] virtio_init_outcome [OF 3 2(2) 1, of 0 "[64]"] l
    by (simp add: with_input_ints_def current_context_def)
qed

end
