(* ===== verification/User_Library.thy ===== *)
theory User_Library
  imports Kernel_Properties User_Properties
begin

text \<open>
  The two ends of a program's output: the user library, lsd_lib/src/lib.rs, whose functions put the
  numbers of a call into the registers and trap, and the UART's \<open>fmt::Write\<close>, LSD/src/uart.rs, which
  writes a text to the data register. A \<open>char\<close> is its scalar value and a \<open>str\<close> its UTF-8 encoding.
\<close>

section \<open>The UART's registers\<close>

datatype uart_register =
    Data_register | Interrupt_enable | Int_id_fifo_control | Line_control | Modem_control | Line_status
  | Modem_status | Scratch

fun uart_offset :: "uart_register \<Rightarrow> nat" where
  "uart_offset Data_register = 0"
| "uart_offset Interrupt_enable = 1"
| "uart_offset Int_id_fifo_control = 2"
| "uart_offset Line_control = 3"
| "uart_offset Modem_control = 4"
| "uart_offset Line_status = 5"
| "uart_offset Modem_status = 6"
| "uart_offset Scratch = 7"

text \<open>The bytes written to the registers, in order.\<close>

type_synonym uart_writes = "(nat \<times> u8) list"

definition uart_set_int :: "uart_writes \<Rightarrow> uart_writes" where
  "uart_set_int w = w @ [(uart_offset Interrupt_enable, 1)]"

definition uart_clear_int :: "uart_writes \<Rightarrow> uart_writes" where
  "uart_clear_int w = w @ [(uart_offset Interrupt_enable, 0)]"

definition uart_write_str :: "u32 list \<Rightarrow> uart_writes \<Rightarrow> uart_writes" where
  "uart_write_str s w = fold (\<lambda>character w. w @ [(uart_offset Data_register, ucast character)]) s w"

section \<open>The library's calls\<close>

definition lib_write_str :: "u64 \<Rightarrow> usize \<Rightarrow> trap_frame \<Rightarrow> trap_frame" where
  "lib_write_str ptr len f = set_reg reg_a3 len (set_reg reg_a2 ptr (set_reg reg_a1 1 (set_reg reg_a0 0 f)))"

definition lib_in_char :: "trap_frame \<Rightarrow> trap_frame" where
  "lib_in_char f = set_reg reg_a1 2 (set_reg reg_a0 0 f)"

definition lib_in_char_result :: "trap_frame \<Rightarrow> u32" where
  "lib_in_char_result f = ucast (regs f reg_a0)"

definition lib_spawn_thread_raw :: "trap_frame \<Rightarrow> trap_frame" where
  "lib_spawn_thread_raw f = set_reg reg_a1 2 (set_reg reg_a0 1 f)"

definition lib_spawn_result :: "trap_frame \<Rightarrow> usize \<times> usize" where
  "lib_spawn_result f = (regs f reg_a0, regs f reg_a1)"

definition lib_drop_thread :: "trap_frame \<Rightarrow> trap_frame" where
  "lib_drop_thread f = set_reg reg_a1 3 (set_reg reg_a0 1 f)"

definition lib_forfeit :: "trap_frame \<Rightarrow> trap_frame" where
  "lib_forfeit f = set_reg reg_a1 0 (set_reg reg_a0 1 f)"

text \<open>\<open>spawn_thread(f)\<close> after its call has returned the frame \<open>g\<close>: whether \<open>f\<close> runs and the thread makes
  the next call, or the function returns.\<close>

definition lib_spawn_thread :: "(trap_frame \<Rightarrow> trap_frame) \<Rightarrow> trap_frame \<Rightarrow> trap_frame option" where
  "lib_spawn_thread f g = (if snd (lib_spawn_result g) \<noteq> 0 then Some (lib_drop_thread (f g)) else None)"

definition ecall :: "'v outside \<Rightarrow> trap_frame \<Rightarrow> 'v kernel \<Rightarrow> (trap_frame \<times> 'v kernel) result" where
  "ecall e f k = trap_handler e f (trap_code UserModeEnvironmentCall) 0 k"

section \<open>UTF-8\<close>

definition utf8 :: "u32 \<Rightarrow> u8 list" where
  "utf8 c =
     (if c < 0x80 then [ucast c]
      else if c < 0x800 then [0xC0 OR ucast (drop_bit 6 c), 0x80 OR ucast (c AND 0x3F)]
      else if c < 0x10000 then
        [0xE0 OR ucast (drop_bit 12 c), 0x80 OR ucast (drop_bit 6 c AND 0x3F), 0x80 OR ucast (c AND 0x3F)]
      else [0xF0 OR ucast (drop_bit 18 c), 0x80 OR ucast (drop_bit 12 c AND 0x3F),
            0x80 OR ucast (drop_bit 6 c AND 0x3F), 0x80 OR ucast (c AND 0x3F)])"

definition as_bytes :: "u32 list \<Rightarrow> u8 list" where
  "as_bytes s = concat (map utf8 s)"

section \<open>Properties\<close>

lemma write_str_appends: "uart_write_str s w = w @ map (\<lambda>c. (0, ucast c)) s"
  by (induction s arbitrary: w) (simp_all add: uart_write_str_def)

lemma low_byte: "(ucast c :: u8) = of_nat (unat (c :: u32) mod 256)"
  by (simp add: word_unat_eq_iff unsigned_ucast_eq take_bit_eq_mod unat_of_nat)

lemma utf8_length: "0 < length (utf8 c)" "length (utf8 c) = 1 \<longleftrightarrow> c < 0x80"
  by (simp_all add: utf8_def)

lemma as_bytes_longer: "length s \<le> length (as_bytes s)"
proof (induction s)
  case (Cons c s)
  have "length (as_bytes (c # s)) = length (utf8 c) + length (as_bytes s)" by (simp add: as_bytes_def)
  moreover have "1 \<le> length (utf8 c)" using utf8_length(1) [of c] by linarith
  ultimately show ?case using Cons by simp
qed (simp add: as_bytes_def)

lemma ascii_bytes: "(\<forall>c \<in> set s. c < 0x80) \<Longrightarrow> as_bytes s = map ucast s"
  by (induction s) (simp_all add: as_bytes_def utf8_def)

lemma ascii_length: "length (as_bytes s) = length s \<longleftrightarrow> (\<forall>c \<in> set s. c < 0x80)"
proof (induction s)
  case (Cons c s)
  have "length (as_bytes (c # s)) = length (utf8 c) + length (as_bytes s)" by (simp add: as_bytes_def)
  moreover have "1 \<le> length (utf8 c)" using utf8_length(1) [of c] by linarith
  ultimately have "length (as_bytes (c # s)) = length (c # s) \<longleftrightarrow> length (utf8 c) = 1 \<and> length (as_bytes s) = length s"
    using as_bytes_longer [of s] by auto
  then show ?case unfolding Cons.IH utf8_length(2) by simp
qed (simp add: as_bytes_def)

lemma ecall_syscall: "ecall e f k = syscall_core e (f\<lparr>sepc := sepc f + 4\<rparr>) k"
  by (simp add: ecall_def trap_handler_def from_cause_def)

lemma lib_write_str_regs:
  "regs (lib_write_str ptr len f) reg_a0 = 0" "regs (lib_write_str ptr len f) reg_a1 = 1"
  "regs (lib_write_str ptr len f) reg_a2 = ptr" "regs (lib_write_str ptr len f) reg_a3 = len"
  "sepc (lib_write_str ptr len f) = sepc f"
  by (simp_all add: lib_write_str_def set_reg_def reg_a0_def reg_a1_def reg_a2_def reg_a3_def)

text \<open>C39. A text that a program prints and that lies at consecutive physical addresses, with the UART not
  locked, goes to the UART as the UTF-8 bytes it has in memory, one after the other, and the program
  goes on after its call. The kernel prints a text by one byte per character to the data register, the
  scalar value modulo 256. The two agree exactly on texts of ASCII characters.\<close>

theorem printed_text_reaches_uart:
  assumes "virt_to_phys (mach k) ptr = ok (Inr pa)" and "\<not> uart_locked k" and "length (as_bytes str) < 2 ^ 64"
    and "\<And>i. i < length (as_bytes str) \<Longrightarrow> rd_byte (mach k) (pa + hhdm (mach k) + of_nat i) = ok (as_bytes str ! i)"
  shows "ecall e (lib_write_str ptr (of_nat (length (as_bytes str))) f) k =
      ok ((lib_write_str ptr (of_nat (length (as_bytes str))) f)\<lparr>sepc := sepc f + 4\<rparr>,
        k\<lparr>console := console k @ map Byte (as_bytes str)\<rparr>)
    \<and> uart_write_str str w = w @ map (\<lambda>c. (0, of_nat (unat c mod 256))) str
    \<and> uart_write_str (map ucast (as_bytes str)) w = w @ map (Pair (uart_offset Data_register)) (as_bytes str)
    \<and> (uart_write_str str w = uart_write_str (map ucast (as_bytes str)) w \<longleftrightarrow> (\<forall>c \<in> set str. c < 0x80))"
proof (intro conjI)
  let ?n = "length (as_bytes str)"
  let ?f = "(lib_write_str ptr (of_nat ?n) f)\<lparr>sepc := sepc f + 4\<rparr>"
  have n: "unat (of_nat ?n :: usize) = ?n" using assms(3) by (simp add: unat_of_nat)
  have "print_bytes (pa + hhdm (mach k)) ?n k = ok (k\<lparr>console := console k @ map (\<lambda>i. Byte (as_bytes str ! i)) [0..<?n]\<rparr>)"
    by (rule print_bytes_ok [OF assms(2,4)])
  moreover have "map (\<lambda>i. Byte (as_bytes str ! i)) [0..<?n] = map Byte (as_bytes str)"
    by (rule nth_equalityI) simp_all
  ultimately have "kernel_io ?f k = ok (?f, k\<lparr>console := console k @ map Byte (as_bytes str)\<rparr>)"
    using assms(1) by (simp add: kernel_io_def pa_as_ptr_def lib_write_str_regs n)
  then show "ecall e (lib_write_str ptr (of_nat ?n) f) k = ok (?f, k\<lparr>console := console k @ map Byte (as_bytes str)\<rparr>)"
    by (simp add: ecall_syscall syscall_core_def lib_write_str_regs)
  show "uart_write_str str w = w @ map (\<lambda>c. (0, of_nat (unat c mod 256))) str"
    by (simp only: write_str_appends low_byte)
  show "uart_write_str (map ucast (as_bytes str)) w = w @ map (Pair (uart_offset Data_register)) (as_bytes str)"
    by (simp add: write_str_appends ucast_up_ucast_id is_up)
  show "uart_write_str str w = uart_write_str (map ucast (as_bytes str)) w \<longleftrightarrow> (\<forall>c \<in> set str. c < 0x80)"
  proof
    assume "uart_write_str str w = uart_write_str (map ucast (as_bytes str)) w"
    then have "map (\<lambda>c. (0 :: nat, ucast c :: u8)) str = map (\<lambda>c. (0, ucast c)) (map ucast (as_bytes str) :: u32 list)"
      by (simp only: write_str_appends same_append_eq)
    then have "length str = ?n" by (metis length_map)
    then show "\<forall>c \<in> set str. c < 0x80" using ascii_length [of str] by simp
  next
    assume "\<forall>c \<in> set str. c < 0x80"
    then show "uart_write_str str w = uart_write_str (map ucast (as_bytes str)) w"
      by (simp add: write_str_appends ascii_bytes ucast_up_ucast_id is_up)
  qed
qed

text \<open>A program whose segment holds the bytes of \<open>Hi\<close> prints the second of them.\<close>

theorem printed_text_reaches_uart_witness:
  "\<exists>t f. load_segment [5, 0x48, 0x69] 0x80000000 (load_level warm) small_segment warm = ok t
     \<and> ecall board (lib_write_str 0x40000001 1 frame_default) (three\<lparr>mach := t\<lparr>satp := 0\<rparr>\<rparr>)
       = ok (f, three\<lparr>mach := t\<lparr>satp := 0\<rparr>, console := console three @ [Byte 0x69]\<rparr>)"
proof -
  have sp: "tree 0x80000000 warm (\<lambda>_. None) ram_frames {}" using warm_aspace by (simp add: aspace_tree)
  have f: "file_bytes [5, 0x48, 0x69] small_segment" by (simp add: file_bytes_def small_segment_def)
  from loaded_image [OF sp small_loads f] obtain t where
    t: "load_segment [5, 0x48, 0x69] 0x80000000 (load_level warm) small_segment warm = ok t"
    and all: "\<And>w j. current_table (t\<lparr>satp := w\<rparr>) = 0x80000000 \<Longrightarrow> j < unat (p_memsz small_segment) \<Longrightarrow>
        (\<exists>a. virt_to_phys (t\<lparr>satp := w\<rparr>) (p_vaddr small_segment + of_nat j) = ok (Inr a)
           \<and> rd_byte t (a + hhdm t) = image_byte [5, 0x48, 0x69] small_segment (rd_byte warm (a + hhdm warm)) j)" by blast
  from load_segment_ok [OF sp small_loads f] t have h: "hhdm t = hhdm warm" by auto
  then have "current_table (t\<lparr>satp := 0\<rparr>) = 0x80000000"
    by (simp add: current_table_def satp_get_ppn_def bf_get_def)
  from all [OF this, of 1] obtain a where a: "virt_to_phys (t\<lparr>satp := 0\<rparr>) 0x40000001 = ok (Inr a)"
    "rd_byte t (a + hhdm t) = ok 0x69" by (auto simp: small_segment_def image_byte_def)
  have bs: "as_bytes [0x69] = [0x69]" by (simp add: as_bytes_def utf8_def)
  have "ecall board (lib_write_str 0x40000001 1 frame_default) (three\<lparr>mach := t\<lparr>satp := 0\<rparr>\<rparr>)
      = ok ((lib_write_str 0x40000001 1 frame_default)\<lparr>sepc := sepc frame_default + 4\<rparr>,
          three\<lparr>mach := t\<lparr>satp := 0\<rparr>, console := console three @ [Byte 0x69]\<rparr>)"
    using printed_text_reaches_uart [where k = "three\<lparr>mach := t\<lparr>satp := 0\<rparr>\<rparr>" and ptr = "0x40000001" and pa = a and str = "[0x69]"
        and e = board and f = frame_default]
      a three_ok(7) by (simp add: bs rd_byte_def rd_def)
  with t show ?thesis by blast
qed

end
