(* ===== verification/Kmain.thy ===== *)
theory Kmain
  imports Kernel_Init Smp Core_Properties Kernel_Example
begin

text \<open>
  \<open>kmain\<close> of LSD/src/main.rs: the whole way from the boot protocol's responses to the first task. The
  programs' bytes, the ELF parser and the order in which the boot processor and the other cores take
  their steps are arguments. \<open>_boot\<close>, which runs before with interrupts off, is the assembly that sets
  gp, sp and stvec; \<open>panic\<close> is the value \<open>fail\<close>.
\<close>

section \<open>Model\<close>

text \<open>The responses of limine; \<open>None\<close> is a request without a response.\<close>

record limine =
  lm_dtb :: "usize option"
  lm_kern_phys :: "usize option"
  lm_paging :: bool
  lm_map :: bool
  lm_hhdm :: "u64 option"
  lm_smp :: "(usize \<times> usize list) option"      \<comment> \<open>the boot processor's hart and all harts\<close>

text \<open>\<open>smp_init\<close> under a schedule: \<open>None\<close> is a step of the boot processor, \<open>Some h\<close> one of the hart \<open>h\<close>.
  A schedule that ends before the boot processor is done stands for its waiting for ever.\<close>

fun smp_run :: "smp_env \<Rightarrow> usize option list \<Rightarrow> smp \<Rightarrow> smp result" where
  "smp_run e [] s =
     (if sm_bsp s = Bsp_done then ok s else if sm_bsp s = Bsp_dead then fail (Panic ''smp_init'') else hang)"
| "smp_run e (c # cs) s =
     (case (case c of None \<Rightarrow> bsp_step e s | Some h \<Rightarrow> hart_step e h s) of
        None \<Rightarrow> smp_run e cs s
      | Some s' \<Rightarrow> smp_run e cs s')"

definition smp_init :: "'v firmware \<Rightarrow> core \<Rightarrow> usize option list \<Rightarrow> usize \<times> usize list \<Rightarrow> 'v boot \<Rightarrow> 'v boot result" where
  "smp_init fw reset sched = (\<lambda>(bsp, cpus) b.
     let e = \<lparr>bsp_hart = bsp, tdata_from = fw_tdata_start fw, tdata_to = fw_tdata_end fw,
              global_pointer = c_gp (core0 b), reset_core = reset\<rparr> in
     rbind (smp_run e sched (smp_start (mach (kern b)) (heap_free b) cpus)) (\<lambda>s.
     ok (b\<lparr>heap_free := sm_heap s, kern := (kern b)\<lparr>mach := sm_mach s\<rparr>\<rparr>)))"

definition sstatus_set_spie :: "bool \<Rightarrow> u64 \<Rightarrow> u64" where "sstatus_set_spie = bf_set_flag 5"

text \<open>An \<open>sret\<close> goes to user mode from here on.\<close>

definition to_user_mode :: "'v boot \<Rightarrow> 'v boot" where
  "to_user_mode b =
     (let v = sstatus_set_spie True (sstatus_set_spp False (sstatus_new (core0 b)))
      in b\<lparr>core0 := sstatus_csrw v (core0 b), kern := (kern b)\<lparr>sstatus := v\<rparr>\<rparr>)"

definition load_program ::
  "(u8 list \<Rightarrow> string + elf_file) \<Rightarrow> 'v arena_ops \<Rightarrow> u8 list \<Rightarrow> string \<Rightarrow> 'v boot \<Rightarrow> 'v boot result" where
  "load_program parse ops prog line b =
     rbind (load parse ops prog (kern b)) (\<lambda>(ident, k). say line [ident] (b\<lparr>kern := k\<rparr>))"

definition arm_timer :: "'v outside \<Rightarrow> 'v boot \<Rightarrow> 'v boot result" where
  "arm_timer e b =
     (let (r, deadline) = unit_set (set_timer e) (timer_speed (kern b)) (rdtime e) (MilliSeconds 10) in
      rbind (unwrap_res r) (\<lambda>_. ok (b\<lparr>kern := (kern b)\<lparr>timer_at := Some deadline\<rparr>\<rparr>)))"

definition kmain ::
  "'v firmware \<Rightarrow> 'v outside \<Rightarrow> (u8 list \<Rightarrow> string + elf_file) \<Rightarrow> u8 list \<Rightarrow> u8 list \<Rightarrow> core \<Rightarrow> usize option list \<Rightarrow>
    limine \<Rightarrow> 'v boot \<Rightarrow> (task_data \<times> 'v boot) result" where
  "kmain fw e parse USER_PROG NULL_TASK reset sched l b =
     rbind (unwrap_opt (lm_dtb l)) (\<lambda>dtb_ptr.
     rbind (unwrap_opt (lm_kern_phys l)) (\<lambda>phys.
     rbind (say ''Kernel starting'' [] (b\<lparr>fdt_ptr := dtb_ptr, kern_phys := phys\<rparr>)) (\<lambda>b.
     if \<not> lm_paging l then fail (Panic ''Paging request failed'')
     else if \<not> lm_map l then fail UnwrapNone
     else
     rbind (unwrap_opt (lm_hhdm l)) (\<lambda>hhdm_start.
     rbind (unwrap_opt (lm_smp l)) (\<lambda>smp.
     rbind (lib_init fw hhdm_start (fst smp) dtb_ptr b) (\<lambda>b.
     rbind (smp_init fw reset sched smp b) (\<lambda>b.
     let b = to_user_mode b in
     rbind (load_program parse (fw_arenas fw) USER_PROG ''Loaded user program task with id'' b) (\<lambda>b.
     rbind (load_program parse (fw_arenas fw) NULL_TASK ''Loaded null task with id'' b) (\<lambda>b.
     rbind (arm_timer e b) (\<lambda>b.
     rbind (start_tasks (kern b)) (\<lambda>(task, k). ok (task, b\<lparr>kern := k\<rparr>))))))))))))"

section \<open>Properties\<close>

text \<open>On a machine with one core, as the repository starts it, \<open>smp_init\<close> changes nothing.\<close>

lemma smp_init_one_core:
  "smp_init fw reset (None # None # sched) (bsp, [bsp]) b = ok b"
proof -
  have "smp_run e sched s = ok s" if "sm_bsp s = Bsp_done" "sm_harts s = (\<lambda>_. Parked)" for e s
    using that
  proof (induction sched)
    case (Cons c cs)
    then show ?case by (cases c) (simp_all add: bsp_step_def hart_step_def)
  qed simp
  then show ?thesis by (simp add: smp_init_def bsp_step_def smp_start_def)
qed

text \<open>C40. The kernel runs its whole start with interrupts on: \<open>traps::init\<close> turns them on, and
  \<open>kmain\<close> leaves them on while it loads the programs. Once the UART's interrupt is enabled, a
  character that arrives while the kernel prints a line is a deadlock, since the handler waits for
  the UART's lock; in user mode the same interrupt is served.\<close>

theorem input_while_printing_deadlocks:
  assumes "traps_init heap c s = ok (heap', c', s')" and "core0 b = c'"
    and "unat irq < length (handlers (kern b))" and "plic_claim e = Some (unat irq)"
  shows "\<exists>b'. enable_uart_int irq b = ok b'
    \<and> sie_seie (c_sie (core0 (to_user_mode b'))) \<and> bit (c_sstatus (core0 (to_user_mode b'))) 1
    \<and> trap_handler e f (trap_code SupervisorExternalInterrupt) stval ((kern (to_user_mode b'))\<lparr>uart_locked := True\<rparr>) = hang
    \<and> (\<exists>k'. trap_handler e f (trap_code SupervisorExternalInterrupt) stval
          ((kern (to_user_mode b'))\<lparr>uart_locked := False, await := []\<rparr>) = ok (f, k') \<and> completed k' = completed (kern b) @ [unat irq])"
proof -
  have c: "sie_seie (c_sie c')" "bit (c_sstatus c') 1"
    using assms(1) by (auto simp: traps_init_def rbind_eq_ok Let_def sie_csrw_def sstatus_csrw_def sie_seie_def sie_set_ssie_def
        sie_set_stie_def sie_set_seie_def sstatus_set_sie_def bf_flag_bit bit_bf_set_flag)
  let ?b = "b\<lparr>plic_log := plic_log b @ [Plic_Enable (current_context (hart_no b)) irq, Plic_Priority irq 2],
    kern := (kern b)\<lparr>handlers := (handlers (kern b))[unat irq := Uart_Handler]\<rparr>\<rparr>"
  have "enable_uart_int irq b = ok ?b" using assms(3) by (simp add: enable_uart_int_def Let_def)
  moreover have "bit (c_sstatus (core0 (to_user_mode ?b))) 1" "c_sie (core0 (to_user_mode ?b)) = c_sie c'"
    using c(2) assms(2) by (simp_all add: to_user_mode_def Let_def sstatus_csrw_def sstatus_new_def sstatus_set_spie_def
        sstatus_set_spp_def bit_bf_set_flag)
  moreover have "from_cause (trap_code SupervisorExternalInterrupt) = SupervisorExternalInterrupt"
    by (simp add: from_cause_def INTERRUPT_BIT_def)
  ultimately show ?thesis
    using c(1) assms(3,4)
    by (intro exI [of _ ?b])
      (simp add: trap_handler_def handle_external_def to_user_mode_def Let_def uart_handler_def index_at_def)
qed

definition blank_core :: core where
  "blank_core = \<lparr>c_sp = 0, c_tp = 0, c_gp = 0, c_satp = 0, c_sscratch = 0, c_sstatus = 0, c_sie = 0\<rparr>"

definition booting :: "core \<Rightarrow> usize boot" where
  "booting c = \<lparr>kern = three, heap_free = [], core0 = c, fdt_ptr = 0, kern_phys = 0, hart_no = 0, cpu_data = set_once_new 0,
     rtc_cell = set_once_new 0, plic_addr = 0, plic_log = [], virtio_list = [], uart_ier = 1\<rparr>"

theorem input_while_printing_deadlocks_witness:
  "\<exists>c b'. enable_uart_int 10 (booting c) = ok b' \<and> bit (c_sstatus (core0 (to_user_mode b'))) 1
    \<and> trap_handler board frame_default (trap_code SupervisorExternalInterrupt) 0
        ((kern (to_user_mode b'))\<lparr>uart_locked := True\<rparr>) = hang"
proof -
  from traps_init_ready [OF big_core, of blank_core] obtain heap c t where
    c: "traps_init [\<lparr>start_addr = 0x80001008, node_size = 0x4000\<rparr>] blank_core big = ok (heap, c, t)" by blast
  have "core0 (booting c) = c" "unat (10 :: usize) < length (handlers (kern (booting c)))" "plic_claim board = Some (unat (10 :: usize))"
    by (simp_all add: booting_def three_def kernel_of_def board_def)
  from input_while_printing_deadlocks [OF c this] show ?thesis by blast
qed

end
