(* ===== verification/Spec2Isabelle.thy ===== *)
theory Spec2Isabelle
  imports Memory_Properties Heap Kernel_Properties Trap_Shim Driver_Properties User_Properties Cpu_Data
    Init_Properties Smp_Properties Copy_Properties Program_Root Pci_Properties Nvme Virtio_Init User_Library
    Kmain
begin

text \<open>
  LSD is a microkernel for 64-bit RISC-V, started by the limine boot protocol. \<open>_boot\<close> and \<open>kmain\<close>
  (LSD/src/main.rs) call \<open>init\<close> (LSD/src/lib.rs), which sets up the heap, the physical and the
  virtual memory manager, the core and the devices of the device tree; \<open>smp_init\<close> starts the other
  cores; \<open>userspace::load\<close> makes a task of each program, and from then on the kernel runs in traps:
  the timer switches tasks, a task calls the kernel, a device interrupts. This development models
  those parts function by function and proves what each promises to the others.

  \<^bold>\<open>Representation.\<close> \<open>Kernel_Prelude\<close>: a \<open>usize\<close>, a \<open>u64\<close> and a pointer are 64-bit words; an operation
  returns \<open>ok\<close> a value, \<open>fail\<close> a fault (a panic with its message, an index out of bounds, an access to
  memory that is not there) or \<open>hang\<close> when it never returns. \<open>Machine\<close>: the memory is a partial map
  from addresses to aligned 64-bit words (\<open>mem\<close>), bytes are parts of words (\<open>Bytes\<close>, little endian),
  beside the statics \<open>HHDM_OFFSET\<close>, \<open>LEVELS\<close> and \<open>REGION_LIST\<close>, the register satp and the fences
  issued. Locks are taken and released within an operation, so they appear only where one is held across a call
  (\<open>end_program\<close> of \<open>Syscalls\<close>) or where cores interleave (\<open>Smp\<close>).

  \<^bold>\<open>Memory.\<close> \<open>Pmm\<close>, \<open>Pmm_Runs\<close> (memory/pmm.rs): the free list threaded through the frames; \<open>fl_inv s xs\<close>
  says that it is the list \<open>xs\<close>, and each operation is proved as a change of \<open>xs\<close>. \<open>Bit_Fields\<close>,
  \<open>Addresses\<close> (memory/mod.rs, and the levels of vmm.rs): addresses, levels, indices; \<open>bit_field\<close> and
  \<open>bit_fields\<close> are the contracts of the accessors that the crate \<open>bitfield\<close> generates. \<open>Vmm\<close> (memory/vmm.rs): page
  tables, \<open>map\<close>, \<open>unmap\<close>, translation, copies of tables, the allocator \<open>Vmm\<close>, bring-up. \<open>Page_Tables\<close>,
  \<open>Address_Space\<close>, \<open>Translation\<close>, \<open>Vmm_Alloc\<close>: the tables in memory denote a map from index paths to leaf
  entries (\<open>pt_inv\<close>, \<open>leaves\<close>, \<open>aspace\<close>), of which \<open>map\<close> and \<open>unmap\<close> are updates at one path. \<open>Table_Copy\<close>,
  \<open>Copy_Properties\<close>: what \<open>clone_table_range\<close> and \<open>new_with_upperhalf\<close> copy (\<open>copied\<close>, \<open>copy_of\<close>); \<open>Program_Root\<close>: what
  they leave in the lower half. \<open>Heap\<close>
  (memory/linked_list.rs): the kernel's first-fit allocator. \<open>Dma\<close> (memory/dma.rs): regions for devices.
  \<open>Memory_Properties\<close> holds the properties of frames and address spaces.

  \<^bold>\<open>Tasks and traps.\<close> \<open>Task\<close>, \<open>Scheduler\<close> (traps/task.rs): the queue, \<open>advance\<close>, the switch. \<open>Syscalls\<close>
  (arch/riscv/syscalls.rs, uart.rs): every call a program can make. \<open>Traps\<close> (traps/mod.rs,
  traps/plic.rs): causes, the trap handler, external interrupts. \<open>Hart\<close>, \<open>Trap_Shim\<close>: the naked
  functions of traps/mod.rs and traps/task.rs, instruction by instruction. \<open>Timing\<close> (timing.rs).
  \<open>Kernel_Properties\<close> holds the properties of whole traps and of sequences of traps.

  \<^bold>\<open>Drivers.\<close> \<open>Splitqueue\<close> (drivers/virtio/splitqueue), \<open>Virtio\<close> (drivers/virtio, entropy and input),
  \<open>Rtc\<close> (drivers/goldfish_rtc), with \<open>Driver_Properties\<close>; \<open>Virtio_Init\<close>: \<open>init\<close> over the devices found. \<open>Pci\<close>,
  \<open>Pci_Properties\<close>, \<open>Nvme\<close> (drivers/pci, which drivers/mod.rs leaves out of the build): the configuration
  header and the registers as lists of fields laid out by \<open>repr(C)\<close>, the scan, the wait for a controller.

  \<^bold>\<open>Start-up and programs.\<close> \<open>Cpu_Data\<close> (\<open>CpuData\<close> of lib.rs): the ISA string. \<open>Core_Setup\<close> (\<open>init_tls\<close>,
  \<open>traps::init\<close>, \<open>plic_init\<close>, arch/riscv/regs.rs) with \<open>Core_Properties\<close>; \<open>Kernel_Init\<close> (\<open>init\<close> and \<open>SetOnce\<close>
  of lib.rs, in the order of the source) with \<open>Init_Properties\<close>; \<open>Smp\<close> (\<open>smp_init\<close> and \<open>core_main\<close> of main.rs)
  as a step relation with one program counter per core, with \<open>Smp_Properties\<close>; \<open>Userspace\<close>, \<open>Load_Image\<close>
  (userspace.rs) with \<open>User_Properties\<close>; \<open>User_Library\<close>: the library of the programs (lsd_lib) on one end of a
  call and the UART (uart.rs) on the other; \<open>Kmain\<close>: \<open>kmain\<close> of main.rs, which puts all of it in order.

  \<^bold>\<open>How the parts meet.\<close> The page tables take frames from the free list, and \<open>aspace\<close> keeps tables,
  free frames and data frames apart; \<open>traps::init\<close> establishes what the trap shim assumes
  (\<open>traps_init_readies_shim\<close>); the shim hands the handler the frame that \<open>Scheduler\<close> stores in the task
  and loads from the next one; the loader's tables are those of \<open>Vmm\<close>; what a program prints is
  followed from the library's registers through \<open>trap_handler\<close>, the translation and the loaded image to the
  bytes on the UART (\<open>printed_text_reaches_uart\<close>).

  \<^bold>\<open>Interfaces.\<close> The locales (\<open>bit_field\<close>, \<open>store\<close>, \<open>frame_allocator\<close>, \<open>mapper\<close>, \<open>fifo\<close>, each in the theory of its
  provider) state what a client may assume of a component; every one is interpreted on the model's
  own definitions there.

  \<^bold>\<open>Termination.\<close> A walk through page tables, a copy of tables, \<open>advance\<close> and the wait for an NVMe controller
  need not end, so they are \<open>partial_function (option)\<close> with \<open>hang\<close> for no return; that they return is part of
  their theorems (at most five levels of tables, one round of the task queue, the first look at which the
  controller is ready, failed or late). Everything else is structural recursion; there is no fuel. Steps of
  several cores are a relation (\<open>Smp\<close>) or follow a schedule, a list of who steps next (\<open>Kmain\<close>).

  \<^bold>\<open>Parameters.\<close> Code outside the repository is an argument of the definitions that use it: the memory map,
  the SMP table and the loaded addresses (limine), \<open>vmem\<close> arenas, the parsed program (\<open>elf\<close>) and device tree (\<open>fdt\<close>),
  the firmware's timer (\<open>sbi\<close>), the PLIC (\<open>sifive_plic\<close>, as the list of its calls), a device's
  answers to reads of its registers.

  \<^bold>\<open>Examples.\<close> \<open>Boot_Example\<close>, \<open>Kernel_Example\<close> and \<open>Large_Example\<close> build small machines by running the
  model's own bring-up; the properties are applied to them in the theorems named \<open>..._witness\<close>.

  \<^bold>\<open>Not modelled.\<close> Log lines that have no effect but the line, and the text of \<open>Debug\<close> instances other than
  that of \<open>CpuData\<close>. The rest of \<open>nvme::init\<close>: it uses \<open>QueuePair\<close> and \<open>CompletionQueueEntry\<close>, which no file
  defines, and ends in \<open>todo!()\<close>. \<open>_boot\<close>, whose few instructions only load gp, sp and stvec. The
  bodies of the two programs (LSD-Userspace prints two lines, null_task is an endless jump), the linker symbols of
  utils, the build scripts and the build tool xtask, which only runs commands. libs/volatile.rs: a volatile
  access is the access itself, in program order, which is how every theory reads and writes registers.
\<close>

end
